(* ===== verification/Prelude.thy ===== *)
theory Prelude
  imports Main "HOL-Library.Word"
begin

text \<open>
  Shared vocabulary of the development: names for the machine types of the Rust sources,
  the standard-library integer and slice operations the daemon uses (\<open>checked_add\<close>,
  \<open>saturating_sub\<close>, \<open>to_be_bytes\<close>, \<open>from_str_radix\<close>, \<open>starts_with\<close>, \dots), results as
  sums, and the lemmas about them that every component reuses.  Integers keep their
  width (\<open>u64\<close> is a 64-bit word and \<open>+\<close> wraps, as in the release profile of
  \<^verbatim>\<open>daemon/Cargo.toml\<close>, which does not enable overflow checks).
\<close>

unbundle bit_operations_syntax

named_theorems word_model \<open>readings of the machine-integer operations as natural numbers\<close>
named_theorems bytes_model \<open>lengths, round trips and injectivity of byte encodings\<close>

type_synonym byte = "8 word"
type_synonym u32 = "32 word"
type_synonym u64 = "64 word"
type_synonym i64 = "64 word"

section \<open>Integer operations\<close>

definition sat_sub :: "'a::len word \<Rightarrow> 'a word \<Rightarrow> 'a word" where
  "sat_sub a b = (if a < b then 0 else a - b)"

definition checked_add :: "'a::len word \<Rightarrow> 'a word \<Rightarrow> 'a word option" where
  "checked_add a b = (if unat a + unat b < 2 ^ LENGTH('a) then Some (a + b) else None)"

lemma unat_sat_sub [word_model]: "unat (sat_sub a b) = unat a - unat b"
  by (auto simp: sat_sub_def word_less_nat_alt unat_sub word_le_nat_alt)

lemma sat_sub_le: "sat_sub a b \<le> a"
  by (simp add: word_le_nat_alt unat_sat_sub)

lemma sat_sub_self [simp]: "sat_sub a a = 0"
  by (simp add: sat_sub_def)

lemma unat_checked_add [word_model]:
  "checked_add a b = Some c \<Longrightarrow> unat c = unat a + unat b"
  by (auto simp: checked_add_def unat_word_ariths split: if_splits)

lemma checked_add_None_iff:
  "checked_add (a :: 'a::len word) b = None \<longleftrightarrow> 2 ^ LENGTH('a) \<le> unat a + unat b"
  by (auto simp: checked_add_def)

lemma unat_plus_no_wrap [word_model]:
  "unat (a :: 'a::len word) + unat b < 2 ^ LENGTH('a) \<Longrightarrow> unat (a + b) = unat a + unat b"
  by (simp add: unat_word_ariths)

lemma unat_plus_one [word_model]:
  "unat (a :: u64) < 2 ^ 64 - 1 \<Longrightarrow> unat (a + 1) = Suc (unat a)"
  by (simp add: unat_word_ariths)

lemma unat_u32_less: "unat (w :: u32) < 4294967296"
  using unsigned_less [of w, where ?'a = nat] by simp

lemma unat_u64_less: "unat (w :: u64) < 18446744073709551616"
  using unsigned_less [of w, where ?'a = nat] by simp

lemma unat_of_nat_u64 [word_model]: "n < 2 ^ 64 \<Longrightarrow> unat (of_nat n :: u64) = n"
  by (simp add: unat_of_nat)

section \<open>Results\<close>

type_synonym ('e, 'a) result = "'e + 'a"

fun map_err :: "('e \<Rightarrow> 'f) \<Rightarrow> ('e, 'a) result \<Rightarrow> ('f, 'a) result" where
  "map_err f (Inl e) = Inl (f e)"
| "map_err f (Inr a) = Inr a"

fun unwrap_or :: "('e, 'a) result \<Rightarrow> 'a \<Rightarrow> 'a" where
  "unwrap_or (Inl e) d = d"
| "unwrap_or (Inr a) d = a"

fun option_or :: "'a option \<Rightarrow> 'a option \<Rightarrow> 'a option" where
  "option_or (Some a) b = Some a"
| "option_or None b = b"

fun is_some :: "'a option \<Rightarrow> bool" where
  "is_some (Some a) = True"
| "is_some None = False"

lemma is_some_iff: "is_some m \<longleftrightarrow> (\<exists>a. m = Some a)"
  by (cases m) auto

section \<open>Big-endian bytes\<close>

fun be_of_nat :: "nat \<Rightarrow> nat \<Rightarrow> byte list" where
  "be_of_nat 0 x = []"
| "be_of_nat (Suc n) x = be_of_nat n (x div 256) @ [of_nat (x mod 256)]"

definition nat_of_be :: "byte list \<Rightarrow> nat" where
  "nat_of_be bs = foldl (\<lambda>a b. a * 256 + unat b) 0 bs"

definition u32_to_be :: "u32 \<Rightarrow> byte list" where
  "u32_to_be w = be_of_nat 4 (unat w)"

definition u64_to_be :: "u64 \<Rightarrow> byte list" where
  "u64_to_be w = be_of_nat 8 (unat w)"

lemma length_be_of_nat [simp, bytes_model]: "length (be_of_nat n x) = n"
  by (induction n arbitrary: x) auto

lemma nat_of_be_snoc: "nat_of_be (bs @ [b]) = nat_of_be bs * 256 + unat b"
  by (simp add: nat_of_be_def)

lemma unat_byte_of_nat: "k < 256 \<Longrightarrow> unat (of_nat k :: byte) = k"
  by (simp add: unat_of_nat)

lemma nat_of_be_of_nat [bytes_model]: "x < 256 ^ n \<Longrightarrow> nat_of_be (be_of_nat n x) = x"
proof (induction n arbitrary: x)
  case 0
  then show ?case by (simp add: nat_of_be_def)
next
  case (Suc n)
  from Suc.prems have "x div 256 < 256 ^ n"
    by (simp add: less_mult_imp_div_less mult.commute)
  then have "nat_of_be (be_of_nat n (x div 256)) = x div 256"
    by (rule Suc.IH)
  then show ?case
    by (simp add: nat_of_be_snoc unat_byte_of_nat)
qed

lemma unat_byte_less: "unat (b :: byte) < 256"
  using unsigned_less [of b, where ?'a = nat] by simp

lemma nat_of_be_less: "nat_of_be bs < 256 ^ length bs"
proof (induction bs rule: rev_induct)
  case Nil
  then show ?case by (simp add: nat_of_be_def)
next
  case (snoc b bs)
  have "nat_of_be bs * 256 + unat b < (nat_of_be bs + 1) * 256"
    using unat_byte_less [of b] by simp
  also have "\<dots> \<le> 256 ^ length bs * 256"
    using snoc by (intro mult_le_mono1) simp
  finally show ?case by (simp add: nat_of_be_snoc mult.commute)
qed

lemma be_of_nat_of_be [bytes_model]: "be_of_nat (length bs) (nat_of_be bs) = bs"
proof (induction bs rule: rev_induct)
  case Nil
  then show ?case by simp
next
  case (snoc b bs)
  have "(nat_of_be bs * 256 + unat b) div 256 = nat_of_be bs"
    and "(nat_of_be bs * 256 + unat b) mod 256 = unat b"
    using unat_byte_less [of b] by simp_all
  with snoc show ?case by (simp add: nat_of_be_snoc)
qed

lemma length_u32_to_be [simp, bytes_model]: "length (u32_to_be w) = 4"
  by (simp add: u32_to_be_def)

lemma length_u64_to_be [simp, bytes_model]: "length (u64_to_be w) = 8"
  by (simp add: u64_to_be_def)

lemma nat_of_u32_to_be [simp, bytes_model]: "nat_of_be (u32_to_be w) = unat w"
  by (simp add: u32_to_be_def nat_of_be_of_nat unat_u32_less)

lemma nat_of_u64_to_be [simp, bytes_model]: "nat_of_be (u64_to_be w) = unat w"
  by (simp add: u64_to_be_def nat_of_be_of_nat unat_u64_less)

lemma u64_to_be_inject [bytes_model]: "u64_to_be v = u64_to_be w \<longleftrightarrow> v = w"
proof
  assume "u64_to_be v = u64_to_be w"
  then have "nat_of_be (u64_to_be v) = nat_of_be (u64_to_be w)" by simp
  then show "v = w" by (simp add: word_unat_eq_iff)
qed simp

lemma u32_to_be_inject [bytes_model]: "u32_to_be v = u32_to_be w \<longleftrightarrow> v = w"
proof
  assume "u32_to_be v = u32_to_be w"
  then have "nat_of_be (u32_to_be v) = nat_of_be (u32_to_be w)" by simp
  then show "v = w" by (simp add: word_unat_eq_iff)
qed simp

section \<open>Strings\<close>

text \<open>A Rust string is its UTF-8 bytes; \<open>string\<close> is a list of 8-bit characters.\<close>

definition starts_with :: "string \<Rightarrow> string \<Rightarrow> bool" where
  "starts_with s p \<longleftrightarrow> take (length p) s = p"

definition ends_with :: "string \<Rightarrow> string \<Rightarrow> bool" where
  "ends_with s p \<longleftrightarrow> length p \<le> length s \<and> drop (length s - length p) s = p"

definition str_bytes :: "string \<Rightarrow> byte list" where
  "str_bytes s = map (\<lambda>c. of_nat (of_char c)) s"

lemma length_str_bytes [simp]: "length (str_bytes s) = length s"
  by (simp add: str_bytes_def)

lemma byte_of_char_inject: "(of_nat (of_char c) :: byte) = of_nat (of_char d) \<longleftrightarrow> c = d"
proof
  assume "(of_nat (of_char c) :: byte) = of_nat (of_char d)"
  then have "unat (of_nat (of_char c) :: byte) = unat (of_nat (of_char d) :: byte)" by simp
  then have "(of_char c :: nat) = of_char d"
    by (simp add: unat_byte_of_nat)
  then show "c = d" by (simp add: of_char_eq_iff)
qed simp

lemma str_bytes_inject [bytes_model]: "str_bytes s = str_bytes t \<longleftrightarrow> s = t"
  by (auto simp: str_bytes_def inj_map_eq_map inj_def byte_of_char_inject)

lemma ends_with_append [simp]: "ends_with (s @ p) p"
  by (simp add: ends_with_def)

lemma ends_with_iff: "ends_with s p \<longleftrightarrow> (\<exists>q. s = q @ p)"
  by (metis append_take_drop_id ends_with_append ends_with_def)

text \<open>Decimal and hexadecimal numerals, as \<open>format!\<close> prints them.\<close>

definition digit_char :: "nat \<Rightarrow> char" where
  "digit_char d = (if d < 10 then char_of (48 + d) else char_of (87 + d))"

fun dec_str :: "nat \<Rightarrow> string" where
  "dec_str n = (if n < 10 then [digit_char n] else dec_str (n div 10) @ [digit_char (n mod 10)])"

declare dec_str.simps [simp del]

text \<open>\<open>format!("{:016x}", id)\<close>: sixteen lower-case hexadecimal digits.\<close>

fun hex_pad :: "nat \<Rightarrow> nat \<Rightarrow> string" where
  "hex_pad 0 x = []"
| "hex_pad (Suc n) x = hex_pad n (x div 16) @ [digit_char (x mod 16)]"

definition hex16 :: "u64 \<Rightarrow> string" where
  "hex16 w = hex_pad 16 (unat w)"

definition hex_digit :: "char \<Rightarrow> nat option" where
  "hex_digit c = (let k = (of_char c :: nat) in
     if 48 \<le> k \<and> k \<le> 57 then Some (k - 48)
     else if 97 \<le> k \<and> k \<le> 102 then Some (k - 87)
     else if 65 \<le> k \<and> k \<le> 70 then Some (k - 55)
     else None)"

fun hex_value :: "nat \<Rightarrow> string \<Rightarrow> nat option" where
  "hex_value a [] = Some a"
| "hex_value a (c # cs) =
     (case hex_digit c of None \<Rightarrow> None | Some d \<Rightarrow> hex_value (a * 16 + d) cs)"

text \<open>
  \<open>u64::from_str_radix(s, 16)\<close>: one leading plus sign is allowed, the rest must be a
  non-empty run of hexadecimal digits whose value fits 64 bits.
\<close>

definition parse_hex_u64 :: "string \<Rightarrow> u64 option" where
  "parse_hex_u64 s =
     (let t = (case s of [] \<Rightarrow> [] | c # cs \<Rightarrow> if c = CHR ''+'' then cs else s) in
      if t = [] then None
      else case hex_value 0 t of
             None \<Rightarrow> None
           | Some v \<Rightarrow> if v < 2 ^ 64 then Some (of_nat v) else None)"

lemma length_hex_pad [simp]: "length (hex_pad n x) = n"
  by (induction n arbitrary: x) auto

lemma hex_digit_digit_char: "d < 16 \<Longrightarrow> hex_digit (digit_char d) = Some d"
  by (auto simp: hex_digit_def digit_char_def Let_def of_char_of)

lemma hex_value_append:
  "hex_value a (s @ t) = (case hex_value a s of None \<Rightarrow> None | Some b \<Rightarrow> hex_value b t)"
  by (induction s arbitrary: a) (auto split: option.splits)

lemma hex_value_hex_pad: "x < 16 ^ n \<Longrightarrow> hex_value 0 (hex_pad n x) = Some x"
proof (induction n arbitrary: x)
  case 0
  then show ?case by simp
next
  case (Suc n)
  then have "x div 16 < 16 ^ n" by (simp add: less_mult_imp_div_less mult.commute)
  then have "hex_value 0 (hex_pad n (x div 16)) = Some (x div 16)" by (rule Suc.IH)
  then show ?case by (simp add: hex_value_append hex_digit_digit_char)
qed

lemma digit_char_neq: "d < 16 \<Longrightarrow> digit_char d \<noteq> CHR ''+'' \<and> digit_char d \<noteq> CHR ''.''"
  by (auto simp: digit_char_def dest!: arg_cong [where f = "of_char :: char \<Rightarrow> nat"])

lemma hex_pad_chars: "c \<in> set (hex_pad n x) \<Longrightarrow> c \<noteq> CHR ''+'' \<and> c \<noteq> CHR ''.''"
  by (induction n arbitrary: x) (auto simp: digit_char_neq)

lemma parse_hex16 [simp]: "parse_hex_u64 (hex16 w) = Some w"
proof -
  have "length (hex16 w) = 16" by (simp add: hex16_def)
  then obtain c cs where h: "hex16 w = c # cs" by (cases "hex16 w") auto
  then have "c \<noteq> CHR ''+''" using hex_pad_chars [of c 16 "unat w"] by (simp add: hex16_def)
  moreover have "hex_value 0 (hex16 w) = Some (unat w)"
    by (simp add: hex16_def hex_value_hex_pad unat_u64_less)
  moreover have "unat w < 2 ^ 64" using unat_u64_less [of w] by simp
  ultimately show ?thesis using h by (simp add: parse_hex_u64_def)
qed

lemma hex16_inject: "hex16 v = hex16 w \<longleftrightarrow> v = w"
  by (metis option.inject parse_hex16)

section \<open>Lists and association lists\<close>

text \<open>
  A hash map whose order never matters is a partial map; a container whose enumeration
  order matters is an association list, updated in place or extended at the end.
\<close>

fun al_upd :: "'k \<Rightarrow> 'v \<Rightarrow> ('k \<times> 'v) list \<Rightarrow> ('k \<times> 'v) list" where
  "al_upd k v [] = [(k, v)]"
| "al_upd k v ((k', v') # r) = (if k = k' then (k, v) # r else (k', v') # al_upd k v r)"

definition al_del :: "'k \<Rightarrow> ('k \<times> 'v) list \<Rightarrow> ('k \<times> 'v) list" where
  "al_del k r = filter (\<lambda>(k', v). k' \<noteq> k) r"

lemma map_of_al_upd [simp]: "map_of (al_upd k v r) = (map_of r)(k \<mapsto> v)"
  by (induction k v r rule: al_upd.induct) (auto simp: fun_eq_iff)

lemma map_of_al_del [simp]: "map_of (al_del k r) = (map_of r)(k := None)"
  by (induction r) (auto simp: al_del_def fun_eq_iff)

lemma keys_al_upd: "fst ` set (al_upd k v r) = insert k (fst ` set r)"
  by (induction k v r rule: al_upd.induct) auto

lemma distinct_al_upd [simp]: "distinct (map fst r) \<Longrightarrow> distinct (map fst (al_upd k v r))"
proof (induction k v r rule: al_upd.induct)
  case (2 k v k' v' r)
  then show ?case using keys_al_upd [of k v r] by (auto simp: image_iff)
qed simp

lemma distinct_al_del [simp]: "distinct (map fst r) \<Longrightarrow> distinct (map fst (al_del k r))"
  by (induction r) (auto simp: al_del_def)

lemma keys_al_del: "fst ` set (al_del k r) = fst ` set r - {k}"
  by (induction r) (auto simp: al_del_def)

end
