(* ===== verification/Floats.thy ===== *)
theory Floats
  imports Complex_Main Prelude
begin

text \<open>
  The IEEE-754 values the sources compare and compute with (\<open>f32\<close> percentages in the
  governor and the eviction driver, \<open>f64\<close> amounts in the signal engine).  A float is a
  rational, an infinity or NaN; the sign of zero is not kept, since no comparison or sum
  of the sources depends on it.  Arithmetic rounds to nearest, ties to even, in the
  precision of the format, with its subnormal range and overflow threshold.
\<close>

datatype flt = NaN | NegInf | Fin rat | PosInf

section \<open>Comparison\<close>

fun flt_lt :: "flt \<Rightarrow> flt \<Rightarrow> bool" where
  "flt_lt (Fin a) (Fin b) = (a < b)"
| "flt_lt NegInf (Fin b) = True"
| "flt_lt NegInf PosInf = True"
| "flt_lt (Fin a) PosInf = True"
| "flt_lt _ _ = False"

fun flt_eq :: "flt \<Rightarrow> flt \<Rightarrow> bool" where
  "flt_eq (Fin a) (Fin b) = (a = b)"
| "flt_eq NegInf NegInf = True"
| "flt_eq PosInf PosInf = True"
| "flt_eq _ _ = False"

definition flt_le :: "flt \<Rightarrow> flt \<Rightarrow> bool" where
  "flt_le a b \<longleftrightarrow> flt_lt a b \<or> flt_eq a b"

text \<open>\<open>a >= b\<close> in Rust: false as soon as one side is NaN.\<close>

definition flt_ge :: "flt \<Rightarrow> flt \<Rightarrow> bool" where
  "flt_ge a b = flt_le b a"

text \<open>\<open>(lo..=hi).contains(&x)\<close>.\<close>

definition in_range :: "flt \<Rightarrow> flt \<Rightarrow> flt \<Rightarrow> bool" where
  "in_range lo hi x \<longleftrightarrow> flt_le lo x \<and> flt_le x hi"

lemma flt_lt_NaN [simp]: "\<not> flt_lt NaN x" "\<not> flt_lt x NaN"
  by (cases x; simp)+

lemma flt_le_Fin [simp]: "flt_le (Fin a) (Fin b) \<longleftrightarrow> a \<le> b"
  by (auto simp: flt_le_def)

lemma flt_le_NaN [simp]: "\<not> flt_le NaN x" "\<not> flt_le x NaN"
  by (cases x; simp add: flt_le_def)+

lemma flt_lt_irrefl [simp]: "\<not> flt_lt x x"
  by (cases x) auto

lemma flt_lt_trans: "flt_lt x y \<Longrightarrow> flt_lt y z \<Longrightarrow> flt_lt x z"
  by (cases x; cases y; cases z) auto

lemma flt_le_lt_trans: "flt_le x y \<Longrightarrow> flt_lt y z \<Longrightarrow> flt_lt x z"
  by (cases x; cases y; cases z) (auto simp: flt_le_def)

lemma flt_lt_le_trans: "flt_lt x y \<Longrightarrow> flt_le y z \<Longrightarrow> flt_lt x z"
  by (cases x; cases y; cases z) (auto simp: flt_le_def)

lemma flt_not_lt: "x \<noteq> NaN \<Longrightarrow> y \<noteq> NaN \<Longrightarrow> \<not> flt_lt x y \<longleftrightarrow> flt_le y x"
  by (cases x; cases y) (auto simp: flt_le_def)

section \<open>Rounding\<close>

definition round_half_even :: "rat \<Rightarrow> int" where
  "round_half_even r =
     (let f = \<lfloor>r\<rfloor>; d = r - of_int f in
      if d < 1/2 then f else if 1/2 < d then f + 1 else if even f then f else f + 1)"

fun bit_length :: "nat \<Rightarrow> nat" where
  "bit_length n = (if n = 0 then 0 else Suc (bit_length (n div 2)))"

declare bit_length.simps [simp del]

text \<open>The exponent of the binade of a positive rational: \<open>2 ^ e \<le> x < 2 ^ (e + 1)\<close>.\<close>

definition binade :: "rat \<Rightarrow> int" where
  "binade x =
     (let (n, d) = quotient_of x;
          k = int (bit_length (nat n)) - int (bit_length (nat d))
      in if 2 powi k \<le> x then k else k - 1)"

definition round_pos :: "nat \<Rightarrow> int \<Rightarrow> rat \<Rightarrow> rat" where
  "round_pos p emin x =
     (let q = max (binade x - (int p - 1)) emin in
      of_int (round_half_even (x / 2 powi q)) * 2 powi q)"

definition flt_round :: "nat \<Rightarrow> int \<Rightarrow> int \<Rightarrow> rat \<Rightarrow> flt" where
  "flt_round p emin emax x =
     (if x = 0 then Fin 0
      else let y = round_pos p emin \<bar>x\<bar> in
           if 2 powi emax \<le> y then (if x < 0 then NegInf else PosInf)
           else Fin (if x < 0 then - y else y))"

definition round64 :: "rat \<Rightarrow> flt" where
  "round64 = flt_round 53 (-1074) 1024"

definition round32 :: "rat \<Rightarrow> flt" where
  "round32 = flt_round 24 (-149) 128"

section \<open>The operations the sources use\<close>

text \<open>\<open>n as f64\<close> for an unsigned \<open>n\<close>, \<open>x as f32\<close> for a double, division by and
  multiplication with a finite double.\<close>

definition u64_as_f64 :: "u64 \<Rightarrow> flt" where
  "u64_as_f64 n = round64 (of_nat (unat n))"

fun f64_as_f32 :: "flt \<Rightarrow> flt" where
  "f64_as_f32 (Fin x) = round32 x"
| "f64_as_f32 v = v"

fun f64_div :: "flt \<Rightarrow> flt \<Rightarrow> flt" where
  "f64_div (Fin x) (Fin y) =
     (if y = 0 then (if x = 0 then NaN else if x < 0 then NegInf else PosInf)
      else round64 (x / y))"
| "f64_div (Fin x) NegInf = Fin 0"
| "f64_div (Fin x) PosInf = Fin 0"
| "f64_div PosInf (Fin y) = (if y < 0 then NegInf else PosInf)"
| "f64_div NegInf (Fin y) = (if y < 0 then PosInf else NegInf)"
| "f64_div _ _ = NaN"

fun f64_mul_fin :: "flt \<Rightarrow> rat \<Rightarrow> flt" where
  "f64_mul_fin (Fin x) c = round64 (x * c)"
| "f64_mul_fin NaN c = NaN"
| "f64_mul_fin PosInf c = (if c = 0 then NaN else if c < 0 then NegInf else PosInf)"
| "f64_mul_fin NegInf c = (if c = 0 then NaN else if c < 0 then PosInf else NegInf)"

end
