(* ===== verification/Governor.thy ===== *)
theory Governor
  imports Floats
begin

text \<open>
  \<^verbatim>\<open>daemon/crates/athar-governor/src/lib.rs\<close>: the pressure ladder and the dead-man's
  switch.  \<open>governor\<close> is the struct \<open>Governor\<close> with its mutex-protected \<open>State\<close> inlined as
  \<open>gov_state\<close>; the two watch channels are the values they last published.  Every operation
  holds the mutex from entry to return, so each is one atomic function on \<open>governor\<close>.
  \<open>Instant\<close> and \<open>Duration\<close> are nanoseconds; \<open>saturating_duration_since\<close> is the
  subtraction of natural numbers.  The watch receivers and the log lines are not modelled.
\<close>

type_synonym instant = nat
type_synonym duration = nat

section \<open>Pressure levels and priorities\<close>

datatype pressure_level = L0Normal | L1Reduce | L2Defer | L3Essential | L4SafeMode

datatype priority = P0 | P1 | P2 | P3 | P4

text \<open>The derived \<open>Ord\<close> of the enum: the order of the constructors.\<close>

fun level_rank :: "pressure_level \<Rightarrow> nat" where
  "level_rank L0Normal = 0"
| "level_rank L1Reduce = 1"
| "level_rank L2Defer = 2"
| "level_rank L3Essential = 3"
| "level_rank L4SafeMode = 4"

lemma level_rank_inject: "level_rank a = level_rank b \<longleftrightarrow> a = b"
  by (cases a; cases b) auto

instantiation pressure_level :: linorder
begin
definition less_eq_pressure_level :: "pressure_level \<Rightarrow> pressure_level \<Rightarrow> bool" where
  "less_eq_pressure_level a b \<longleftrightarrow> level_rank a \<le> level_rank b"
definition less_pressure_level :: "pressure_level \<Rightarrow> pressure_level \<Rightarrow> bool" where
  "less_pressure_level a b \<longleftrightarrow> level_rank a < level_rank b"
instance
  by standard
    (auto simp: less_eq_pressure_level_def less_pressure_level_def level_rank_inject [symmetric])
end

lemmas level_order = less_eq_pressure_level_def less_pressure_level_def

lemma level_L0_least [simp]: "L0Normal \<le> l"
  by (simp add: level_order)

lemma level_L4_greatest [simp]: "l \<le> L4SafeMode"
  by (cases l) (auto simp: level_order)

lemma level_L4_le [simp]: "L4SafeMode \<le> l \<longleftrightarrow> l = L4SafeMode"
  by (cases l) (auto simp: level_order)

fun allows :: "pressure_level \<Rightarrow> priority \<Rightarrow> bool" where
  "allows L0Normal p = True"
| "allows L1Reduce p = (case p of P4 \<Rightarrow> False | _ \<Rightarrow> True)"
| "allows L2Defer p = (case p of P3 \<Rightarrow> False | P4 \<Rightarrow> False | _ \<Rightarrow> True)"
| "allows L3Essential p = (case p of P0 \<Rightarrow> True | P1 \<Rightarrow> True | _ \<Rightarrow> False)"
| "allows L4SafeMode p = (case p of P0 \<Rightarrow> True | _ \<Rightarrow> False)"

fun priority_rank :: "priority \<Rightarrow> nat" where
  "priority_rank P0 = 0"
| "priority_rank P1 = 1"
| "priority_rank P2 = 2"
| "priority_rank P3 = 3"
| "priority_rank P4 = 4"

section \<open>Inputs, configuration, state\<close>

record host_metrics =
  cpu_headroom_pct :: flt
  memory_free_pct :: flt
  disk_free_pct :: flt
  hm_taken_at :: instant

record budget_observation =
  p50_latency_us :: u64
  p99_latency_us :: u64
  throughput_delta_pct :: flt
  bo_taken_at :: instant

datatype deadman_reason = BudgetBreach | SelfCheckFailure | NoShimConfirmation

datatype deadman_signal = DeadmanOk | Tripped instant deadman_reason

record gov_config =
  cpu_headroom_l1_pct :: flt
  cpu_headroom_l2_pct :: flt
  memory_free_l1_pct :: flt
  memory_free_l2_pct :: flt
  disk_free_l1_pct :: flt
  disk_free_l2_pct :: flt
  p99_latency_budget_us :: u64
  p99_latency_l2_us :: u64
  p99_latency_l3_us :: u64
  good_news_window :: duration
  sustained_breach_window :: duration
  shim_heartbeat_timeout :: duration

definition secs :: "nat \<Rightarrow> duration" where
  "secs n = n * 1000000000"

definition gov_config_default :: gov_config where
  "gov_config_default = \<lparr>
     cpu_headroom_l1_pct = Fin 20, cpu_headroom_l2_pct = Fin 10,
     memory_free_l1_pct = Fin 15, memory_free_l2_pct = Fin 10,
     disk_free_l1_pct = Fin 15, disk_free_l2_pct = Fin 10,
     p99_latency_budget_us = 1000, p99_latency_l2_us = 2000, p99_latency_l3_us = 5000,
     good_news_window = secs 30, sustained_breach_window = secs 10,
     shim_heartbeat_timeout = secs 15\<rparr>"

record gov_state =
  gs_host :: "host_metrics option"
  gs_budget :: "budget_observation option"
  last_heartbeat :: "instant option"
  breach_since :: "instant option"
  at_current_since :: instant
  gs_current :: pressure_level
  gs_deadman :: deadman_signal

record governor =
  gv_config :: gov_config
  pressure_tx :: pressure_level
  deadman_tx :: deadman_signal
  gv_state :: gov_state

definition governor_new :: "gov_config \<Rightarrow> instant \<Rightarrow> governor" where
  "governor_new c now = \<lparr>gv_config = c, pressure_tx = L0Normal, deadman_tx = DeadmanOk,
     gv_state = \<lparr>gs_host = None, gs_budget = None, last_heartbeat = None, breach_since = None,
       at_current_since = now, gs_current = L0Normal, gs_deadman = DeadmanOk\<rparr>\<rparr>"

definition current_level :: "governor \<Rightarrow> pressure_level" where
  "current_level g = pressure_tx g"

definition current_deadman :: "governor \<Rightarrow> deadman_signal" where
  "current_deadman g = deadman_tx g"

section \<open>Recomputation\<close>

definition bucket3 :: "flt \<Rightarrow> flt \<Rightarrow> flt \<Rightarrow> pressure_level" where
  "bucket3 observed l1 l2 =
     (if flt_lt observed l2 then L2Defer
      else if flt_lt observed l1 then L1Reduce
      else L0Normal)"

definition latency_bucket :: "u64 \<Rightarrow> u64 \<Rightarrow> u64 \<Rightarrow> u64 \<Rightarrow> pressure_level" where
  "latency_bucket observed_us budget l2 l3 =
     (if l3 \<le> observed_us then L3Essential
      else if l2 \<le> observed_us then L2Defer
      else if budget < observed_us then L1Reduce
      else L0Normal)"

definition intrinsic_level :: "gov_config \<Rightarrow> gov_state \<Rightarrow> pressure_level" where
  "intrinsic_level c s =
     (let worst = L0Normal;
          worst = (case gs_host s of
              None \<Rightarrow> worst
            | Some h \<Rightarrow>
                max (max (max worst
                  (bucket3 (cpu_headroom_pct h) (cpu_headroom_l1_pct c) (cpu_headroom_l2_pct c)))
                  (bucket3 (memory_free_pct h) (memory_free_l1_pct c) (memory_free_l2_pct c)))
                  (bucket3 (disk_free_pct h) (disk_free_l1_pct c) (disk_free_l2_pct c)))
      in case gs_budget s of
           None \<Rightarrow> worst
         | Some b \<Rightarrow> max worst
             (latency_bucket (p99_latency_us b) (p99_latency_budget_us c)
                (p99_latency_l2_us c) (p99_latency_l3_us c)))"

text \<open>The first block of \<open>evaluate_deadman\<close>: bookkeeping of \<open>breach_since\<close>, with the early
  return as an option.\<close>

definition budget_breach :: "gov_config \<Rightarrow> gov_state \<Rightarrow> instant \<Rightarrow> gov_state \<times> deadman_signal option"
where
  "budget_breach c s now =
     (case gs_budget s of
        None \<Rightarrow> (s, None)
      | Some b \<Rightarrow>
          if p99_latency_budget_us c < p99_latency_us b then
            let start = (case breach_since s of None \<Rightarrow> bo_taken_at b | Some t \<Rightarrow> t);
                s' = s\<lparr>breach_since := Some start\<rparr>
            in if sustained_breach_window c \<le> now - start
               then (s', Some (Tripped start BudgetBreach))
               else (s', None)
          else (s\<lparr>breach_since := None\<rparr>, None))"

definition evaluate_deadman ::
  "gov_config \<Rightarrow> gov_state \<Rightarrow> instant \<Rightarrow> pressure_level \<Rightarrow> gov_state \<times> deadman_signal"
where
  "evaluate_deadman c s now intrinsic =
     (case budget_breach c s now of
        (s', Some d) \<Rightarrow> (s', d)
      | (s', None) \<Rightarrow>
          (case (case last_heartbeat s' of
                   None \<Rightarrow> None
                 | Some hb \<Rightarrow>
                     if shim_heartbeat_timeout c \<le> now - hb
                     then Some (Tripped hb NoShimConfirmation) else None) of
             Some d \<Rightarrow> (s', d)
           | None \<Rightarrow>
               (case gs_deadman s' of
                  Tripped since r \<Rightarrow>
                    if intrinsic = L0Normal \<and> good_news_window c \<le> now - since
                    then (s', DeadmanOk) else (s', gs_deadman s')
                | DeadmanOk \<Rightarrow> (s', DeadmanOk))))"

definition apply_hysteresis ::
  "gov_config \<Rightarrow> gov_state \<Rightarrow> pressure_level \<Rightarrow> instant \<Rightarrow> pressure_level"
where
  "apply_hysteresis c s target now =
     (if gs_current s \<le> target then target
      else if good_news_window c \<le> now - at_current_since s then target
      else gs_current s)"

definition recompute :: "governor \<Rightarrow> instant \<Rightarrow> governor" where
  "recompute g now =
     (let c = gv_config g; s = gv_state g;
          intrinsic = intrinsic_level c s;
          (s1, deadman) = evaluate_deadman c s now intrinsic;
          (s2, dtx) = (if deadman \<noteq> gs_deadman s1
                       then (s1\<lparr>gs_deadman := deadman\<rparr>, deadman)
                       else (s1, deadman_tx g));
          target = (case deadman of Tripped t r \<Rightarrow> L4SafeMode | DeadmanOk \<Rightarrow> intrinsic);
          new_level = apply_hysteresis c s2 target now;
          (s3, ptx) = (if new_level \<noteq> gs_current s2
                       then (s2\<lparr>gs_current := new_level, at_current_since := now\<rparr>, new_level)
                       else (s2, pressure_tx g))
      in g\<lparr>pressure_tx := ptx, deadman_tx := dtx, gv_state := s3\<rparr>)"

section \<open>Operations\<close>

definition report_host :: "governor \<Rightarrow> host_metrics \<Rightarrow> governor" where
  "report_host g m =
     recompute (g\<lparr>gv_state := (gv_state g)\<lparr>gs_host := Some m\<rparr>\<rparr>) (hm_taken_at m)"

definition report_budget :: "governor \<Rightarrow> budget_observation \<Rightarrow> governor" where
  "report_budget g b =
     recompute (g\<lparr>gv_state := (gv_state g)\<lparr>gs_budget := Some b\<rparr>\<rparr>) (bo_taken_at b)"

definition shim_heartbeat :: "governor \<Rightarrow> instant \<Rightarrow> governor" where
  "shim_heartbeat g now =
     recompute (g\<lparr>gv_state := (gv_state g)\<lparr>last_heartbeat := Some now\<rparr>\<rparr>) now"

definition tick :: "governor \<Rightarrow> instant \<Rightarrow> governor" where
  "tick g now = recompute g now"

datatype gov_op =
    ReportHost host_metrics
  | ReportBudget budget_observation
  | ShimHeartbeat instant
  | Tick instant

fun gov_step :: "governor \<Rightarrow> gov_op \<Rightarrow> governor" where
  "gov_step g (ReportHost m) = report_host g m"
| "gov_step g (ReportBudget b) = report_budget g b"
| "gov_step g (ShimHeartbeat t) = shim_heartbeat g t"
| "gov_step g (Tick t) = tick g t"

fun op_time :: "gov_op \<Rightarrow> instant" where
  "op_time (ReportHost m) = hm_taken_at m"
| "op_time (ReportBudget b) = bo_taken_at b"
| "op_time (ShimHeartbeat t) = t"
| "op_time (Tick t) = t"

inductive gov_reachable :: "gov_config \<Rightarrow> governor \<Rightarrow> bool" for c where
  gov_init: "gov_reachable c (governor_new c t0)"
| gov_op: "gov_reachable c g \<Longrightarrow> gov_reachable c (gov_step g x)"

section \<open>How one recomputation moves the state\<close>

definition gov_target :: "gov_config \<Rightarrow> gov_state \<Rightarrow> instant \<Rightarrow> pressure_level" where
  "gov_target c s now =
     (case snd (evaluate_deadman c s now (intrinsic_level c s)) of
        Tripped t r \<Rightarrow> L4SafeMode | DeadmanOk \<Rightarrow> intrinsic_level c s)"

definition gov_synced :: "governor \<Rightarrow> bool" where
  "gov_synced g \<longleftrightarrow> pressure_tx g = gs_current (gv_state g) \<and> deadman_tx g = gs_deadman (gv_state g)"

lemmas deadman_unfold = evaluate_deadman_def budget_breach_def

lemma evaluate_deadman_frame [simp]:
  "gs_host (fst (evaluate_deadman c s now i)) = gs_host s"
  "gs_budget (fst (evaluate_deadman c s now i)) = gs_budget s"
  "last_heartbeat (fst (evaluate_deadman c s now i)) = last_heartbeat s"
  "gs_current (fst (evaluate_deadman c s now i)) = gs_current s"
  "at_current_since (fst (evaluate_deadman c s now i)) = at_current_since s"
  "gs_deadman (fst (evaluate_deadman c s now i)) = gs_deadman s"
  by (auto simp: deadman_unfold Let_def split: option.splits deadman_signal.splits)

lemma evaluate_deadman_frameD:
  "evaluate_deadman c s now i = (s', d) \<Longrightarrow>
     gs_host s' = gs_host s \<and> gs_budget s' = gs_budget s \<and>
     last_heartbeat s' = last_heartbeat s \<and> gs_current s' = gs_current s \<and>
     at_current_since s' = at_current_since s \<and> gs_deadman s' = gs_deadman s"
  using evaluate_deadman_frame [of c s now i] by simp

lemma evaluate_deadman_breach:
  "breach_since (fst (evaluate_deadman c s now i)) =
     (case gs_budget s of
        None \<Rightarrow> breach_since s
      | Some b \<Rightarrow>
          if p99_latency_budget_us c < p99_latency_us b
          then Some (case breach_since s of None \<Rightarrow> bo_taken_at b | Some t \<Rightarrow> t)
          else None)"
  by (auto simp: deadman_unfold Let_def split: option.splits deadman_signal.splits)

lemma recompute_fields [simp]:
  "gv_config (recompute g now) = gv_config g"
  "gs_host (gv_state (recompute g now)) = gs_host (gv_state g)"
  "gs_budget (gv_state (recompute g now)) = gs_budget (gv_state g)"
  "last_heartbeat (gv_state (recompute g now)) = last_heartbeat (gv_state g)"
  by (auto simp: recompute_def Let_def split: prod.splits dest!: evaluate_deadman_frameD)

lemma recompute_breach:
  "breach_since (gv_state (recompute g now)) =
     breach_since (fst (evaluate_deadman (gv_config g) (gv_state g) now
       (intrinsic_level (gv_config g) (gv_state g))))"
  by (auto simp: recompute_def Let_def split: prod.splits)

lemma recompute_deadman:
  "gs_deadman (gv_state (recompute g now)) =
     snd (evaluate_deadman (gv_config g) (gv_state g) now
       (intrinsic_level (gv_config g) (gv_state g)))"
  by (auto simp: recompute_def Let_def split: prod.splits)

lemma recompute_current:
  "gs_current (gv_state (recompute g now)) =
     apply_hysteresis (gv_config g) (gv_state g)
       (gov_target (gv_config g) (gv_state g) now) now"
  by (auto simp: recompute_def Let_def gov_target_def apply_hysteresis_def
      split: prod.splits if_splits dest!: evaluate_deadman_frameD)


lemma recompute_synced:
  assumes "gov_synced g"
  shows "gov_synced (recompute g now)"
  using assms
  by (auto simp: gov_synced_def recompute_def Let_def split: prod.splits if_splits dest!: evaluate_deadman_frameD)

lemma intrinsic_level_cong:
  "gs_host s = gs_host t \<Longrightarrow> gs_budget s = gs_budget t \<Longrightarrow> intrinsic_level c s = intrinsic_level c t"
  by (simp add: intrinsic_level_def)

lemma hysteresis_ge_target: "target \<le> apply_hysteresis c s target now"
  by (auto simp: apply_hysteresis_def)

lemma target_ge_intrinsic: "intrinsic_level c s \<le> gov_target c s now"
  by (auto simp: gov_target_def split: deadman_signal.splits)

lemma recompute_tripped_L4:
  "gs_deadman (gv_state (recompute g now)) \<noteq> DeadmanOk \<Longrightarrow>
   gs_current (gv_state (recompute g now)) = L4SafeMode"
  using hysteresis_ge_target [of L4SafeMode "gv_config g" "gv_state g" now]
  by (auto simp: recompute_deadman recompute_current gov_target_def split: deadman_signal.splits)

text \<open>The state an operation hands to \<open>recompute\<close>.\<close>

fun op_input :: "governor \<Rightarrow> gov_op \<Rightarrow> governor" where
  "op_input g (ReportHost m) = g\<lparr>gv_state := (gv_state g)\<lparr>gs_host := Some m\<rparr>\<rparr>"
| "op_input g (ReportBudget b) = g\<lparr>gv_state := (gv_state g)\<lparr>gs_budget := Some b\<rparr>\<rparr>"
| "op_input g (ShimHeartbeat t) = g\<lparr>gv_state := (gv_state g)\<lparr>last_heartbeat := Some t\<rparr>\<rparr>"
| "op_input g (Tick t) = g"

lemma gov_step_recompute: "gov_step g x = recompute (op_input g x) (op_time x)"
  by (cases x) (simp_all add: report_host_def report_budget_def shim_heartbeat_def tick_def)

lemma op_input_frame [simp]:
  "gv_config (op_input g x) = gv_config g"
  "gs_current (gv_state (op_input g x)) = gs_current (gv_state g)"
  "at_current_since (gv_state (op_input g x)) = at_current_since (gv_state g)"
  "gs_deadman (gv_state (op_input g x)) = gs_deadman (gv_state g)"
  "breach_since (gv_state (op_input g x)) = breach_since (gv_state g)"
  "gov_synced (op_input g x) = gov_synced g"
  by (cases x; simp add: gov_synced_def)+

lemma gov_step_config [simp]: "gv_config (gov_step g x) = gv_config g"
  by (simp add: gov_step_recompute)

lemma gov_reachable_config: "gov_reachable c g \<Longrightarrow> gv_config g = c"
  by (induction rule: gov_reachable.induct) (simp_all add: governor_new_def)

lemma gov_reachable_synced: "gov_reachable c g \<Longrightarrow> gov_synced g"
  by (induction rule: gov_reachable.induct)
    (simp_all add: governor_new_def gov_synced_def [of "governor_new _ _"] gov_step_recompute
      recompute_synced, simp add: gov_synced_def)

lemma gov_reachable_tripped_L4:
  "gov_reachable c g \<Longrightarrow> gs_deadman (gv_state g) \<noteq> DeadmanOk \<Longrightarrow>
     gs_current (gv_state g) = L4SafeMode"
  by (induction rule: gov_reachable.induct)
    (auto simp: governor_new_def gov_step_recompute recompute_tripped_L4)

lemma gov_reachable_run: "gov_reachable c g \<Longrightarrow> gov_reachable c (foldl gov_step g xs)"
  by (induction xs arbitrary: g) (auto intro: gov_reachable.intros)

section \<open>Properties\<close>

text \<open>In every reachable state the published pressure level and dead-man signal are
  those of the protected state, and a tripped dead-man switch forces safe mode (L4).\<close>

theorem governor_tripped_forces_safe_mode:
  assumes "gov_reachable c g"
  shows "current_level g = gs_current (gv_state g) \<and>
    current_deadman g = gs_deadman (gv_state g) \<and>
    (current_deadman g = DeadmanOk \<or> current_level g = L4SafeMode)"
  using gov_reachable_synced [OF assms] gov_reachable_tripped_L4 [OF assms]
  by (auto simp: gov_synced_def current_level_def current_deadman_def)

definition gov_demo :: "nat \<Rightarrow> u64 \<Rightarrow> gov_op" where
  "gov_demo t p99 = ReportBudget \<lparr>p50_latency_us = 100, p99_latency_us = p99,
     throughput_delta_pct = Fin 0, bo_taken_at = secs t\<rparr>"

definition gov_host :: "nat \<Rightarrow> rat \<Rightarrow> gov_op" where
  "gov_host t cpu = ReportHost \<lparr>cpu_headroom_pct = Fin cpu, memory_free_pct = Fin 100,
     disk_free_pct = Fin 100, hm_taken_at = secs t\<rparr>"

lemmas gov_eval = gov_demo_def gov_host_def governor_new_def gov_config_default_def
  report_host_def report_budget_def shim_heartbeat_def tick_def recompute_def Let_def
  deadman_unfold intrinsic_level_def latency_bucket_def bucket3_def apply_hysteresis_def
  level_order secs_def current_level_def current_deadman_def max_def

theorem governor_tripped_forces_safe_mode_witness:
  "current_level (foldl gov_step (governor_new gov_config_default 0) [gov_demo 0 6000, Tick (secs 10)])
     = L4SafeMode"
proof -
  let ?g = "foldl gov_step (governor_new gov_config_default 0) [gov_demo 0 6000, Tick (secs 10)]"
  have r: "gov_reachable gov_config_default ?g"
    by (intro gov_reachable_run gov_init)
  have "current_deadman ?g \<noteq> DeadmanOk"
    by (simp add: gov_eval)
  then show ?thesis
    using governor_tripped_forces_safe_mode [OF r] by blast
qed




text \<open>A run that is held up and lowered: L2 from the first report on, kept by a good report after 29 seconds and left
  at the next one after 30.\<close>

lemma level_held_for_window:
  "map (\<lambda>n. current_level (foldl gov_step (governor_new gov_config_default 0)
       (take n [gov_host 0 5, gov_host 29 50, gov_host 30 50]))) [1, 2, 3] = [L2Defer, L2Defer, L0Normal]"
  by (simp add: gov_eval)

lemma evaluate_deadman_budget:
  assumes "gs_budget s = Some b" "p99_latency_budget_us c < p99_latency_us b"
    and "breach_since s = Some t" "sustained_breach_window c \<le> now - t"
  shows "snd (evaluate_deadman c s now i) = Tripped t BudgetBreach"
  using assms by (simp add: deadman_unfold Let_def)

text \<open>An operation that does not report a budget back within its limit.\<close>

fun stays_in_breach :: "gov_config \<Rightarrow> gov_op \<Rightarrow> bool" where
  "stays_in_breach c (ReportBudget b) = (p99_latency_budget_us c < p99_latency_us b)"
| "stays_in_breach c _ = True"

definition in_breach_since :: "gov_config \<Rightarrow> governor \<Rightarrow> instant \<Rightarrow> bool" where
  "in_breach_since c g t \<longleftrightarrow> gv_config g = c \<and> breach_since (gv_state g) = Some t \<and>
     (\<exists>b. gs_budget (gv_state g) = Some b \<and> p99_latency_budget_us c < p99_latency_us b)"

lemma in_breach_step:
  "in_breach_since c g t \<Longrightarrow> stays_in_breach c x \<Longrightarrow> in_breach_since c (gov_step g x) t"
  by (cases x) (auto simp: in_breach_since_def gov_step_recompute recompute_breach
      evaluate_deadman_breach)

lemma in_breach_run:
  "in_breach_since c g t \<Longrightarrow> list_all (stays_in_breach c) xs \<Longrightarrow>
     in_breach_since c (foldl gov_step g xs) t"
  by (induction xs arbitrary: g) (auto simp: in_breach_step)

text \<open>Claim C17 (INV-14, bounded response): once a latency report breaches the budget and no later
  report is back within it, the first check at least \<open>sustained_breach_window\<close> after the
  breach began trips the dead-man switch and puts the daemon in safe mode, whatever other
  reports, heartbeats and ticks arrive in between.\<close>

theorem governor_sustained_breach_trips:
  assumes "gov_reachable c g" and "breach_since (gv_state g) = None"
    and "stays_in_breach c (ReportBudget b)" and "list_all (stays_in_breach c) xs"
    and "sustained_breach_window c \<le> now - bo_taken_at b"
  shows "current_deadman (gov_step (foldl gov_step (gov_step g (ReportBudget b)) xs) (Tick now))
      = Tripped (bo_taken_at b) BudgetBreach
    \<and> current_level (gov_step (foldl gov_step (gov_step g (ReportBudget b)) xs) (Tick now))
      = L4SafeMode"
proof -
  let ?h = "foldl gov_step (gov_step g (ReportBudget b)) xs"
  let ?k = "gov_step ?h (Tick now)"
  have "gv_config g = c" by (rule gov_reachable_config [OF assms(1)])
  then have "in_breach_since c (gov_step g (ReportBudget b)) (bo_taken_at b)"
    using assms(2,3)
    by (simp add: in_breach_since_def gov_step_recompute recompute_breach evaluate_deadman_breach)
  then have h: "in_breach_since c ?h (bo_taken_at b)"
    using assms(4) by (rule in_breach_run)
  then have dm: "gs_deadman (gv_state ?k) = Tripped (bo_taken_at b) BudgetBreach"
    using assms(5)
    by (auto simp: in_breach_since_def tick_def recompute_deadman intro!: evaluate_deadman_budget)
  have "gov_reachable c ?k"
    using assms(1) by (intro gov_op gov_reachable_run)
  then show ?thesis
    using dm gov_reachable_synced [of c ?k] gov_reachable_tripped_L4 [of c ?k]
    by (auto simp: gov_synced_def current_level_def current_deadman_def)
qed

theorem governor_sustained_breach_trips_witness:
  "current_level (gov_step (foldl gov_step (gov_step (governor_new gov_config_default 0)
     (gov_demo 1 1500)) [gov_host 5 90, gov_demo 7 1200]) (Tick (secs 11))) = L4SafeMode"
proof -
  have "gov_reachable gov_config_default (governor_new gov_config_default 0)"
    by (rule gov_init)
  from governor_sustained_breach_trips [OF this, of
      "\<lparr>p50_latency_us = 100, p99_latency_us = 1500, throughput_delta_pct = Fin 0,
        bo_taken_at = secs 1\<rparr>" "[gov_host 5 90, gov_demo 7 1200]" "secs 11"]
  show ?thesis
    by (simp add: governor_new_def gov_demo_def gov_host_def gov_config_default_def secs_def)
qed

lemma evaluate_deadman_heartbeat:
  assumes "last_heartbeat s = Some t" "shim_heartbeat_timeout c \<le> now - t"
  shows "snd (evaluate_deadman c s now i) \<noteq> DeadmanOk"
  using assms by (auto simp: deadman_unfold Let_def split: option.splits)

lemma evaluate_deadman_latched:
  assumes "gs_deadman s = Tripped t r" "snd (evaluate_deadman c s now i) = DeadmanOk"
  shows "i = L0Normal \<and> good_news_window c \<le> now - t"
  using assms by (auto simp: deadman_unfold Let_def split: option.splits if_splits)

text \<open>The dead-man switch cannot be missed and cannot be cleared by accident.  A check
  at which the last shim heartbeat is older than its timeout leaves the switch tripped, and a
  tripped switch goes back to \<open>Ok\<close> only when the live inputs call for L0 and the good-news
  window has passed since the instant recorded in the signal.\<close>

theorem governor_deadman_latch:
  assumes "gov_reachable c g"
  shows "(\<forall>t. last_heartbeat (gv_state g) = Some t \<and> shim_heartbeat_timeout c \<le> now - t \<longrightarrow>
        current_deadman (gov_step g (Tick now)) \<noteq> DeadmanOk)
    \<and> (\<forall>t r. current_deadman g = Tripped t r \<and> current_deadman (gov_step g x) = DeadmanOk \<longrightarrow>
        intrinsic_level c (gv_state (gov_step g x)) = L0Normal \<and>
        good_news_window c \<le> op_time x - t)"
proof -
  have c: "gv_config g = c" by (rule gov_reachable_config [OF assms])
  have sync: "gov_synced g" and sync': "gov_synced (gov_step g y)" for y
    using gov_reachable_synced [OF assms] gov_reachable_synced [OF gov_op [OF assms]] by auto
  have dm: "current_deadman (gov_step g y) = snd (evaluate_deadman c (gv_state (op_input g y))
      (op_time y) (intrinsic_level c (gv_state (op_input g y))))" for y
    using sync' [of y]
    by (simp add: current_deadman_def gov_synced_def gov_step_recompute recompute_deadman c)
  have i: "intrinsic_level c (gv_state (gov_step g x)) = intrinsic_level c (gv_state (op_input g x))"
    by (rule intrinsic_level_cong) (simp_all add: gov_step_recompute)
  have tr: "current_deadman g = gs_deadman (gv_state (op_input g x))"
    using sync by (simp add: current_deadman_def gov_synced_def)
  show ?thesis
    unfolding dm i tr
    using evaluate_deadman_heartbeat [of "gv_state g"]
      evaluate_deadman_latched [of "gv_state (op_input g x)"]
    by auto
qed

theorem governor_deadman_latch_witness:
  "current_deadman (gov_step (gov_step (governor_new gov_config_default 0)
     (ShimHeartbeat (secs 2))) (Tick (secs 17))) \<noteq> DeadmanOk"
proof -
  let ?g = "gov_step (governor_new gov_config_default 0) (ShimHeartbeat (secs 2))"
  have "gov_reachable gov_config_default ?g"
    by (intro gov_op gov_init)
  moreover have "last_heartbeat (gv_state ?g) = Some (secs 2)"
    by (simp add: shim_heartbeat_def)
  ultimately show ?thesis
    using governor_deadman_latch [of gov_config_default ?g "secs 17"]
    by (simp add: gov_config_default_def secs_def)
qed

lemma level_le_L2: "l \<le> L2Defer \<longleftrightarrow> l = L0Normal \<or> l = L1Reduce \<or> l = L2Defer"
  by (cases l) (auto simp: level_order)

lemma bucket3_le_L2: "bucket3 x a b \<le> L2Defer"
  by (simp add: bucket3_def level_order)

fun is_report_host :: "gov_op \<Rightarrow> bool" where
  "is_report_host (ReportHost m) = True"
| "is_report_host _ = False"

definition host_only :: "governor \<Rightarrow> bool" where
  "host_only g \<longleftrightarrow> gs_budget (gv_state g) = None \<and> last_heartbeat (gv_state g) = None \<and>
     gs_deadman (gv_state g) = DeadmanOk \<and> gs_current (gv_state g) \<le> L2Defer"

lemma host_only_step: "host_only g \<Longrightarrow> host_only (gov_step g (ReportHost m))"
  by (auto simp: host_only_def gov_step_recompute recompute_deadman recompute_current
      apply_hysteresis_def gov_target_def deadman_unfold intrinsic_level_def bucket3_le_L2 max_def
      simp del: op_input_frame)

lemma host_only_run: "host_only g \<Longrightarrow> list_all is_report_host xs \<Longrightarrow> host_only (foldl gov_step g xs)"
proof (induction xs arbitrary: g)
  case (Cons x xs)
  then show ?case by (cases x) (auto simp: host_only_step simp del: gov_step.simps)
qed simp

text \<open>The daemon binary feeds its governor through \<open>report_host\<close> alone
  (\<^verbatim>\<open>host_metrics.rs\<close>); from that input alone the pressure never rises above L2, so
  the ingest path is never throttled and the dead-man switch never trips.\<close>

theorem governor_host_reports_never_reach_safe_mode:
  assumes "list_all is_report_host xs"
  shows "current_level (foldl gov_step (governor_new c t0) xs) \<le> L2Defer \<and>
    current_deadman (foldl gov_step (governor_new c t0) xs) = DeadmanOk \<and>
    allows (current_level (foldl gov_step (governor_new c t0) xs)) P1"
proof -
  let ?g = "foldl gov_step (governor_new c t0) xs"
  have "host_only (governor_new c t0)" by (simp add: host_only_def governor_new_def)
  then have "host_only ?g" using assms by (rule host_only_run)
  moreover have "gov_synced ?g"
    using gov_reachable_run [OF gov_init] by (rule gov_reachable_synced)
  ultimately show ?thesis
    by (auto simp: host_only_def gov_synced_def current_level_def current_deadman_def level_le_L2)
qed

theorem governor_host_reports_never_reach_safe_mode_witness:
  "current_level (foldl gov_step (governor_new gov_config_default 0) [gov_host 1 0, gov_host 2 0])
     \<le> L2Defer"
  using governor_host_reports_never_reach_safe_mode
    [of "[gov_host 1 0, gov_host 2 0]" gov_config_default 0]
  by (simp add: gov_host_def)

text \<open>The good-news window is counted from the last change of the level, not from the
  moment the inputs recovered: with the default configuration a host that was starved of CPU
  one second ago is back at L0 after a single good sample, because the level L2 was entered
  thirty seconds earlier.\<close>

theorem governor_recovers_on_first_good_sample:
  "current_level (foldl gov_step (governor_new gov_config_default 0)
      [gov_host 0 5, gov_host 29 5]) = L2Defer \<and>
   current_level (foldl gov_step (governor_new gov_config_default 0)
      [gov_host 0 5, gov_host 29 5, gov_host 30 50]) = L0Normal"
  by (simp add: gov_eval)

text \<open>The ladder sheds work in priority order: a level that admits a priority also
  admits every more important one, every calmer level admits it too, customer work (P0) is
  always admitted, and ingest (P1) is refused exactly in safe mode.\<close>

theorem allows_priority_order:
  "(l \<le> l' \<and> priority_rank p \<le> priority_rank p' \<and> allows l' p' \<longrightarrow> allows l p) \<and>
   allows l P0 \<and> (allows l P1 \<longleftrightarrow> l \<noteq> L4SafeMode)"
  by (cases l; cases l'; cases p; cases p') (auto simp: level_order)

theorem allows_priority_order_witness: "allows L1Reduce P2"
  using allows_priority_order [of L1Reduce L2Defer P2 P2] by (simp add: level_order)

text \<open>The comment on \<open>bucket3\<close> says that inverted thresholds yield L0; the code yields L2.\<close>

lemma bucket3_inverted_thresholds: "bucket3 (Fin 5) (Fin 10) (Fin 20) = L2Defer"
  by (simp add: bucket3_def)

end
