(* ===== verification/Event.thy ===== *)
theory Event
  imports Floats
begin

text \<open>
  \<^verbatim>\<open>daemon/crates/athar-event/src/lib.rs\<close>: the canonical event and its structural
  validation.  Structs are records, enums datatypes (constructors shared by several enums
  carry a prefix), \<open>Option\<close> is \<open>option\<close>, a \<open>BTreeMap\<close> is a partial map.  The serde
  attributes only describe the JSON shape; (de)serialization is generated code and a
  parameter of the definitions that use it.  \<open>json\<close> is the part of \<open>serde_json::Value\<close> the
  daemon inspects.
\<close>

section \<open>Data\<close>

datatype json =
    JNull
  | JBool bool
  | JInt int
  | JNumber flt
  | JString string
  | JArray "json list"
  | JObject "(string \<times> json) list"

text \<open>\<open>Value::get\<close> with a string key, \<open>as_str\<close> and \<open>as_bool\<close>.\<close>

fun json_get :: "json \<Rightarrow> string \<Rightarrow> json option" where
  "json_get (JObject kvs) k = map_of kvs k"
| "json_get _ k = None"

fun json_as_str :: "json \<Rightarrow> string option" where
  "json_as_str (JString s) = Some s"
| "json_as_str _ = None"

fun json_as_bool :: "json \<Rightarrow> bool option" where
  "json_as_bool (JBool b) = Some b"
| "json_as_bool _ = None"

datatype clock_source = Host | Shim | Adapter

record clock =
  cl_source :: clock_source
  skew_estimate_ms :: "i64 option"
  monotonic_seq :: u64

datatype resolution_status = RsVerified | RsProbable | RsPossible | RsUnknown | RsConflicted | RsRevoked

datatype calibration = NominalUnvalidated | Calibrated

datatype entity_type = User | Service | Agent | EtSystem | EtExternal | EtUnknown

datatype confidence = Confidence flt

record evidence_conflict =
  ec_value :: string
  ec_source :: string
  ec_recorded_at :: "string option"

record actor_ref =
  ar_id :: "string option"
  ar_type :: "entity_type option"
  ar_namespace :: "string option"
  ar_resolution :: resolution_status
  ar_confidence :: "confidence option"
  ar_calibration :: "calibration option"
  ar_conflicts :: "evidence_conflict list"

record actor_ref_with_authn =
  aa_actor :: actor_ref
  auth_ref :: "string option"

record caller_ref =
  cr_application_id :: "string option"
  cr_version :: "string option"
  cr_platform :: "string option"

record service_identity_ref =
  si_id :: "string option"
  si_auth :: "string option"
  spiffe_id :: "string option"

record resource_ref =
  rr_id :: "string option"
  rr_type :: string
  rr_namespace :: "string option"

datatype operation_inference = OiExplicit | OiBusinessId | OiCausation | OiResourceId
  | OiActorContext | OiSemantic | OiTemporal | OiUnknown

record operation_ref =
  operation_id :: "string option"
  op_type :: string
  op_inference :: operation_inference
  op_confidence :: confidence
  op_calibration :: "calibration option"

datatype lifecycle_binding = LbExplicit | LbBusinessId | LbCausation | LbResourceId
  | LbActorContext | LbSemantic | LbTemporal | LbUnknown

record lifecycle_ref =
  lr_lifecycle_id :: "string option"
  lr_binding :: lifecycle_binding
  lr_confidence :: "confidence option"
  lr_calibration :: "calibration option"

datatype entry_point_type = HttpEndpoint | EpQueue | EpScheduler | EpCli | EpWebhook | EpInternal | EpUnknown

record entry_point =
  ep_type :: entry_point_type
  endpoint_id :: "string option"
  ep_method :: "string option"
  route :: "string option"
  route_template :: "string option"

record technical_context =
  tc_application_id :: "string option"
  application_version :: "string option"
  tc_platform :: "string option"
  tc_module :: "string option"
  feature :: "string option"
  service_id :: "string option"
  service_version :: "string option"
  repository :: "string option"
  build :: "string option"
  deployment_id :: "string option"
  instance_id :: "string option"
  environment :: "string option"

datatype origin = Human | OrSystem | OrExternal | Scheduled | Automated | OrUnknown

datatype trigger = UserAction | ApiRequest | BackgroundJob | TrQueue | TrScheduler | TrWebhook
  | Polling | DatabaseChange | SystemRule | ExternalProcessor | Reconciliation
  | ManualAdminAction | TrUnknown

record provenance =
  pv_origin :: origin
  pv_trigger :: trigger
  pv_source :: string
  producer :: "string option"
  authority :: "string option"

datatype truth_stage = Observed | Executed | Authorized | Committed | Approved | Signed | Audited
  | Authoritative | Inferred | Uncertain

record truth =
  stage :: truth_stage
  asserted_by :: string
  adapter :: "string option"

datatype trust_level = TlVerified | TlProbable | TlPossible | TlUnknown | TlConflicted

record trust =
  tr_level :: trust_level
  tr_confidence :: confidence
  tr_calibration :: "calibration option"
  factors :: "string list"

record causality =
  parent_event_id :: "string option"
  causation_id :: "string option"
  correlation_id :: "string option"
  customer_correlation_ids :: "string \<rightharpoonup> string"

datatype degradation_level = DL0 | DL1 | DL2 | DL3 | DL4

record coverage =
  complete :: bool
  shed :: "string list"
  redacted_fields :: "string list"
  cov_degradation_level :: "degradation_level option"

record event =
  schema_version :: string
  event_id :: string
  event_type :: string
  tenant_id :: string
  timestamp :: string
  received_at :: string
  ev_clock :: clock
  actor :: "actor_ref option"
  authenticated_principal :: "actor_ref_with_authn option"
  caller :: "caller_ref option"
  service_identity :: "service_identity_ref option"
  on_behalf_of :: "actor_ref option"
  beneficiary :: "actor_ref option"
  resource_owner :: "actor_ref option"
  resource :: "resource_ref option"
  operation :: "operation_ref option"
  ev_lifecycle :: "lifecycle_ref option"
  ev_entry_point :: "entry_point option"
  ev_technical_context :: "technical_context option"
  ev_provenance :: provenance
  ev_truth :: truth
  ev_trust :: trust
  ev_causality :: causality
  ev_coverage :: coverage
  ev_data :: "json option"
  attributes :: "json option"

definition SCHEMA_VERSION :: string where
  "SCHEMA_VERSION = ''1.0''"

definition RESERVED_UNKNOWN_TOKENS :: "string list" where
  "RESERVED_UNKNOWN_TOKENS = [''unknown'', ''UNKNOWN'', ''null'', ''None'', ''-'']"

section \<open>Validation\<close>

datatype validation_error =
    SchemaVersionMismatch string string
  | MissingRequired string
  | EmptyStringForUnknown string
  | ReservedUnknownToken string string
  | ConfidenceOutOfRange string flt

type_synonym validation = "(validation_error, unit) result"

definition check_nonempty :: "string \<Rightarrow> string \<Rightarrow> validation" where
  "check_nonempty field value =
     (if value = [] then Inl (MissingRequired field)
      else if value \<in> set RESERVED_UNKNOWN_TOKENS then Inl (ReservedUnknownToken field value)
      else Inr ())"

definition check_actor :: "string \<Rightarrow> actor_ref \<Rightarrow> validation" where
  "check_actor field a =
     (case ar_id a of
        None \<Rightarrow> Inr ()
      | Some i \<Rightarrow>
          if i = [] then Inl (EmptyStringForUnknown field)
          else if i \<in> set RESERVED_UNKNOWN_TOKENS then Inl (ReservedUnknownToken field i)
          else Inr ())"

definition check_actor_opt :: "string \<Rightarrow> actor_ref option \<Rightarrow> validation" where
  "check_actor_opt field m = (case m of None \<Rightarrow> Inr () | Some a \<Rightarrow> check_actor field a)"

fun value_option :: "confidence \<Rightarrow> flt option" where
  "value_option (Confidence x) = Some x"

text \<open>\<open>a?; rest\<close>: the first error is returned, otherwise the next check runs.\<close>

fun and_then :: "validation \<Rightarrow> validation \<Rightarrow> validation" where
  "and_then (Inl e) v = Inl e"
| "and_then (Inr u) v = v"

definition check_confidence :: "string \<Rightarrow> confidence \<Rightarrow> validation" where
  "check_confidence field c =
     (case value_option c of
        None \<Rightarrow> Inr ()
      | Some t \<Rightarrow> if \<not> in_range (Fin 0) (Fin 1) t then Inl (ConfidenceOutOfRange field t)
                  else Inr ())"

definition validate :: "event \<Rightarrow> validation" where
  "validate e =
     (if schema_version e \<noteq> SCHEMA_VERSION
      then Inl (SchemaVersionMismatch SCHEMA_VERSION (schema_version e))
      else
        and_then (check_nonempty ''event_id'' (event_id e))
        (and_then (check_nonempty ''event_type'' (event_type e))
        (and_then (check_nonempty ''tenant_id'' (tenant_id e))
        (and_then (check_nonempty ''timestamp'' (timestamp e))
        (and_then (check_nonempty ''received_at'' (received_at e))
        (and_then (check_actor_opt ''actor'' (actor e))
        (and_then (check_actor_opt ''on_behalf_of'' (on_behalf_of e))
        (and_then (check_actor_opt ''beneficiary'' (beneficiary e))
        (and_then (check_actor_opt ''resource_owner'' (resource_owner e))
        (and_then (check_actor_opt ''authenticated_principal''
                     (map_option aa_actor (authenticated_principal e)))
                  (check_confidence ''trust.confidence'' (tr_confidence (ev_trust e)))))))))))))"

section \<open>What validation promises\<close>

definition known_text :: "string \<Rightarrow> bool" where
  "known_text s \<longleftrightarrow> s \<noteq> [] \<and> s \<notin> set RESERVED_UNKNOWN_TOKENS"

definition known_actor :: "actor_ref option \<Rightarrow> bool" where
  "known_actor m = (case m of None \<Rightarrow> True | Some a \<Rightarrow>
     (case ar_id a of None \<Rightarrow> True | Some i \<Rightarrow> known_text i))"

fun probability :: "confidence \<Rightarrow> bool" where
  "probability (Confidence (Fin r)) = (0 \<le> r \<and> r \<le> 1)"
| "probability _ = False"

text \<open>The checked fields by name, as the error values name them.\<close>

definition text_field :: "event \<Rightarrow> string \<Rightarrow> string option" where
  "text_field e = map_of [(''event_id'', event_id e), (''event_type'', event_type e),
     (''tenant_id'', tenant_id e), (''timestamp'', timestamp e), (''received_at'', received_at e)]"

definition actor_field :: "event \<Rightarrow> string \<Rightarrow> actor_ref option" where
  "actor_field e f = (case map_of [(''actor'', actor e), (''on_behalf_of'', on_behalf_of e),
     (''beneficiary'', beneficiary e), (''resource_owner'', resource_owner e),
     (''authenticated_principal'', map_option aa_actor (authenticated_principal e))] f of
       None \<Rightarrow> None | Some m \<Rightarrow> m)"

definition actor_id :: "event \<Rightarrow> string \<Rightarrow> string option" where
  "actor_id e f = Option.bind (actor_field e f) ar_id"

fun blames :: "event \<Rightarrow> validation_error \<Rightarrow> bool" where
  "blames e (SchemaVersionMismatch x got) =
     (x = SCHEMA_VERSION \<and> got = schema_version e \<and> got \<noteq> x)"
| "blames e (MissingRequired f) = (text_field e f = Some [])"
| "blames e (EmptyStringForUnknown f) = (actor_id e f = Some [])"
| "blames e (ReservedUnknownToken f v) =
     (v \<in> set RESERVED_UNKNOWN_TOKENS \<and> (text_field e f = Some v \<or> actor_id e f = Some v))"
| "blames e (ConfidenceOutOfRange f v) =
     (f = ''trust.confidence'' \<and> tr_confidence (ev_trust e) = Confidence v \<and>
      \<not> probability (Confidence v))"

lemma and_then_Inr [simp]: "and_then a b = Inr u \<longleftrightarrow> a = Inr () \<and> b = Inr u"
  by (cases a) auto

lemma and_then_Inl: "and_then a b = Inl e \<longleftrightarrow> a = Inl e \<or> (a = Inr () \<and> b = Inl e)"
  by (cases a) auto

lemma check_nonempty_ok [simp]: "check_nonempty f v = Inr () \<longleftrightarrow> known_text v"
  by (simp add: check_nonempty_def known_text_def)

lemma check_actor_opt_ok [simp]: "check_actor_opt f m = Inr () \<longleftrightarrow> known_actor m"
  by (auto simp: check_actor_opt_def check_actor_def known_actor_def known_text_def
      split: option.splits)

lemma check_confidence_ok [simp]: "check_confidence f c = Inr () \<longleftrightarrow> probability c"
  by (cases c; cases "the (value_option c)")
    (auto simp: check_confidence_def in_range_def flt_le_def)

lemma check_nonempty_Inl:
  "check_nonempty f v = Inl x \<longleftrightarrow>
     (v = [] \<and> x = MissingRequired f) \<or>
     (v \<in> set RESERVED_UNKNOWN_TOKENS \<and> v \<noteq> [] \<and> x = ReservedUnknownToken f v)"
  by (auto simp: check_nonempty_def)

lemma check_actor_opt_Inl:
  "check_actor_opt f m = Inl x \<longleftrightarrow>
     (\<exists>a i. m = Some a \<and> ar_id a = Some i \<and>
       ((i = [] \<and> x = EmptyStringForUnknown f) \<or>
        (i \<in> set RESERVED_UNKNOWN_TOKENS \<and> i \<noteq> [] \<and> x = ReservedUnknownToken f i)))"
  by (auto simp: check_actor_opt_def check_actor_def split: option.splits)

lemma check_confidence_Inl:
  "check_confidence f c = Inl x \<longleftrightarrow>
     (\<exists>v. c = Confidence v \<and> x = ConfidenceOutOfRange f v \<and> \<not> probability c)"
  by (cases c; cases "the (value_option c)")
    (auto simp: check_confidence_def in_range_def flt_le_def)

lemmas validate_Inl = and_then_Inl check_nonempty_Inl check_actor_opt_Inl check_confidence_Inl

text \<open>Claim C23: \<open>validate\<close> accepts exactly the events whose schema version is 1.0, whose five
  required texts are neither empty nor a reserved unknown-token, whose five actor
  references carry no empty or reserved identifier, and whose trust confidence is a number
  in [0, 1] (NaN and infinities are refused).\<close>

theorem validate_accepts_iff:
  "validate e = Inr () \<longleftrightarrow>
     schema_version e = ''1.0'' \<and>
     known_text (event_id e) \<and> known_text (event_type e) \<and> known_text (tenant_id e) \<and>
     known_text (timestamp e) \<and> known_text (received_at e) \<and>
     known_actor (actor e) \<and> known_actor (on_behalf_of e) \<and> known_actor (beneficiary e) \<and>
     known_actor (resource_owner e) \<and>
     known_actor (map_option aa_actor (authenticated_principal e)) \<and>
     probability (tr_confidence (ev_trust e))"
  by (simp add: validate_def SCHEMA_VERSION_def)

text \<open>An error of \<open>validate\<close> is truthful: the field it names holds the value it
  complains about.\<close>

theorem validate_error_truthful:
  assumes "validate e = Inl err"
  shows "blames e err"
proof (cases "schema_version e = SCHEMA_VERSION")
  case False
  with assms show ?thesis by (auto simp: validate_def)
next
  case True
  then show ?thesis
    using assms unfolding validate_def
    by (simp add: validate_Inl)
      (elim disjE conjE exE; simp add: text_field_def actor_field_def actor_id_def)
qed

section \<open>A concrete event\<close>

definition demo_event :: "string \<Rightarrow> string \<Rightarrow> string \<Rightarrow> event" where
  "demo_event eid ety ten = \<lparr>
     schema_version = ''1.0'', event_id = eid, event_type = ety, tenant_id = ten,
     timestamp = ''2026-09-14T00:00:00Z'', received_at = ''2026-09-14T00:00:00Z'',
     ev_clock = \<lparr>cl_source = Shim, skew_estimate_ms = None, monotonic_seq = 0\<rparr>,
     actor = None, authenticated_principal = None, caller = None, service_identity = None,
     on_behalf_of = None, beneficiary = None, resource_owner = None, resource = None,
     operation = None, ev_lifecycle = None, ev_entry_point = None, ev_technical_context = None,
     ev_provenance = \<lparr>pv_origin = Human, pv_trigger = ApiRequest, pv_source = ''shim'',
       producer = None, authority = None\<rparr>,
     ev_truth = \<lparr>stage = Observed, asserted_by = ''shim'', adapter = None\<rparr>,
     ev_trust = \<lparr>tr_level = TlProbable, tr_confidence = Confidence (Fin (1/2)),
       tr_calibration = None, factors = []\<rparr>,
     ev_causality = \<lparr>parent_event_id = None, causation_id = None, correlation_id = None,
       customer_correlation_ids = Map.empty\<rparr>,
     ev_coverage = \<lparr>complete = True, shed = [], redacted_fields = [],
       cov_degradation_level = None\<rparr>,
     ev_data = None, attributes = None\<rparr>"

theorem validate_error_truthful_witness:
  "blames (demo_event ''unknown'' ''payment.create'' ''t'')
     (ReservedUnknownToken ''event_id'' ''unknown'')"
proof -
  have "validate (demo_event ''unknown'' ''payment.create'' ''t'')
      = Inl (ReservedUnknownToken ''event_id'' ''unknown'')"
    by (simp add: validate_def demo_event_def SCHEMA_VERSION_def check_nonempty_def
        RESERVED_UNKNOWN_TOKENS_def)
  then show ?thesis by (rule validate_error_truthful)
qed

text \<open>The module comment says that the validators enforce non-empty identifiers when present;
  an empty resource identifier passes.\<close>

lemma empty_resource_id_accepted:
  "validate ((demo_event ''e1'' ''payment.create'' ''t'')
     \<lparr>resource := Some \<lparr>rr_id = Some [], rr_type = ''payment'', rr_namespace = None\<rparr>\<rparr>) = Inr ()"
  by (simp add: validate_def demo_event_def SCHEMA_VERSION_def known_text_def known_actor_def
      RESERVED_UNKNOWN_TOKENS_def)

end
