(* ===== verification/Disk.thy ===== *)
theory Disk
  imports Prelude
begin

text \<open>
  The file-system calls of \<^verbatim>\<open>athar-storage\<close> and \<^verbatim>\<open>athar-audit\<close> on the one directory a store
  owns.  A directory is an association list from file names to contents, in the order
  \<open>read_dir\<close> enumerates it.  \<open>script\<close> lists the outcomes of the calls still to come: an
  exhausted script means that every call succeeds, \<open>IoFail n\<close> makes the next call fail (a
  write fails after \<open>n\<close> bytes), so a theorem for all scripts covers every I/O failure.
  Computations are state transformers with an error branch; \<open>bind_eff\<close> is the \<open>?\<close> operator.
\<close>

section \<open>Effects\<close>

type_synonym ('s, 'e, 'a) eff = "'s \<Rightarrow> ('e, 'a) result \<times> 's"

definition return_eff :: "'a \<Rightarrow> ('s, 'e, 'a) eff" where
  "return_eff a s = (Inr a, s)"

definition throw_eff :: "'e \<Rightarrow> ('s, 'e, 'a) eff" where
  "throw_eff e s = (Inl e, s)"

definition bind_eff :: "('s, 'e, 'a) eff \<Rightarrow> ('a \<Rightarrow> ('s, 'e, 'b) eff) \<Rightarrow> ('s, 'e, 'b) eff" where
  "bind_eff m f s = (case m s of (Inl e, s') \<Rightarrow> (Inl e, s') | (Inr a, s') \<Rightarrow> f a s')"

definition get_eff :: "('s, 'e, 's) eff" where
  "get_eff s = (Inr s, s)"

definition modify_eff :: "('s \<Rightarrow> 's) \<Rightarrow> ('s, 'e, unit) eff" where
  "modify_eff f s = (Inr (), f s)"

named_theorems eff_simps \<open>unfolding the effect combinators\<close>

lemmas eff_defs [eff_simps] =
  return_eff_def throw_eff_def get_eff_def modify_eff_def

lemma bind_eff_Inl [eff_simps]: "m s = (Inl e, s') \<Longrightarrow> bind_eff m f s = (Inl e, s')"
  by (simp add: bind_eff_def)

lemma bind_eff_Inr [eff_simps]: "m s = (Inr a, s') \<Longrightarrow> bind_eff m f s = f a s'"
  by (simp add: bind_eff_def)

lemma bind_eff_split:
  "bind_eff m f s = (r, t) \<longleftrightarrow>
     (\<exists>e. m s = (Inl e, t) \<and> r = Inl e) \<or> (\<exists>a s'. m s = (Inr a, s') \<and> f a s' = (r, t))"
  by (auto simp: bind_eff_def split: prod.splits sum.splits)

text \<open>A \<open>for\<close> loop with an accumulator, left at the first error.\<close>

fun for_each :: "('x \<Rightarrow> 'a \<Rightarrow> ('s, 'e, 'a) eff) \<Rightarrow> 'x list \<Rightarrow> 'a \<Rightarrow> ('s, 'e, 'a) eff" where
  "for_each f [] a = return_eff a"
| "for_each f (x # xs) a = bind_eff (f x a) (\<lambda>b. for_each f xs b)"

lemma for_each_append:
  "for_each f (xs @ ys) a s = bind_eff (for_each f xs a) (\<lambda>b. for_each f ys b) s"
  by (induction xs arbitrary: a s) (auto simp: bind_eff_def eff_defs split: prod.split sum.split)

lemma for_each_pure:
  assumes "\<And>x a. x \<in> set xs \<Longrightarrow> f x a s = (Inr (g x a), s)"
  shows "for_each f xs a s = (Inr (fold g xs a), s)"
  using assms by (induction xs arbitrary: a) (auto simp: bind_eff_def eff_defs)

section \<open>The directory\<close>

datatype io_outcome = IoOk | IoFail nat

datatype io_error = IoError | NotFound

record disk =
  files :: "(string \<times> byte list) list"
  script :: "io_outcome list"

definition disk_of :: "(string \<times> byte list) list \<Rightarrow> disk" where
  "disk_of fs = \<lparr>files = fs, script = []\<rparr>"

definition quiet :: "disk \<Rightarrow> bool" where
  "quiet d \<longleftrightarrow> script d = []"

definition file_at :: "disk \<Rightarrow> string \<Rightarrow> byte list option" where
  "file_at d n = map_of (files d) n"

text \<open>The outcome of the next call, consumed from the script.\<close>

definition io_call :: "(disk, io_error, unit) eff" where
  "io_call d = (case script d of
      [] \<Rightarrow> (Inr (), d)
    | IoOk # r \<Rightarrow> (Inr (), d\<lparr>script := r\<rparr>)
    | IoFail n # r \<Rightarrow> (Inl IoError, d\<lparr>script := r\<rparr>))"

definition io_create_dir :: "(disk, io_error, unit) eff" where
  "io_create_dir = io_call"

definition io_read_dir :: "(disk, io_error, string list) eff" where
  "io_read_dir = bind_eff io_call (\<lambda>_. bind_eff get_eff (\<lambda>d. return_eff (map fst (files d))))"

definition io_read :: "string \<Rightarrow> (disk, io_error, byte list) eff" where
  "io_read n = bind_eff io_call (\<lambda>_. bind_eff get_eff (\<lambda>d.
     case file_at d n of None \<Rightarrow> throw_eff NotFound | Some c \<Rightarrow> return_eff c))"

definition io_len :: "string \<Rightarrow> (disk, io_error, u64) eff" where
  "io_len n = bind_eff (io_read n) (\<lambda>c. return_eff (of_nat (length c)))"

definition io_rename :: "string \<Rightarrow> string \<Rightarrow> (disk, io_error, unit) eff" where
  "io_rename a b = bind_eff io_call (\<lambda>_. bind_eff get_eff (\<lambda>d.
     case file_at d a of
       None \<Rightarrow> throw_eff NotFound
     | Some c \<Rightarrow> modify_eff (\<lambda>d. d\<lparr>files := al_upd b c (al_del a (files d))\<rparr>)))"

definition io_remove :: "string \<Rightarrow> (disk, io_error, unit) eff" where
  "io_remove n = bind_eff io_call (\<lambda>_. bind_eff get_eff (\<lambda>d.
     case file_at d n of
       None \<Rightarrow> throw_eff NotFound
     | Some c \<Rightarrow> modify_eff (\<lambda>d. d\<lparr>files := al_del n (files d)\<rparr>)))"

text \<open>\<open>OpenOptions::create(true).append(true)\<close>: an absent file is created empty.\<close>

definition io_open_append :: "string \<Rightarrow> (disk, io_error, unit) eff" where
  "io_open_append n = bind_eff io_call (\<lambda>_.
     modify_eff (\<lambda>d. case file_at d n of None \<Rightarrow> d\<lparr>files := al_upd n [] (files d)\<rparr> | Some c \<Rightarrow> d))"

text \<open>\<open>File::create\<close>: the file is created or truncated.\<close>

definition io_create :: "string \<Rightarrow> (disk, io_error, unit) eff" where
  "io_create n = bind_eff io_call (\<lambda>_. modify_eff (\<lambda>d. d\<lparr>files := al_upd n [] (files d)\<rparr>))"

definition append_bytes :: "string \<Rightarrow> byte list \<Rightarrow> disk \<Rightarrow> disk" where
  "append_bytes n bs d =
     d\<lparr>files := al_upd n ((case file_at d n of None \<Rightarrow> [] | Some c \<Rightarrow> c) @ bs) (files d)\<rparr>"

text \<open>\<open>write_all\<close> on a handle positioned at the end: a failing call leaves a prefix behind.\<close>

definition io_write :: "string \<Rightarrow> byte list \<Rightarrow> (disk, io_error, unit) eff" where
  "io_write n bs d = (case script d of
      IoFail k # r \<Rightarrow> (Inl IoError, append_bytes n (take k bs) (d\<lparr>script := r\<rparr>))
    | _ \<Rightarrow> (Inr (), append_bytes n bs (snd (io_call d))))"

definition io_sync :: "(disk, io_error, unit) eff" where
  "io_sync = io_call"

section \<open>Calls that succeed\<close>

lemma io_call_quiet [simp]: "quiet d \<Longrightarrow> io_call d = (Inr (), d)"
  by (simp add: io_call_def quiet_def)

lemma quiet_files [simp]: "quiet (d\<lparr>files := f\<rparr>) = quiet d"
  by (simp add: quiet_def)

lemma quiet_disk_of [simp]: "quiet (disk_of fs)"
  by (simp add: quiet_def disk_of_def)

lemma io_read_dir_quiet [simp]: "quiet d \<Longrightarrow> io_read_dir d = (Inr (map fst (files d)), d)"
  by (simp add: io_read_dir_def eff_simps)

lemma io_read_quiet [simp]: "quiet d \<Longrightarrow> file_at d n = Some c \<Longrightarrow> io_read n d = (Inr c, d)"
  by (simp add: io_read_def eff_simps)

lemma io_len_quiet [simp]:
  "quiet d \<Longrightarrow> file_at d n = Some c \<Longrightarrow> io_len n d = (Inr (of_nat (length c)), d)"
  by (simp add: io_len_def eff_simps)

lemma io_rename_quiet [simp]:
  "quiet d \<Longrightarrow> file_at d a = Some c \<Longrightarrow>
     io_rename a b d = (Inr (), d\<lparr>files := al_upd b c (al_del a (files d))\<rparr>)"
  by (simp add: io_rename_def eff_simps)

lemma io_remove_quiet [simp]:
  "quiet d \<Longrightarrow> file_at d n = Some c \<Longrightarrow> io_remove n d = (Inr (), d\<lparr>files := al_del n (files d)\<rparr>)"
  by (simp add: io_remove_def eff_simps)

lemma io_open_append_quiet [simp]:
  "quiet d \<Longrightarrow> file_at d n = None \<Longrightarrow>
     io_open_append n d = (Inr (), d\<lparr>files := al_upd n [] (files d)\<rparr>)"
  by (simp add: io_open_append_def eff_simps)

lemma io_create_quiet [simp]:
  "quiet d \<Longrightarrow> io_create n d = (Inr (), d\<lparr>files := al_upd n [] (files d)\<rparr>)"
  by (simp add: io_create_def eff_simps)

lemma io_write_quiet [simp]: "quiet d \<Longrightarrow> io_write n bs d = (Inr (), append_bytes n bs d)"
  by (simp add: io_write_def quiet_def io_call_def)

lemma io_sync_quiet [simp]: "quiet d \<Longrightarrow> io_sync d = (Inr (), d)"
  by (simp add: io_sync_def)

lemma quiet_append_bytes [simp]: "quiet (append_bytes n bs d) = quiet d"
  by (simp add: append_bytes_def)

lemma file_at_append_bytes [simp]:
  "file_at (append_bytes n bs d) m =
     (if m = n then Some ((case file_at d n of None \<Rightarrow> [] | Some c \<Rightarrow> c) @ bs) else file_at d m)"
  by (simp add: file_at_def append_bytes_def)

end
