(* ===== verification/Quota.thy ===== *)
theory Quota
  imports Floats
begin

text \<open>
  \<^verbatim>\<open>daemon/crates/athar-storage/src/quota.rs\<close>: disk-quota accounting on 64-bit byte counts.
\<close>

record quota =
  limit_bytes :: u64

datatype fits = FitsYes | FitsNo u64

definition quota_new :: "u64 \<Rightarrow> quota" where
  "quota_new n = \<lparr>limit_bytes = n\<rparr>"

definition quota_check :: "quota \<Rightarrow> u64 \<Rightarrow> u64 \<Rightarrow> fits" where
  "quota_check q current_total record_size =
     (case checked_add current_total record_size of
        Some t \<Rightarrow> if t \<le> limit_bytes q then FitsYes else FitsNo (t - limit_bytes q)
      | None \<Rightarrow> FitsNo (- 1))"

definition headroom :: "quota \<Rightarrow> u64 \<Rightarrow> u64" where
  "headroom q current_total = sat_sub (limit_bytes q) current_total"

definition fill_ratio :: "quota \<Rightarrow> u64 \<Rightarrow> flt" where
  "fill_ratio q current_total =
     (if limit_bytes q = 0 then Fin 1
      else f64_as_f32 (f64_div (u64_as_f64 current_total) (u64_as_f64 (limit_bytes q))))"

datatype eviction_action =
    DropP4Artifacts
  | DropPayloadCapturesPastMinRetention
  | DropClosedLifecyclesPastRetention
  | DropCorrelatedUneventful
  | ForceCloseOpenLifecyclesPastCeiling
  | StopCaptureAlert

lemma quota_check_yes_iff:
  "quota_check q c r = FitsYes \<longleftrightarrow> unat c + unat r \<le> unat (limit_bytes q)"
proof (cases "checked_add c r")
  case None
  then have "2 ^ 64 \<le> unat c + unat r" by (simp add: checked_add_None_iff)
  then show ?thesis
    using None unat_u64_less [of "limit_bytes q"] by (simp add: quota_check_def)
next
  case (Some t)
  then show ?thesis
    by (simp add: quota_check_def word_le_nat_alt unat_checked_add)
qed

text \<open>The quota check computes with unbounded precision: it says yes exactly when the
  mathematical sum fits the limit, a refusal reports the exact excess (or the largest
  64-bit value when the sum does not fit 64 bits), and a write of at most the headroom fits
  exactly when the log is not already over its limit.\<close>

theorem quota_check_exact:
  "(quota_check q c r = FitsYes \<longleftrightarrow> unat c + unat r \<le> unat (limit_bytes q)) \<and>
   (\<forall>n. quota_check q c r = FitsNo n \<longrightarrow>
      unat n = (if unat c + unat r < 2 ^ 64 then unat c + unat r - unat (limit_bytes q)
                else 2 ^ 64 - 1)) \<and>
   (quota_check q c (headroom q c) = FitsYes \<longleftrightarrow> c \<le> limit_bytes q)"
proof (intro conjI allI impI)
  show "quota_check q c r = FitsYes \<longleftrightarrow> unat c + unat r \<le> unat (limit_bytes q)"
    by (rule quota_check_yes_iff)
next
  fix n
  assume n: "quota_check q c r = FitsNo n"
  show "unat n = (if unat c + unat r < 2 ^ 64 then unat c + unat r - unat (limit_bytes q)
                else 2 ^ 64 - 1)"
  proof (cases "checked_add c r")
    case None
    then have "2 ^ 64 \<le> unat c + unat r" by (simp add: checked_add_None_iff)
    moreover have "n = - 1" using n None by (simp add: quota_check_def)
    moreover have "unat (- 1 :: u64) = 2 ^ 64 - 1"
      by (simp add: unsigned_minus_1_eq_mask mask_eq_exp_minus_1)
    ultimately show ?thesis by simp
  next
    case (Some t)
    then have "unat c + unat r < 2 ^ 64" "unat t = unat c + unat r"
      by (auto simp: checked_add_def unat_word_ariths split: if_splits)
    moreover have "n = t - limit_bytes q" "limit_bytes q < t"
      using n Some by (auto simp: quota_check_def split: if_splits)
    ultimately show ?thesis by (simp add: unat_sub)
  qed
next
  show "quota_check q c (headroom q c) = FitsYes \<longleftrightarrow> c \<le> limit_bytes q"
    by (auto simp: quota_check_yes_iff headroom_def unat_sat_sub word_le_nat_alt)
qed

theorem quota_check_exact_witness:
  "quota_check (quota_new 1000) 600 500 = FitsNo 100 \<and> unat (100 :: u64) = 600 + 500 - 1000"
proof -
  have "quota_check (quota_new 1000) 600 500 = FitsNo 100"
    by (simp add: quota_check_def quota_new_def checked_add_def)
  then show ?thesis
    using quota_check_exact [of "quota_new 1000" 600 500] by (simp add: quota_new_def)
qed

end
