(* ===== verification/Segment_Log.thy ===== *)
theory Segment_Log
  imports Disk Quota
begin

text \<open>
  \<^verbatim>\<open>daemon/crates/athar-storage/src/segment_log.rs\<close>: the append-only segmented evidence log.
  \<open>slog\<close> is the struct \<open>SegmentLog\<close> together with the directory it owns (\<open>sl_disk\<close>); each
  method is an effect on it, so that an early return keeps exactly the mutations made
  before it.  Paths are file names in the root directory.
\<close>

section \<open>Data\<close>

datatype storage_error =
    Io io_error
  | RecordTooLarge nat nat
  | QuotaExceeded u64 u64 u64
  | SegmentCorrupt string u64
  | NoActiveSegment
  | RootUnavailable

definition SEG_EXT :: string where "SEG_EXT = ''seg''"
definition WIP_EXT :: string where "WIP_EXT = ''seg.wip''"
definition QUARANTINE_EXT :: string where "QUARANTINE_EXT = ''seg.quarantine''"
definition RECORD_HEADER_BYTES :: nat where "RECORD_HEADER_BYTES = 4"

record log_config =
  max_segment_bytes :: u64
  max_record_bytes :: nat
  lc_quota :: quota

definition log_config_defaults :: log_config where
  "log_config_defaults = \<lparr>max_segment_bytes = 64 * 1024 * 1024,
     max_record_bytes = 8 * 1024 * 1024, lc_quota = quota_new (2 * 1024 * 1024 * 1024)\<rparr>"

record append_receipt =
  r_segment_id :: u64
  r_record_index :: u64
  r_offset_in_segment :: u64
  r_bytes_written :: u64

datatype segment_state = Closed | Active | Quarantined

record segment_info =
  si_seg_id :: u64
  si_path :: string
  si_size_bytes :: u64
  si_record_count :: u64
  si_state :: segment_state

record active_segment =
  a_id :: u64
  a_path :: string
  written_bytes :: u64
  record_count :: u64

record slog =
  sl_config :: log_config
  sl_active :: "active_segment option"
  total_bytes :: u64
  next_seg_id :: u64
  quarantined_at_open :: u64
  sl_disk :: disk

section \<open>File names\<close>

text \<open>\<open>Path::extension\<close> and \<open>Path::with_extension\<close>: the text after the last dot, unless that
  dot starts the name.\<close>

definition split_ext :: "string \<Rightarrow> (string \<times> string) option" where
  "split_ext n =
     (let r = rev n; e = takeWhile (\<lambda>c. c \<noteq> CHR ''.'') r;
          rest = dropWhile (\<lambda>c. c \<noteq> CHR ''.'') r
      in if rest = [] \<or> tl rest = [] then None else Some (rev (tl rest), rev e))"

definition has_extension :: "string \<Rightarrow> bool" where
  "has_extension n \<longleftrightarrow> split_ext n \<noteq> None"

definition with_extension :: "string \<Rightarrow> string \<Rightarrow> string" where
  "with_extension n ext =
     (case split_ext n of None \<Rightarrow> n @ ''.'' @ ext | Some (stem, e) \<Rightarrow> stem @ ''.'' @ ext)"

definition parse_segment_id :: "string \<Rightarrow> u64 option" where
  "parse_segment_id n = parse_hex_u64 (takeWhile (\<lambda>c. c \<noteq> CHR ''.'') n)"

definition wip_name :: "u64 \<Rightarrow> string" where
  "wip_name i = hex16 i @ ''.'' @ WIP_EXT"

section \<open>Reading records\<close>

function decode_records :: "string \<Rightarrow> u64 \<Rightarrow> byte list \<Rightarrow> (storage_error, byte list list) result" where
  "decode_records path off bs =
     (if length bs < RECORD_HEADER_BYTES then Inr []
      else let len = nat_of_be (take RECORD_HEADER_BYTES bs);
               body = drop RECORD_HEADER_BYTES bs in
           if length body < len then Inl (SegmentCorrupt path off)
           else case decode_records path (off + of_nat (RECORD_HEADER_BYTES + len)) (drop len body) of
                  Inl e \<Rightarrow> Inl e
                | Inr rs \<Rightarrow> Inr (take len body # rs))"
  by pat_completeness auto
termination
  by (relation "measure (\<lambda>(path, off, bs). length bs)") (auto simp: RECORD_HEADER_BYTES_def)

declare decode_records.simps [simp del]

function count_records :: "byte list \<Rightarrow> u64" where
  "count_records bs =
     (if length bs < RECORD_HEADER_BYTES then 0
      else let len = nat_of_be (take RECORD_HEADER_BYTES bs);
               body = drop RECORD_HEADER_BYTES bs in
           if length body < len then 0 else 1 + count_records (drop len body))"
  by pat_completeness auto
termination
  by (relation "measure length") (auto simp: RECORD_HEADER_BYTES_def)

declare count_records.simps [simp del]

section \<open>Effects on the log\<close>

type_synonym 'a log_eff = "(slog, storage_error, 'a) eff"

text \<open>\<open>call()?\<close>: run a file-system call on the directory, converting its error.\<close>

definition on_disk :: "(disk, io_error, 'a) eff \<Rightarrow> 'a log_eff" where
  "on_disk m l = (case m (sl_disk l) of (r, d) \<Rightarrow> (map_err Io r, l\<lparr>sl_disk := d\<rparr>))"

text \<open>\<open>call().map_err(|_| e)?\<close>.\<close>

definition on_disk_as :: "storage_error \<Rightarrow> (disk, io_error, 'a) eff \<Rightarrow> 'a log_eff" where
  "on_disk_as e m l = (case m (sl_disk l) of (r, d) \<Rightarrow> (map_err (\<lambda>_. e) r, l\<lparr>sl_disk := d\<rparr>))"

section \<open>Operations\<close>

definition slog_new :: "log_config \<Rightarrow> disk \<Rightarrow> slog" where
  "slog_new c d = \<lparr>sl_config = c, sl_active = None, total_bytes = 0, next_seg_id = 0,
     quarantined_at_open = 0, sl_disk = d\<rparr>"

definition quarantine_step :: "string \<Rightarrow> u64 \<Rightarrow> u64 log_eff" where
  "quarantine_step n q =
     (if \<not> has_extension n then return_eff q
      else if ends_with n (''.'' @ WIP_EXT) then
        bind_eff (on_disk (io_len n)) (\<lambda>sz.
        bind_eff (on_disk (io_rename n (with_extension n QUARANTINE_EXT))) (\<lambda>_.
        return_eff (q + sz)))
      else return_eff q)"

definition measure_step :: "string \<Rightarrow> u64 option \<times> u64 \<Rightarrow> (u64 option \<times> u64) log_eff" where
  "measure_step n = (\<lambda>(highest, total).
     if ends_with n (''.'' @ SEG_EXT) \<or> ends_with n (''.'' @ QUARANTINE_EXT) then
       bind_eff (on_disk (io_len n)) (\<lambda>sz.
         return_eff
           (case parse_segment_id n of
              None \<Rightarrow> highest
            | Some i \<Rightarrow> Some (case highest of None \<Rightarrow> i | Some h \<Rightarrow> max h i),
            total + sz))
     else return_eff (highest, total))"

definition log_open :: "log_config \<Rightarrow> disk \<Rightarrow> (storage_error, slog) result \<times> disk" where
  "log_open c d =
     (case bind_eff (on_disk_as RootUnavailable io_create_dir) (\<lambda>_.
           bind_eff (on_disk io_read_dir) (\<lambda>names.
           bind_eff (for_each quarantine_step names 0) (\<lambda>q.
           bind_eff (on_disk io_read_dir) (\<lambda>names2.
           bind_eff (for_each measure_step names2 (None, 0)) (\<lambda>(highest, total).
           bind_eff get_eff (\<lambda>l.
           return_eff (l\<lparr>total_bytes := total,
             next_seg_id := (case highest of None \<Rightarrow> 0 | Some h \<Rightarrow> h + 1),
             quarantined_at_open := q\<rparr>))))))) (slog_new c d) of
        (r, l) \<Rightarrow> (r, sl_disk l))"

definition rotate :: "string option log_eff" where
  "rotate =
     bind_eff get_eff (\<lambda>l.
     bind_eff
       (case sl_active l of
          None \<Rightarrow> return_eff None
        | Some a \<Rightarrow>
            bind_eff (modify_eff (\<lambda>l. l\<lparr>sl_active := None\<rparr>)) (\<lambda>_.
            bind_eff (on_disk io_sync) (\<lambda>_.
            bind_eff (on_disk (io_rename (a_path a) (with_extension (a_path a) SEG_EXT))) (\<lambda>_.
            return_eff (Some (with_extension (a_path a) SEG_EXT))))))
       (\<lambda>closed_path.
     bind_eff get_eff (\<lambda>l.
     bind_eff (modify_eff (\<lambda>l. l\<lparr>next_seg_id := next_seg_id l + 1\<rparr>)) (\<lambda>_.
     bind_eff (on_disk (io_open_append (wip_name (next_seg_id l)))) (\<lambda>_.
     bind_eff (modify_eff (\<lambda>k. k\<lparr>sl_active := Some \<lparr>a_id = next_seg_id l,
         a_path = wip_name (next_seg_id l), written_bytes = 0, record_count = 0\<rparr>\<rparr>)) (\<lambda>_.
     return_eff closed_path))))))"

definition must_rotate :: "slog \<Rightarrow> u64 \<Rightarrow> bool" where
  "must_rotate l sz = (case sl_active l of
      None \<Rightarrow> True
    | Some a \<Rightarrow> max_segment_bytes (sl_config l) < written_bytes a + sz)"

definition log_append :: "byte list \<Rightarrow> append_receipt log_eff" where
  "log_append data =
     bind_eff get_eff (\<lambda>l.
     if max_record_bytes (sl_config l) < length data
     then throw_eff (RecordTooLarge (length data) (max_record_bytes (sl_config l)))
     else let sz = of_nat (RECORD_HEADER_BYTES + length data) in
     case quota_check (lc_quota (sl_config l)) (total_bytes l) sz of
       FitsNo n \<Rightarrow> throw_eff (QuotaExceeded (total_bytes l) sz (limit_bytes (lc_quota (sl_config l))))
     | FitsYes \<Rightarrow>
        bind_eff (if must_rotate l sz then bind_eff rotate (\<lambda>_. return_eff ()) else return_eff ()) (\<lambda>_.
        bind_eff get_eff (\<lambda>l.
        case sl_active l of
          None \<Rightarrow> throw_eff NoActiveSegment
        | Some a \<Rightarrow>
           bind_eff (on_disk (io_write (a_path a) (u32_to_be (of_nat (length data))))) (\<lambda>_.
           bind_eff (on_disk (io_write (a_path a) data)) (\<lambda>_.
           bind_eff (modify_eff (\<lambda>k. k\<lparr>
               sl_active := Some (a\<lparr>written_bytes := written_bytes a + sz,
                                    record_count := record_count a + 1\<rparr>),
               total_bytes := total_bytes k + sz\<rparr>)) (\<lambda>_.
           return_eff \<lparr>r_segment_id = a_id a, r_record_index = record_count a,
             r_offset_in_segment = written_bytes a, r_bytes_written = sz\<rparr>))))))"

definition log_sync :: "unit log_eff" where
  "log_sync = bind_eff get_eff (\<lambda>l.
     case sl_active l of None \<Rightarrow> return_eff () | Some a \<Rightarrow> on_disk io_sync)"

text \<open>\<open>close(mut self)\<close>: rotate, then drop the fresh segment, whose removal may fail silently.\<close>

definition log_close :: "unit log_eff" where
  "log_close = bind_eff get_eff (\<lambda>l.
     case sl_active l of
       None \<Rightarrow> return_eff ()
     | Some _ \<Rightarrow>
         bind_eff rotate (\<lambda>_.
         bind_eff get_eff (\<lambda>l.
         case sl_active l of
           None \<Rightarrow> return_eff ()
         | Some a \<Rightarrow>
             bind_eff (modify_eff (\<lambda>l. l\<lparr>sl_active := None\<rparr>)) (\<lambda>_.
             if written_bytes a = 0
             then (\<lambda>k. (Inr (), k\<lparr>sl_disk := snd (io_remove (a_path a) (sl_disk k))\<rparr>))
             else return_eff ()))))"

definition segment_state_of :: "string \<Rightarrow> segment_state option" where
  "segment_state_of n =
     (if ends_with n (''.'' @ SEG_EXT) then Some Closed
      else if ends_with n (''.'' @ WIP_EXT) then Some Active
      else if ends_with n (''.'' @ QUARANTINE_EXT) then Some Quarantined
      else None)"

text \<open>\<open>count_records_best_effort(&path).unwrap_or(0)\<close>: a file that cannot be opened counts 0.\<close>

definition count_records_best_effort :: "string \<Rightarrow> u64 log_eff" where
  "count_records_best_effort n l =
     (case io_read n (sl_disk l) of
        (Inl e, d) \<Rightarrow> (Inr 0, l\<lparr>sl_disk := d\<rparr>)
      | (Inr c, d) \<Rightarrow> (Inr (count_records c), l\<lparr>sl_disk := d\<rparr>))"

definition segment_step :: "string \<Rightarrow> segment_info list \<Rightarrow> segment_info list log_eff" where
  "segment_step n out =
     (case segment_state_of n of
        None \<Rightarrow> return_eff out
      | Some st \<Rightarrow>
         (case parse_segment_id n of
            None \<Rightarrow> return_eff out
          | Some i \<Rightarrow>
             bind_eff (on_disk (io_len n)) (\<lambda>sz.
             bind_eff
               (if st = Closed then count_records_best_effort n
                else bind_eff get_eff (\<lambda>l. return_eff
                  (case sl_active l of
                     None \<Rightarrow> 0
                   | Some a \<Rightarrow> if a_id a = i then record_count a else 0)))
               (\<lambda>cnt. return_eff (out @ [\<lparr>si_seg_id = i, si_path = n, si_size_bytes = sz,
                  si_record_count = cnt, si_state = st\<rparr>])))))"

definition segments :: "segment_info list log_eff" where
  "segments =
     bind_eff (on_disk io_read_dir) (\<lambda>names.
     bind_eff (for_each segment_step names []) (\<lambda>out.
     return_eff (sort_key si_seg_id out)))"

definition evict_oldest_closed :: "u64 option log_eff" where
  "evict_oldest_closed =
     bind_eff segments (\<lambda>segs.
     case find (\<lambda>s. si_state s = Closed) segs of
       None \<Rightarrow> return_eff None
     | Some target \<Rightarrow>
         bind_eff (on_disk (io_remove (si_path target))) (\<lambda>_.
         bind_eff (modify_eff (\<lambda>l. l\<lparr>total_bytes := sat_sub (total_bytes l) (si_size_bytes target)\<rparr>))
           (\<lambda>_. return_eff (Some (si_seg_id target)))))"

definition read_segment_records :: "string \<Rightarrow> byte list list log_eff" where
  "read_segment_records n =
     bind_eff (on_disk (io_read n)) (\<lambda>c l. (decode_records n 0 c, l))"

end
