(* ===== verification/Segment_Log_Refine.thy ===== *)
theory Segment_Log_Refine
  imports Segment_Log_Proofs
begin

text \<open>
  The representation invariant of the segmented log and the refinement of its operations:
  without I/O failures the log is an append-only list of payloads, rotation and reopening
  keep it, eviction drops a prefix of it.
\<close>

section \<open>Sizes of directories\<close>

definition is_log_name :: "string \<Rightarrow> bool" where
  "is_log_name n \<longleftrightarrow> segment_state_of n \<noteq> None"

definition name_size :: "string \<Rightarrow> byte list \<Rightarrow> nat" where
  "name_size n c = (if is_log_name n then length c else 0)"

definition log_size :: "(string \<times> byte list) list \<Rightarrow> nat" where
  "log_size fs = sum_list (map (\<lambda>(n, c). name_size n c) fs)"

definition size_at :: "(string \<times> byte list) list \<Rightarrow> string \<Rightarrow> nat" where
  "size_at fs n = (case map_of fs n of None \<Rightarrow> 0 | Some c \<Rightarrow> name_size n c)"

lemma size_at_absent: "n \<notin> fst ` set fs \<Longrightarrow> size_at fs n = 0"
  by (simp add: size_at_def map_of_eq_None_iff [THEN iffD2] split: option.split)

lemma log_size_upd: "log_size (al_upd n c fs) + size_at fs n = log_size fs + name_size n c"
proof (induction n c fs rule: al_upd.induct)
  case (2 n c n' c' fs)
  then show ?case by (auto simp: log_size_def size_at_def)
qed (simp add: log_size_def size_at_def)

lemma al_del_absent: "n \<notin> fst ` set fs \<Longrightarrow> al_del n fs = fs"
  by (induction fs) (auto simp: al_del_def)

lemma log_size_del:
  "distinct (map fst fs) \<Longrightarrow> log_size (al_del n fs) + size_at fs n = log_size fs"
proof (induction fs)
  case (Cons p fs)
  obtain m c where p: "p = (m, c)" by (cases p)
  show ?case
  proof (cases "m = n")
    case True
    with Cons.prems have "al_del n fs = fs" by (simp add: p al_del_absent)
    moreover have "al_del n ((n, c) # fs) = al_del n fs" by (simp add: al_del_def)
    ultimately show ?thesis using True by (simp add: p log_size_def size_at_def)
  next
    case False
    with Cons show ?thesis by (simp add: p al_del_def log_size_def size_at_def)
  qed
qed (simp add: al_del_def log_size_def size_at_def)

lemma is_log_name_simps [simp]:
  "is_log_name (closed_name i)" "is_log_name (wip_name i)" "is_log_name (quar_name i)"
  by (simp_all add: is_log_name_def)

section \<open>The invariant and the abstraction\<close>

definition active_ok :: "slog \<Rightarrow> active_segment \<Rightarrow> bool" where
  "active_ok l a \<longleftrightarrow>
     a_path a = wip_name (a_id a) \<and> a_id a < next_seg_id l \<and> next_seg_id l = a_id a + 1 \<and>
     file_at (sl_disk l) (closed_name (a_id a)) = None \<and>
     file_at (sl_disk l) (quar_name (a_id a)) = None \<and>
     (\<exists>ds. file_at (sl_disk l) (wip_name (a_id a)) = Some (frames ds) \<and> list_all frameable ds \<and>
        written_bytes a = of_nat (length (frames ds)) \<and> record_count a = of_nat (length ds))"

definition log_inv :: "slog \<Rightarrow> bool" where
  "log_inv l \<longleftrightarrow>
     quiet (sl_disk l) \<and> distinct (map fst (files (sl_disk l))) \<and>
     unat (total_bytes l) = log_size (files (sl_disk l)) \<and>
     (\<forall>n. file_at (sl_disk l) n \<noteq> None \<and> is_log_name n \<longrightarrow>
        (\<exists>i. i < next_seg_id l \<and> (n = closed_name i \<or> n = quar_name i \<or> n = wip_name i))) \<and>
     (\<forall>i. file_at (sl_disk l) (wip_name i) \<noteq> None \<longrightarrow> (\<exists>a. sl_active l = Some a \<and> a_id a = i)) \<and>
     (\<forall>a. sl_active l = Some a \<longrightarrow> active_ok l a) \<and>
     (\<forall>i c. file_at (sl_disk l) (closed_name i) = Some c \<longrightarrow>
        (\<exists>ds. list_all frameable ds \<and> c = frames ds))"

text \<open>The bytes of segment \<open>i\<close>, closed or active, and the payloads the reader finds there.\<close>

definition seg_bytes :: "disk \<Rightarrow> u64 \<Rightarrow> byte list" where
  "seg_bytes d i =
     (case file_at d (closed_name i) of
        Some c \<Rightarrow> c
      | None \<Rightarrow> (case file_at d (wip_name i) of Some c \<Rightarrow> c | None \<Rightarrow> []))"

definition seg_payloads :: "disk \<Rightarrow> u64 \<Rightarrow> byte list list" where
  "seg_payloads d i = unwrap_or (decode_records (closed_name i) 0 (seg_bytes d i)) []"

definition log_payloads :: "slog \<Rightarrow> byte list list" where
  "log_payloads l =
     concat (map (\<lambda>k. seg_payloads (sl_disk l) (of_nat k)) [0..<unat (next_seg_id l)])"

lemma log_inv_quiet: "log_inv l \<Longrightarrow> quiet (sl_disk l)"
  by (simp add: log_inv_def)

lemma log_inv_names:
  "log_inv l \<Longrightarrow> file_at (sl_disk l) n \<noteq> None \<Longrightarrow> is_log_name n \<Longrightarrow>
     \<exists>i. i < next_seg_id l \<and> (n = closed_name i \<or> n = quar_name i \<or> n = wip_name i)"
  by (simp add: log_inv_def)

lemma log_inv_wip:
  "log_inv l \<Longrightarrow> file_at (sl_disk l) (wip_name i) \<noteq> None \<Longrightarrow> \<exists>a. sl_active l = Some a \<and> a_id a = i"
  by (simp add: log_inv_def)

lemma log_inv_active: "log_inv l \<Longrightarrow> sl_active l = Some a \<Longrightarrow> active_ok l a"
  by (simp add: log_inv_def)

lemma log_inv_frames:
  "log_inv l \<Longrightarrow> file_at (sl_disk l) (closed_name i) = Some c \<Longrightarrow>
     \<exists>ds. list_all frameable ds \<and> c = frames ds"
  by (simp add: log_inv_def)

lemma log_inv_fresh:
  assumes "log_inv l"
  shows "file_at (sl_disk l) (closed_name (next_seg_id l)) = None"
    and "file_at (sl_disk l) (wip_name (next_seg_id l)) = None"
    and "file_at (sl_disk l) (quar_name (next_seg_id l)) = None"
proof -
  have "file_at (sl_disk l) n = None" if "is_log_name n" "parse_segment_id n = Some (next_seg_id l)" for n
  proof (rule ccontr)
    assume "file_at (sl_disk l) n \<noteq> None"
    with assms that(1) obtain i where "i < next_seg_id l"
      "n = closed_name i \<or> n = quar_name i \<or> n = wip_name i"
      by (auto simp: log_inv_def)
    with that(2) show False by auto
  qed
  then show "file_at (sl_disk l) (closed_name (next_seg_id l)) = None"
    and "file_at (sl_disk l) (wip_name (next_seg_id l)) = None"
    and "file_at (sl_disk l) (quar_name (next_seg_id l)) = None" by simp_all
qed

section \<open>Rotation\<close>

text \<open>The directory after the active segment (if any) has been closed.\<close>

definition closed_files :: "slog \<Rightarrow> (string \<times> byte list) list" where
  "closed_files l = (case sl_active l of
      None \<Rightarrow> files (sl_disk l)
    | Some a \<Rightarrow>
        al_upd (closed_name (a_id a)) (the (file_at (sl_disk l) (wip_name (a_id a))))
          (al_del (wip_name (a_id a)) (files (sl_disk l))))"

definition fresh_active :: "u64 \<Rightarrow> active_segment" where
  "fresh_active i = \<lparr>a_id = i, a_path = wip_name i, written_bytes = 0, record_count = 0\<rparr>"

definition rotated :: "slog \<Rightarrow> slog" where
  "rotated l = l\<lparr>sl_active := Some (fresh_active (next_seg_id l)), next_seg_id := next_seg_id l + 1,
     sl_disk := (sl_disk l)\<lparr>files := al_upd (wip_name (next_seg_id l)) [] (closed_files l)\<rparr>\<rparr>"

lemma file_at_closed_files:
  assumes "log_inv l"
  shows "map_of (closed_files l) n =
    (case sl_active l of
       None \<Rightarrow> file_at (sl_disk l) n
     | Some a \<Rightarrow> if n = closed_name (a_id a) then file_at (sl_disk l) (wip_name (a_id a))
                 else if n = wip_name (a_id a) then None else file_at (sl_disk l) n)"
  using assms
  by (auto simp: closed_files_def file_at_def log_inv_def active_ok_def split: option.splits)

lemma rotate_eq:
  assumes "log_inv l"
  shows "\<exists>p. rotate l = (Inr p, rotated l)"
proof (cases "sl_active l")
  case None
  then show ?thesis
    using assms log_inv_fresh(2) [OF assms]
    by (simp add: rotate_def bind_eff_def eff_defs on_disk_def log_inv_quiet rotated_def
        fresh_active_def closed_files_def)
next
  case (Some a)
  with assms have a: "active_ok l a" by (simp add: log_inv_def)
  then obtain c where c: "file_at (sl_disk l) (wip_name (a_id a)) = Some c"
    by (auto simp: active_ok_def)
  let ?d = "(sl_disk l)\<lparr>files := al_upd (closed_name (a_id a)) c
      (al_del (wip_name (a_id a)) (files (sl_disk l)))\<rparr>"
  have "a_id a \<noteq> next_seg_id l" using a by (auto simp: active_ok_def)
  then have "file_at ?d (wip_name (next_seg_id l)) = None"
    using log_inv_fresh(2) [OF assms] by (simp add: file_at_def)
  then show ?thesis
    using Some a c assms
    by (simp add: rotate_def bind_eff_def eff_defs on_disk_def log_inv_quiet rotated_def
        fresh_active_def closed_files_def active_ok_def)
qed

lemma log_size_closed_files:
  assumes "log_inv l"
  shows "log_size (closed_files l) = log_size (files (sl_disk l))"
proof (cases "sl_active l")
  case None
  then show ?thesis by (simp add: closed_files_def)
next
  case (Some a)
  with assms have a: "active_ok l a" by (simp add: log_inv_def)
  then obtain c where c: "file_at (sl_disk l) (wip_name (a_id a)) = Some c"
    by (auto simp: active_ok_def)
  let ?fs = "files (sl_disk l)"
  have "log_size (al_del (wip_name (a_id a)) ?fs) + length c = log_size ?fs"
    using log_size_del [of ?fs "wip_name (a_id a)"] assms c
    by (simp add: log_inv_def size_at_def file_at_def name_size_def)
  moreover have "log_size (al_upd (closed_name (a_id a)) c (al_del (wip_name (a_id a)) ?fs))
      = log_size (al_del (wip_name (a_id a)) ?fs) + length c"
    using log_size_upd [of "closed_name (a_id a)" c "al_del (wip_name (a_id a)) ?fs"] a
    by (simp add: size_at_def active_ok_def file_at_def name_size_def)
  ultimately show ?thesis using Some c by (simp add: closed_files_def)
qed

lemma seg_bytes_rotated:
  assumes "log_inv l"
  shows "seg_bytes (sl_disk (rotated l)) i = seg_bytes (sl_disk l) i"
proof -
  have f: "file_at (sl_disk (rotated l)) n =
      (if n = wip_name (next_seg_id l) then Some [] else map_of (closed_files l) n)" for n
    by (simp add: rotated_def file_at_def)
  show ?thesis
  proof (cases "sl_active l")
    case None
    then show ?thesis
      using log_inv_fresh [OF assms]
      by (auto simp: seg_bytes_def f file_at_closed_files [OF assms] split: option.split)
  next
    case (Some a)
    with assms have a: "active_ok l a" by (simp add: log_inv_def)
    then have "a_id a \<noteq> next_seg_id l" by (auto simp: active_ok_def)
    then show ?thesis
      using log_inv_fresh [OF assms] a Some
      by (auto simp: seg_bytes_def f file_at_closed_files [OF assms] active_ok_def
          split: option.split)
  qed
qed

lemma less_next:
  assumes "(n :: u64) \<noteq> - 1"
  shows "n < n + 1" and "i < n \<Longrightarrow> i < n + 1" and "unat (n + 1) = Suc (unat n)"
proof -
  have "unat n \<noteq> unat (- 1 :: u64)" using assms by (simp add: word_unat_eq_iff)
  then have "unat n < 2 ^ 64 - 1"
    using unat_u64_less [of n] by (simp add: unsigned_minus_1_eq_mask mask_eq_exp_minus_1)
  then show u: "unat (n + 1) = Suc (unat n)" by (rule unat_plus_one)
  show "n < n + 1" by (simp add: word_less_nat_alt u)
  show "i < n \<Longrightarrow> i < n + 1" by (simp add: word_less_nat_alt u)
qed

lemma rotated_file:
  "file_at (sl_disk (rotated l)) n =
     (if n = wip_name (next_seg_id l) then Some [] else map_of (closed_files l) n)"
  by (simp add: rotated_def file_at_def)

lemma rotated_fields [simp]:
  "sl_config (rotated l) = sl_config l" "total_bytes (rotated l) = total_bytes l"
  "next_seg_id (rotated l) = next_seg_id l + 1"
  "sl_active (rotated l) = Some (fresh_active (next_seg_id l))"
  by (simp_all add: rotated_def)

lemma closed_files_names:
  assumes "log_inv l" "map_of (closed_files l) n \<noteq> None" "is_log_name n"
  shows "\<exists>i. i < next_seg_id l \<and> (n = closed_name i \<or> n = quar_name i)"
proof (cases "sl_active l")
  case None
  have f: "file_at (sl_disk l) n \<noteq> None"
    using assms(2) None by (simp add: file_at_closed_files [OF assms(1)])
  then obtain i where i: "i < next_seg_id l" "n = closed_name i \<or> n = quar_name i \<or> n = wip_name i"
    using log_inv_names [OF assms(1) _ assms(3)] by blast
  moreover have "n \<noteq> wip_name i"
    using f log_inv_wip [OF assms(1), of i] None by auto
  ultimately show ?thesis by blast
next
  case (Some a)
  then have a: "active_ok l a" using assms(1) by (rule log_inv_active [rotated])
  show ?thesis
  proof (cases "n = closed_name (a_id a)")
    case True
    with a show ?thesis by (auto simp: active_ok_def)
  next
    case False
    with Some assms(2) have n: "n \<noteq> wip_name (a_id a)" "file_at (sl_disk l) n \<noteq> None"
      by (auto simp: file_at_closed_files [OF assms(1)] split: if_splits)
    then obtain i where "i < next_seg_id l" "n = closed_name i \<or> n = quar_name i \<or> n = wip_name i"
      using log_inv_names [OF assms(1) _ assms(3)] by blast
    moreover have "n \<noteq> wip_name i"
    proof
      assume "n = wip_name i"
      with n(2) Some have "i = a_id a" using log_inv_wip [OF assms(1), of i] by auto
      with \<open>n = wip_name i\<close> n(1) show False by simp
    qed
    ultimately show ?thesis by blast
  qed
qed

lemma closed_files_wip:
  assumes "log_inv l" shows "map_of (closed_files l) (wip_name i) = None"
proof (rule ccontr)
  assume "map_of (closed_files l) (wip_name i) \<noteq> None"
  from closed_files_names [OF assms this] show False by auto
qed

lemma closed_files_frames:
  assumes "log_inv l" "map_of (closed_files l) (closed_name i) = Some c"
  shows "\<exists>ds. list_all frameable ds \<and> c = frames ds"
proof (cases "sl_active l")
  case None
  then show ?thesis
    using assms log_inv_frames [OF assms(1)] by (simp add: file_at_closed_files)
next
  case (Some a)
  then have "active_ok l a" using assms(1) by (rule log_inv_active [rotated])
  then show ?thesis
    using Some assms log_inv_frames [OF assms(1)]
    by (auto simp: file_at_closed_files active_ok_def split: if_splits)
qed

lemma log_inv_rotated:
  assumes "log_inv l" "next_seg_id l \<noteq> - 1"
  shows "log_inv (rotated l)"
proof -
  note n = less_next [OF assms(2)]
  have w: "map_of (closed_files l) (wip_name i) = None" for i
    by (rule closed_files_wip [OF assms(1)])
  have d: "distinct (map fst (closed_files l))"
    using assms(1) by (simp add: closed_files_def log_inv_def split: option.split)
  have "log_size (al_upd (wip_name (next_seg_id l)) [] (closed_files l)) = log_size (closed_files l)"
    using log_size_upd [of "wip_name (next_seg_id l)" "[]" "closed_files l"] w
    by (simp add: size_at_def name_size_def)
  then have sz: "unat (total_bytes l) = log_size (files (sl_disk (rotated l)))"
    using assms(1) log_size_closed_files [OF assms(1)] by (simp add: rotated_def log_inv_def)
  have "map_of (closed_files l) (closed_name (next_seg_id l)) = None"
    using closed_files_names [OF assms(1), of "closed_name (next_seg_id l)"]
    by (cases "map_of (closed_files l) (closed_name (next_seg_id l))") auto
  moreover have "map_of (closed_files l) (quar_name (next_seg_id l)) = None"
    using closed_files_names [OF assms(1), of "quar_name (next_seg_id l)"]
    by (cases "map_of (closed_files l) (quar_name (next_seg_id l))") auto
  ultimately have act: "active_ok (rotated l) (fresh_active (next_seg_id l))"
    using n(1)
    by (auto simp: active_ok_def fresh_active_def rotated_file intro: exI [of _ "[]"])
  show ?thesis
    unfolding log_inv_def
  proof (intro conjI allI impI; (elim conjE)?)
    show "quiet (sl_disk (rotated l))" using assms(1) by (simp add: rotated_def log_inv_def)
    show "distinct (map fst (files (sl_disk (rotated l))))" using d by (simp add: rotated_def)
    show "unat (total_bytes (rotated l)) = log_size (files (sl_disk (rotated l)))"
      using sz by simp
  next
    fix m
    assume "file_at (sl_disk (rotated l)) m \<noteq> None" "is_log_name m"
    then show "\<exists>i. i < next_seg_id (rotated l) \<and> (m = closed_name i \<or> m = quar_name i \<or> m = wip_name i)"
      using closed_files_names [OF assms(1), of m] n by (auto simp: rotated_file split: if_splits)
  next
    fix i
    assume "file_at (sl_disk (rotated l)) (wip_name i) \<noteq> None"
    then show "\<exists>a. sl_active (rotated l) = Some a \<and> a_id a = i"
      using w by (auto simp: rotated_file fresh_active_def split: if_splits)
  next
    fix a
    assume "sl_active (rotated l) = Some a"
    then show "active_ok (rotated l) a" using act by simp
  next
    fix i c
    assume "file_at (sl_disk (rotated l)) (closed_name i) = Some c"
    then show "\<exists>ds. list_all frameable ds \<and> c = frames ds"
      using closed_files_frames [OF assms(1)] by (simp add: rotated_file)
  qed
qed

lemma log_payloads_rotated:
  assumes "log_inv l" "next_seg_id l \<noteq> - 1"
  shows "log_payloads (rotated l) = log_payloads l"
proof -
  have "seg_payloads (sl_disk (rotated l)) i = seg_payloads (sl_disk l) i" for i
    by (simp add: seg_payloads_def seg_bytes_rotated [OF assms(1)])
  moreover have "seg_payloads (sl_disk l) (next_seg_id l) = []"
    using log_inv_fresh [OF assms(1)] by (simp add: seg_payloads_def seg_bytes_def)
  ultimately show ?thesis
    using less_next(3) [OF assms(2)] by (simp add: log_payloads_def)
qed

section \<open>Appending\<close>

text \<open>The log after one record has been written to its active segment.\<close>

definition written :: "slog \<Rightarrow> active_segment \<Rightarrow> byte list \<Rightarrow> slog" where
  "written l a data = l\<lparr>
     sl_active := Some (a\<lparr>written_bytes := written_bytes a + of_nat (4 + length data),
                          record_count := record_count a + 1\<rparr>),
     total_bytes := total_bytes l + of_nat (4 + length data),
     sl_disk := append_bytes (a_path a) data
       (append_bytes (a_path a) (u32_to_be (of_nat (length data))) (sl_disk l))\<rparr>"

definition receipt_of :: "active_segment \<Rightarrow> byte list \<Rightarrow> append_receipt" where
  "receipt_of a data = \<lparr>r_segment_id = a_id a, r_record_index = record_count a,
     r_offset_in_segment = written_bytes a, r_bytes_written = of_nat (4 + length data)\<rparr>"

lemma written_file:
  "file_at (sl_disk (written l a data)) n =
     (if n = a_path a
      then Some ((case file_at (sl_disk l) n of None \<Rightarrow> [] | Some c \<Rightarrow> c) @ frame data)
      else file_at (sl_disk l) n)"
  by (simp add: written_def frame_def)

lemma log_size_append_bytes:
  "is_log_name n \<Longrightarrow>
     log_size (files (append_bytes n bs d)) = log_size (files d) + length bs"
  using log_size_upd [of n "(case file_at d n of None \<Rightarrow> [] | Some c \<Rightarrow> c) @ bs" "files d"]
  by (auto simp: append_bytes_def size_at_def name_size_def file_at_def split: option.splits)

lemma log_inv_written:
  assumes "log_inv l" "sl_active l = Some a" "frameable data"
    and fit: "unat (total_bytes l) + (4 + length data) < 2 ^ 64"
  shows "log_inv (written l a data)"
proof -
  from assms have a: "active_ok l a" by (simp add: log_inv_active)
  then obtain ds where ds: "file_at (sl_disk l) (wip_name (a_id a)) = Some (frames ds)"
    "list_all frameable ds" "written_bytes a = of_nat (length (frames ds))"
    "record_count a = of_nat (length ds)" and p: "a_path a = wip_name (a_id a)"
    by (auto simp: active_ok_def)
  have f: "file_at (sl_disk (written l a data)) n =
      (if n = wip_name (a_id a) then Some (frames (ds @ [data])) else file_at (sl_disk l) n)" for n
    using ds by (auto simp: written_file p)
  have "unat (of_nat (4 + length data) :: u64) = 4 + length data"
    by (rule unat_of_nat_u64) (use fit in simp)
  then have tot: "unat (total_bytes (written l a data)) = unat (total_bytes l) + (4 + length data)"
    using fit by (simp add: written_def unat_plus_no_wrap)
  have sz: "log_size (files (sl_disk (written l a data))) =
      log_size (files (sl_disk l)) + (4 + length data)"
    by (simp add: written_def p log_size_append_bytes)
  let ?a = "a\<lparr>written_bytes := written_bytes a + of_nat (4 + length data),
      record_count := record_count a + 1\<rparr>"
  have act: "active_ok (written l a data) ?a"
    using a ds assms(3) unfolding active_ok_def f
    by (auto simp: written_def length_frame intro!: exI [of _ "ds @ [data]"])
  have fields: "next_seg_id (written l a data) = next_seg_id l"
    "sl_active (written l a data) = Some ?a" by (simp_all add: written_def)
  show ?thesis
    unfolding log_inv_def fields tot sz f
  proof (intro conjI allI impI; (elim conjE)?)
    show "quiet (sl_disk (written l a data))"
      using assms(1) by (simp add: written_def log_inv_quiet)
    show "distinct (map fst (files (sl_disk (written l a data))))"
      using assms(1) by (simp add: written_def append_bytes_def log_inv_def)
    show "unat (total_bytes l) + (4 + length data) = log_size (files (sl_disk l)) + (4 + length data)"
      using assms(1) by (simp add: log_inv_def)
  next
    fix n
    assume "(if n = wip_name (a_id a) then Some (frames (ds @ [data])) else file_at (sl_disk l) n) \<noteq> None"
      "is_log_name n"
    then show "\<exists>i. i < next_seg_id l \<and> (n = closed_name i \<or> n = quar_name i \<or> n = wip_name i)"
      using log_inv_names [OF assms(1), of n] a by (auto simp: active_ok_def split: if_splits)
  next
    fix i
    assume "(if wip_name i = wip_name (a_id a) then Some (frames (ds @ [data]))
       else file_at (sl_disk l) (wip_name i)) \<noteq> None"
    then show "\<exists>b. Some ?a = Some b \<and> a_id b = i"
      using log_inv_wip [OF assms(1), of i] assms(2) by (auto split: if_splits)
  next
    fix b assume "Some ?a = Some b"
    then show "active_ok (written l a data) b" using act by simp
  next
    fix i c
    assume "(if closed_name i = wip_name (a_id a) then Some (frames (ds @ [data]))
       else file_at (sl_disk l) (closed_name i)) = Some c"
    then show "\<exists>ds. list_all frameable ds \<and> c = frames ds"
      using log_inv_frames [OF assms(1)] by simp
  qed
qed

lemma seg_payloads_active:
  assumes "log_inv l" "sl_active l = Some a"
    and "file_at (sl_disk l) (wip_name (a_id a)) = Some (frames ds)" "list_all frameable ds"
  shows "seg_payloads (sl_disk l) (a_id a) = ds"
  using assms log_inv_active [OF assms(1,2)]
  by (simp add: seg_payloads_def seg_bytes_def active_ok_def decode_frames)

lemma log_payloads_written:
  assumes "log_inv l" "sl_active l = Some a" "frameable data"
    and fit: "unat (total_bytes l) + (4 + length data) < 2 ^ 64"
  shows "log_payloads (written l a data) = log_payloads l @ [data]"
proof -
  let ?l = "written l a data"
  from assms have a: "active_ok l a" by (simp add: log_inv_active)
  then obtain ds where ds: "file_at (sl_disk l) (wip_name (a_id a)) = Some (frames ds)"
    "list_all frameable ds" and p: "a_path a = wip_name (a_id a)"
    and nx: "next_seg_id l = a_id a + 1" "a_id a < a_id a + 1"
    by (auto simp: active_ok_def)
  have "a_id a \<noteq> - 1" using nx(2) by auto
  then have un: "unat (next_seg_id l) = Suc (unat (a_id a))"
    using nx(1) less_next(3) by simp
  have f: "file_at (sl_disk ?l) (wip_name (a_id a)) = Some (frames (ds @ [data]))"
    using ds by (simp add: written_file p)
  obtain b where b: "sl_active ?l = Some b" "a_id b = a_id a" by (simp add: written_def)
  have new: "seg_payloads (sl_disk ?l) (a_id a) = ds @ [data]"
    using seg_payloads_active [OF log_inv_written [OF assms] b(1), of "ds @ [data]"] f ds(2) assms(3)
    by (simp add: b(2))
  have old: "seg_payloads (sl_disk l) (a_id a) = ds"
    using seg_payloads_active [OF assms(1,2) ds] .
  have rest: "seg_payloads (sl_disk ?l) (of_nat k) = seg_payloads (sl_disk l) (of_nat k)"
    if "k < unat (a_id a)" for k
  proof -
    have "k < 2 ^ 64" using that unat_u64_less [of "a_id a"] by simp
    then have "unat (of_nat k :: u64) = k" by (rule unat_of_nat_u64)
    with that have "(of_nat k :: u64) \<noteq> a_id a" by auto
    then show ?thesis
      by (simp add: seg_payloads_def seg_bytes_def written_file p cong: option.case_cong)
  qed
  have "next_seg_id ?l = next_seg_id l" by (simp add: written_def)
  moreover have "concat (map (\<lambda>k. seg_payloads (sl_disk ?l) (of_nat k)) [0..<unat (a_id a)]) =
      concat (map (\<lambda>k. seg_payloads (sl_disk l) (of_nat k)) [0..<unat (a_id a)])"
    using rest by (auto intro!: arg_cong [of _ _ concat])
  ultimately show ?thesis by (simp add: log_payloads_def un new old)
qed

definition ready :: "slog \<Rightarrow> byte list \<Rightarrow> slog" where
  "ready l data = (if must_rotate l (of_nat (4 + length data)) then rotated l else l)"

lemma ready_inv:
  assumes "log_inv l" "next_seg_id l \<noteq> - 1"
  shows "log_inv (ready l data)" and "log_payloads (ready l data) = log_payloads l"
    and "total_bytes (ready l data) = total_bytes l" and "\<exists>a. sl_active (ready l data) = Some a"
    and "sl_config (ready l data) = sl_config l"
  using assms log_inv_rotated log_payloads_rotated
  by (auto simp: ready_def must_rotate_def split: option.splits)

lemma log_append_ok:
  assumes "log_inv l" "next_seg_id l \<noteq> - 1"
    and "length data \<le> max_record_bytes (sl_config l)"
    and "quota_check (lc_quota (sl_config l)) (total_bytes l) (of_nat (4 + length data)) = FitsYes"
  obtains a where "sl_active (ready l data) = Some a"
    "log_append data l = (Inr (receipt_of a data), written (ready l data) a data)"
proof -
  obtain a where a: "sl_active (ready l data) = Some a"
    using ready_inv(4) [OF assms(1,2)] by blast
  have q: "quiet (sl_disk (ready l data))"
    using ready_inv(1) [OF assms(1,2)] by (rule log_inv_quiet)
  obtain p where rot: "rotate l = (Inr p, rotated l)"
    using rotate_eq [OF assms(1)] by blast
  have pre: "(if must_rotate l (of_nat (4 + length data)) then bind_eff rotate (\<lambda>_. return_eff ())
      else return_eff ()) l = (Inr (), ready l data)"
    using rot by (simp add: ready_def bind_eff_def eff_defs)
  have "log_append data l = (Inr (receipt_of a data), written (ready l data) a data)"
    using assms(3,4) pre a q unfolding log_append_def RECORD_HEADER_BYTES_def
    by (simp add: bind_eff_def eff_defs Let_def on_disk_def receipt_of_def written_def
        del: of_nat_add)
  with a show thesis by (rule that)
qed

text \<open>Claim C6: append refines list append.  On a log that satisfies the invariant, with no I/O
  failure, an accepted record is the new last payload of the log, the invariant and the
  quota hold afterwards, and the receipt names the place where it is: the segment holds the
  earlier frames of \<open>r_offset_in_segment\<close> bytes followed by the record's own.  The only
  refusals are an oversized record and an exceeded quota, and they change nothing.\<close>

theorem log_append_refines:
  assumes "log_inv l" and "next_seg_id l \<noteq> - 1" and "max_record_bytes (sl_config l) < 2 ^ 32"
  shows "case log_append data l of
     (Inr r, l') \<Rightarrow>
        log_inv l' \<and> log_payloads l' = log_payloads l @ [data] \<and>
        unat (total_bytes l') = unat (total_bytes l) + 4 + length data \<and>
        total_bytes l' \<le> limit_bytes (lc_quota (sl_config l)) \<and>
        (\<exists>ds. seg_bytes (sl_disk l') (r_segment_id r) = frames ds @ frame data \<and>
           r_offset_in_segment r = of_nat (length (frames ds)) \<and>
           r_record_index r = of_nat (length ds))
   | (Inl e, l') \<Rightarrow>
        l' = l \<and>
        (e = RecordTooLarge (length data) (max_record_bytes (sl_config l)) \<and>
           max_record_bytes (sl_config l) < length data \<or>
         e = QuotaExceeded (total_bytes l) (of_nat (4 + length data))
               (limit_bytes (lc_quota (sl_config l))) \<and>
           unat (limit_bytes (lc_quota (sl_config l))) < unat (total_bytes l) + 4 + length data)"
proof (cases "length data \<le> max_record_bytes (sl_config l)")
  case False
  then show ?thesis by (simp add: log_append_def bind_eff_def eff_defs)
next
  case True
  with assms(3) have fr: "frameable data" and sz: "4 + length data < 2 ^ 64"
    by (simp_all add: frameable_def)
  have un: "unat (of_nat (4 + length data) :: u64) = 4 + length data"
    by (rule unat_of_nat_u64 [OF sz])
  show ?thesis
  proof (cases "quota_check (lc_quota (sl_config l)) (total_bytes l) (of_nat (4 + length data))")
    case (FitsNo n)
    then have "\<not> unat (total_bytes l) + (4 + length data) \<le> unat (limit_bytes (lc_quota (sl_config l)))"
      using quota_check_yes_iff [of "lc_quota (sl_config l)" "total_bytes l" "of_nat (4 + length data)"]
      unfolding un by simp
    then show ?thesis
      using True FitsNo
      by (simp add: log_append_def bind_eff_def eff_defs Let_def RECORD_HEADER_BYTES_def
          del: of_nat_add)
  next
    case FitsYes
    then have fit: "unat (total_bytes l) + (4 + length data) \<le> unat (limit_bytes (lc_quota (sl_config l)))"
      unfolding quota_check_yes_iff un .
    let ?k = "ready l data"
    note k = ready_inv [OF assms(1,2), of data]
    obtain a where a: "sl_active ?k = Some a"
      "log_append data l = (Inr (receipt_of a data), written ?k a data)"
      by (rule log_append_ok [OF assms(1,2) True FitsYes])
    have fit': "unat (total_bytes ?k) + (4 + length data) < 2 ^ 64"
      using fit k(3) unat_u64_less [of "limit_bytes (lc_quota (sl_config l))"] by simp
    note w = log_inv_written [OF k(1) a(1) fr fit'] log_payloads_written [OF k(1) a(1) fr fit']
    have tot: "unat (total_bytes (written ?k a data)) = unat (total_bytes l) + 4 + length data"
      using fit' un k(3) by (simp add: written_def unat_plus_no_wrap del: of_nat_add)
    have "active_ok ?k a" by (rule log_inv_active [OF k(1) a(1)])
    then obtain ds where "file_at (sl_disk ?k) (wip_name (a_id a)) = Some (frames ds)"
      "file_at (sl_disk ?k) (closed_name (a_id a)) = None" "a_path a = wip_name (a_id a)"
      "written_bytes a = of_nat (length (frames ds))" "record_count a = of_nat (length ds)"
      by (auto simp: active_ok_def)
    then have "seg_bytes (sl_disk (written ?k a data)) (a_id a) = frames ds @ frame data \<and>
        written_bytes a = of_nat (length (frames ds)) \<and> record_count a = of_nat (length ds)"
      by (simp add: seg_bytes_def written_file)
    then show ?thesis
      using a(2) w k(2) tot fit by (auto simp: receipt_of_def word_le_nat_alt)
  qed
qed

lemma log_inv_new:
  "log_inv (slog_new c (disk_of []))"
  by (simp add: log_inv_def slog_new_def disk_of_def quiet_def file_at_def log_size_def)

theorem log_append_refines_witness:
  "\<exists>r l'. log_append [7, 8, 9] (slog_new log_config_defaults (disk_of [])) = (Inr r, l') \<and>
     log_payloads l' = [[7, 8, 9]]"
proof -
  let ?l = "slog_new log_config_defaults (disk_of [])"
  have *: "quota_check (lc_quota (sl_config ?l)) (total_bytes ?l) (of_nat (4 + length [7, 8, 9 :: byte]))
      = FitsYes"
    by (simp add: quota_check_def slog_new_def log_config_defaults_def quota_new_def checked_add_def)
  have pre: "log_inv ?l" "next_seg_id ?l \<noteq> - 1" "max_record_bytes (sl_config ?l) < 2 ^ 32"
    "length [7, 8, 9 :: byte] \<le> max_record_bytes (sl_config ?l)"
    using log_inv_new by (simp_all add: slog_new_def log_config_defaults_def)
  obtain a where "log_append [7, 8, 9] ?l = (Inr (receipt_of a [7, 8, 9]), written (ready ?l [7, 8, 9]) a [7, 8, 9])"
    by (rule log_append_ok [OF pre(1,2,4) *])
  moreover have "log_payloads ?l = []" by (simp add: log_payloads_def slog_new_def)
  ultimately show ?thesis
    using log_append_refines [OF pre(1-3), of "[7, 8, 9]"] by auto
qed

end
