(* ===== verification/Segment_Log_Recovery.thy ===== *)
theory Segment_Log_Recovery
  imports Segment_Log_Refine
begin

text \<open>
  Restarting, evicting and failing: \<open>log_open\<close> after a clean shutdown and after a crash,
  \<open>evict_oldest_closed\<close>, and what a failed write leaves behind.
\<close>

section \<open>Iterating over a directory\<close>

definition no_wip :: "string \<Rightarrow> bool" where
  "no_wip n \<longleftrightarrow> \<not> ends_with n (''.'' @ WIP_EXT)"

lemma quarantine_skip:
  "(\<And>n. n \<in> set ns \<Longrightarrow> no_wip n) \<Longrightarrow> for_each quarantine_step ns q l = (Inr q, l)"
  by (induction ns) (simp_all add: quarantine_step_def no_wip_def bind_eff_def eff_defs)

lemma quarantine_one:
  assumes "quiet (sl_disk l)" "file_at (sl_disk l) (wip_name i) = Some c"
  shows "quarantine_step (wip_name i) q l =
    (Inr (q + of_nat (length c)), l\<lparr>sl_disk := (sl_disk l)\<lparr>files :=
       al_upd (quar_name i) c (al_del (wip_name i) (files (sl_disk l)))\<rparr>\<rparr>)"
  using assms
  by (simp add: quarantine_step_def bind_eff_def eff_defs on_disk_def)
    (simp add: wip_name_def)

lemma measure_one:
  assumes "quiet (sl_disk l)" "file_at (sl_disk l) n = Some c"
  shows "measure_step n (h, t) l = (Inr
    (if ends_with n (''.'' @ SEG_EXT) \<or> ends_with n (''.'' @ QUARANTINE_EXT)
     then (case parse_segment_id n of
              None \<Rightarrow> h
            | Some i \<Rightarrow> Some (case h of None \<Rightarrow> i | Some h \<Rightarrow> max h i),
           t + of_nat (length c))
     else (h, t)), l)"
  using assms
  by (auto simp: measure_step_def bind_eff_def eff_defs on_disk_def split: option.split)

text \<open>What the measuring loop computes: the highest identifier and the total size.\<close>

definition highest_ok :: "u64 option \<Rightarrow> string list \<Rightarrow> bool" where
  "highest_ok h ns \<longleftrightarrow>
     (\<forall>n i. n \<in> set ns \<and> no_wip n \<and> is_log_name n \<and> parse_segment_id n = Some i \<longrightarrow>
        (\<exists>m. h = Some m \<and> i \<le> m)) \<and>
     (\<forall>m. h = Some m \<longrightarrow> (\<exists>n \<in> set ns. is_log_name n \<and> no_wip n \<and> parse_segment_id n = Some m))"

lemma wip_state: "is_log_name n \<and> no_wip n \<longleftrightarrow>
   ends_with n (''.'' @ SEG_EXT) \<or> ends_with n (''.'' @ QUARANTINE_EXT)"
proof -
  have l: "last n = last p" if "ends_with n p" "p \<noteq> []" for p
    using that by (auto simp: ends_with_iff)
  have "ends_with n (''.'' @ SEG_EXT) \<Longrightarrow> no_wip n" "ends_with n (''.'' @ QUARANTINE_EXT) \<Longrightarrow> no_wip n"
    using l [of "''.'' @ SEG_EXT"] l [of "''.'' @ QUARANTINE_EXT"] l [of "''.'' @ WIP_EXT"]
    by (auto simp: no_wip_def SEG_EXT_def WIP_EXT_def QUARANTINE_EXT_def)
  then show ?thesis
    by (simp add: is_log_name_def segment_state_of_def no_wip_def)
qed

lemma measure_all:
  assumes "quiet (sl_disk l)" "distinct (map fst fs)"
    and "\<And>n c. (n, c) \<in> set fs \<Longrightarrow> file_at (sl_disk l) n = Some c \<and> no_wip n"
    and "highest_ok h ns"
  shows "\<exists>h'. for_each measure_step (map fst fs) (h, t) l =
      (Inr (h', t + of_nat (log_size fs)), l) \<and> highest_ok h' (ns @ map fst fs)"
  using assms(2-)
proof (induction fs arbitrary: h t ns)
  case Nil
  then show ?case by (simp add: eff_defs log_size_def)
next
  case (Cons p fs)
  obtain n c where p: "p = (n, c)" by (cases p)
  have n: "file_at (sl_disk l) n = Some c" "no_wip n" using Cons.prems(2) [of n c] p by simp_all
  let ?log = "is_log_name n"
  define h1 where "h1 = (if ?log then (case parse_segment_id n of None \<Rightarrow> h
      | Some i \<Rightarrow> Some (case h of None \<Rightarrow> i | Some k \<Rightarrow> max k i)) else h)"
  have step: "measure_step n (h, t) l = (Inr (h1, t + of_nat (name_size n c)), l)"
    using measure_one [OF assms(1) n(1), of h t] wip_state [of n] n(2)
    by (auto simp: h1_def name_size_def)
  have "highest_ok h1 (ns @ [n])"
    using Cons.prems(3) n(2) unfolding highest_ok_def h1_def
    by (fastforce split: option.splits if_splits simp: max_def)
  from Cons.IH [OF _ _ this, of "t + of_nat (name_size n c)"] Cons.prems
  obtain h' where "for_each measure_step (map fst fs) (h1, t + of_nat (name_size n c)) l =
      (Inr (h', t + of_nat (name_size n c) + of_nat (log_size fs)), l)"
    "highest_ok h' ((ns @ [n]) @ map fst fs)" by auto
  moreover have "log_size (p # fs) = name_size n c + log_size fs"
    by (simp add: p log_size_def)
  ultimately show ?case using step by (auto simp: p bind_eff_def add.assoc)
qed

section \<open>Reopening\<close>

text \<open>The directory a restart leaves: the in-progress segment, if any, is set aside whole.\<close>

definition recovered_files :: "slog \<Rightarrow> (string \<times> byte list) list" where
  "recovered_files l = (case sl_active l of
      None \<Rightarrow> files (sl_disk l)
    | Some a \<Rightarrow>
        al_upd (quar_name (a_id a)) (the (file_at (sl_disk l) (wip_name (a_id a))))
          (al_del (wip_name (a_id a)) (files (sl_disk l))))"

definition wip_bytes :: "slog \<Rightarrow> nat" where
  "wip_bytes l = (case sl_active l of
      None \<Rightarrow> 0 | Some a \<Rightarrow> length (the (file_at (sl_disk l) (wip_name (a_id a)))))"

lemma log_inv_no_wip:
  assumes "log_inv l" "file_at (sl_disk l) n \<noteq> None"
    and "\<And>a. sl_active l = Some a \<Longrightarrow> n \<noteq> wip_name (a_id a)"
  shows "no_wip n"
proof (rule ccontr)
  assume w: "\<not> no_wip n"
  then have "is_log_name n" by (auto simp: is_log_name_def segment_state_of_def no_wip_def)
  from log_inv_names [OF assms(1,2) this]
  obtain i where i: "n = closed_name i \<or> n = quar_name i \<or> n = wip_name i" by blast
  have "no_wip (closed_name i)" "no_wip (quar_name i)"
    by (simp_all add: no_wip_def closed_name_def quar_name_def WIP_EXT_def ends_with_def)
  with i w have "n = wip_name i" by auto
  with assms log_inv_wip [OF assms(1), of i] show False by auto
qed

lemma quarantine_all:
  assumes "log_inv l" and k: "sl_disk k = sl_disk l"
  shows "for_each quarantine_step (map fst (files (sl_disk l))) 0 k =
    (Inr (of_nat (wip_bytes l)), k\<lparr>sl_disk := (sl_disk l)\<lparr>files := recovered_files l\<rparr>\<rparr>)"
proof (cases "sl_active l")
  case None
  then have "no_wip n" if "n \<in> set (map fst (files (sl_disk l)))" for n
    using that log_inv_no_wip [OF assms(1), of n]
    by (simp add: file_at_def map_of_eq_None_iff)
  then show ?thesis
    using None k by (subst quarantine_skip) (auto simp: wip_bytes_def recovered_files_def)
next
  case (Some a)
  then have a: "active_ok l a" using assms(1) by (simp add: log_inv_active)
  then obtain c where c: "file_at (sl_disk l) (wip_name (a_id a)) = Some c"
    by (auto simp: active_ok_def)
  have dist: "distinct (map fst (files (sl_disk l)))" using assms(1) by (simp add: log_inv_def)
  have "wip_name (a_id a) \<in> set (map fst (files (sl_disk l)))"
    using c by (force simp: file_at_def dest: map_of_SomeD)
  then obtain xs ys where xy: "map fst (files (sl_disk l)) = xs @ wip_name (a_id a) # ys"
    by (meson split_list)
  then have nw: "no_wip n" if "n \<in> set xs \<union> set ys" for n
  proof -
    have "n \<in> set (map fst (files (sl_disk l)))" "n \<noteq> wip_name (a_id a)"
      using that xy dist by auto
    then show ?thesis
      using log_inv_no_wip [OF assms(1), of n] Some by (simp add: file_at_def map_of_eq_None_iff)
  qed
  have "quarantine_step (wip_name (a_id a)) 0 k =
      (Inr (0 + of_nat (length c)), k\<lparr>sl_disk := (sl_disk k)\<lparr>files :=
         al_upd (quar_name (a_id a)) c (al_del (wip_name (a_id a)) (files (sl_disk k)))\<rparr>\<rparr>)"
    by (rule quarantine_one) (use c k assms in \<open>simp_all add: log_inv_quiet\<close>)
  then show ?thesis
    using c Some nw k
    by (simp add: xy for_each_append bind_eff_def quarantine_skip recovered_files_def wip_bytes_def)
qed

lemma recovered_file:
  assumes "log_inv l"
  shows "map_of (recovered_files l) n =
    (case sl_active l of
       None \<Rightarrow> file_at (sl_disk l) n
     | Some a \<Rightarrow> if n = quar_name (a_id a) then file_at (sl_disk l) (wip_name (a_id a))
                 else if n = wip_name (a_id a) then None else file_at (sl_disk l) n)"
  using log_inv_active [OF assms]
  by (auto simp: recovered_files_def file_at_def active_ok_def split: option.splits)

lemma recovered_distinct: "log_inv l \<Longrightarrow> distinct (map fst (recovered_files l))"
  by (simp add: recovered_files_def log_inv_def split: option.split)

lemma recovered_size:
  assumes "log_inv l"
  shows "log_size (recovered_files l) = log_size (files (sl_disk l))"
proof (cases "sl_active l")
  case None
  then show ?thesis by (simp add: recovered_files_def)
next
  case (Some a)
  then have a: "active_ok l a" using assms by (simp add: log_inv_active)
  then obtain c where c: "file_at (sl_disk l) (wip_name (a_id a)) = Some c"
    by (auto simp: active_ok_def)
  let ?fs = "files (sl_disk l)"
  have "log_size (al_del (wip_name (a_id a)) ?fs) + length c = log_size ?fs"
    using log_size_del [of ?fs "wip_name (a_id a)"] assms c
    by (simp add: log_inv_def size_at_def file_at_def name_size_def)
  moreover have "log_size (al_upd (quar_name (a_id a)) c (al_del (wip_name (a_id a)) ?fs))
      = log_size (al_del (wip_name (a_id a)) ?fs) + length c"
    using log_size_upd [of "quar_name (a_id a)" c "al_del (wip_name (a_id a)) ?fs"] a
    by (simp add: size_at_def active_ok_def file_at_def name_size_def)
  ultimately show ?thesis using Some c by (simp add: recovered_files_def)
qed

lemma recovered_no_wip:
  assumes "log_inv l" "map_of (recovered_files l) n = Some c"
  shows "no_wip n"
proof (cases "\<exists>a. sl_active l = Some a \<and> n = quar_name (a_id a)")
  case True
  then show ?thesis by (auto simp: no_wip_def quar_name_def WIP_EXT_def ends_with_def)
next
  case False
  then have "file_at (sl_disk l) n \<noteq> None" "\<And>a. sl_active l = Some a \<Longrightarrow> n \<noteq> wip_name (a_id a)"
    using assms(2) by (auto simp: recovered_file [OF assms(1)] split: option.splits if_splits)
  then show ?thesis by (rule log_inv_no_wip [OF assms(1)])
qed

definition reopened :: "log_config \<Rightarrow> slog \<Rightarrow> u64 option \<Rightarrow> slog" where
  "reopened c l h = \<lparr>sl_config = c, sl_active = None, total_bytes = total_bytes l,
     next_seg_id = (case h of None \<Rightarrow> 0 | Some m \<Rightarrow> m + 1),
     quarantined_at_open = of_nat (wip_bytes l),
     sl_disk = (sl_disk l)\<lparr>files := recovered_files l\<rparr>\<rparr>"

lemma log_open_eq:
  assumes "log_inv l"
  shows "\<exists>h. log_open c (sl_disk l) = (Inr (reopened c l h), sl_disk (reopened c l h)) \<and>
    highest_ok h (map fst (recovered_files l))"
proof -
  let ?k = "slog_new c (sl_disk l)"
  let ?k1 = "?k\<lparr>sl_disk := (sl_disk l)\<lparr>files := recovered_files l\<rparr>\<rparr>"
  have q: "quiet (sl_disk l)" "quiet (sl_disk ?k1)" using assms by (simp_all add: log_inv_quiet)
  have "\<exists>h. for_each measure_step (map fst (recovered_files l)) (None, 0) ?k1 =
      (Inr (h, 0 + of_nat (log_size (recovered_files l))), ?k1) \<and>
      highest_ok h ([] @ map fst (recovered_files l))"
  proof (rule measure_all [OF q(2) recovered_distinct [OF assms]])
    fix n x
    assume "(n, x) \<in> set (recovered_files l)"
    then have "map_of (recovered_files l) n = Some x"
      using recovered_distinct [OF assms] by (simp add: map_of_is_SomeI)
    then show "file_at (sl_disk ?k1) n = Some x \<and> no_wip n"
      using recovered_no_wip [OF assms] by (simp add: file_at_def)
  next
    show "highest_ok None []" by (simp add: highest_ok_def)
  qed
  then obtain h where h: "for_each measure_step (map fst (recovered_files l)) (None, 0) ?k1 =
      (Inr (h, of_nat (log_size (recovered_files l))), ?k1)"
    "highest_ok h (map fst (recovered_files l))" by auto
  have tot: "of_nat (log_size (recovered_files l)) = total_bytes l"
  proof -
    have "unat (total_bytes l) = log_size (recovered_files l)"
      using assms recovered_size [OF assms] by (simp add: log_inv_def)
    then show ?thesis by (metis of_nat_unat ucast_id)
  qed
  have k: "sl_disk ?k = sl_disk l" by (simp add: slog_new_def)
  show ?thesis
    using h q k quarantine_all [OF assms k]
    by (auto simp: log_open_def bind_eff_def eff_defs on_disk_def on_disk_as_def io_create_dir_def
        reopened_def slog_new_def tot intro!: exI [of _ h])
qed

lemma reopened_file: "file_at (sl_disk (reopened c l h)) n = map_of (recovered_files l) n"
  by (simp add: reopened_def file_at_def)

lemma recovered_names:
  assumes "log_inv l" "map_of (recovered_files l) n = Some x" "is_log_name n"
  shows "\<exists>i. i < next_seg_id l \<and> (n = closed_name i \<or> n = quar_name i)"
proof (cases "\<exists>a. sl_active l = Some a \<and> n = quar_name (a_id a)")
  case True
  then show ?thesis using log_inv_active [OF assms(1)] by (auto simp: active_ok_def)
next
  case False
  then have "file_at (sl_disk l) n \<noteq> None"
    using assms(2) by (auto simp: recovered_file [OF assms(1)] split: option.splits if_splits)
  then obtain i where i: "i < next_seg_id l" "n = closed_name i \<or> n = quar_name i \<or> n = wip_name i"
    using log_inv_names [OF assms(1) _ assms(3)] by blast
  moreover have "n \<noteq> wip_name i"
    using recovered_no_wip [OF assms(1,2)]
    by (auto simp: no_wip_def wip_name_def)
  ultimately show ?thesis by blast
qed

lemma reopened_next:
  assumes "log_inv l" "highest_ok h (map fst (recovered_files l))"
    and "map_of (recovered_files l) n = Some x" "is_log_name n" "parse_segment_id n = Some i"
  shows "i < next_seg_id (reopened c l h)"
proof -
  have "n \<in> set (map fst (recovered_files l))" "no_wip n"
    using assms(3) recovered_no_wip [OF assms(1,3)] by (force dest: map_of_SomeD)+
  then obtain m where m: "h = Some m" "i \<le> m"
    using assms(2,4,5) unfolding highest_ok_def by blast
  then obtain n' where n': "n' \<in> set (map fst (recovered_files l))" "is_log_name n'"
    "parse_segment_id n' = Some m"
    using assms(2) unfolding highest_ok_def by blast
  then obtain x' where "map_of (recovered_files l) n' = Some x'"
    by (metis list.set_map map_of_eq_None_iff not_None_eq)
  from recovered_names [OF assms(1) this n'(2)] n'(3) have "m < next_seg_id l" by auto
  then have "m \<noteq> - 1" by (auto simp: word_order.extremum_strict)
  then show ?thesis
    using m less_next(1) [of m] by (simp add: reopened_def)
qed

lemma log_inv_reopened:
  assumes "log_inv l" "highest_ok h (map fst (recovered_files l))"
  shows "log_inv (reopened c l h)"
  unfolding log_inv_def reopened_file
proof (intro conjI allI impI; (elim conjE)?)
  show "quiet (sl_disk (reopened c l h))" using assms(1) by (simp add: reopened_def log_inv_quiet)
  show "distinct (map fst (files (sl_disk (reopened c l h))))"
    using recovered_distinct [OF assms(1)] by (simp add: reopened_def)
  show "unat (total_bytes (reopened c l h)) = log_size (files (sl_disk (reopened c l h)))"
    using assms(1) recovered_size [OF assms(1)] by (simp add: reopened_def log_inv_def)
next
  fix n
  assume n: "map_of (recovered_files l) n \<noteq> None" "is_log_name n"
  then obtain x where x: "map_of (recovered_files l) n = Some x" by blast
  from recovered_names [OF assms(1) x n(2)]
  obtain i where "n = closed_name i \<or> n = quar_name i" by blast
  moreover from this have "parse_segment_id n = Some i" by auto
  ultimately show "\<exists>i. i < next_seg_id (reopened c l h) \<and>
      (n = closed_name i \<or> n = quar_name i \<or> n = wip_name i)"
    using reopened_next [OF assms x n(2)] by blast
next
  fix i
  assume "map_of (recovered_files l) (wip_name i) \<noteq> None"
  then have "no_wip (wip_name i)" using recovered_no_wip [OF assms(1)] by blast
  then show "\<exists>a. sl_active (reopened c l h) = Some a \<and> a_id a = i"
    by (simp add: no_wip_def wip_name_def)
next
  fix a assume "sl_active (reopened c l h) = Some a"
  then show "active_ok (reopened c l h) a" by (simp add: reopened_def)
next
  fix i x
  assume "map_of (recovered_files l) (closed_name i) = Some x"
  then show "\<exists>ds. list_all frameable ds \<and> x = frames ds"
    using log_inv_frames [OF assms(1)]
    by (auto simp: recovered_file [OF assms(1)] split: option.splits)
qed

text \<open>Claim C8 (OPS-16, crash recovery): opening the directory of a running log that was never
  closed always succeeds.  Every closed segment is untouched, the in-progress segment is set
  aside byte for byte under its quarantine name and its size reported, the accounted total
  is the same, the new log satisfies the invariant, and its next identifier lies above
  every segment on disk.\<close>

theorem crash_recovery:
  assumes "log_inv l"
  shows "\<exists>l'. log_open c (sl_disk l) = (Inr l', sl_disk l') \<and> log_inv l' \<and>
     sl_active l' = None \<and> total_bytes l' = total_bytes l \<and>
     quarantined_at_open l' = of_nat (wip_bytes l) \<and>
     (\<forall>i. file_at (sl_disk l') (closed_name i) = file_at (sl_disk l) (closed_name i)) \<and>
     (\<forall>a. sl_active l = Some a \<longrightarrow>
        file_at (sl_disk l') (quar_name (a_id a)) = file_at (sl_disk l) (wip_name (a_id a)) \<and>
        file_at (sl_disk l') (wip_name (a_id a)) = None \<and> a_id a < next_seg_id l')"
proof -
  obtain h where h: "log_open c (sl_disk l) = (Inr (reopened c l h), sl_disk (reopened c l h))"
    "highest_ok h (map fst (recovered_files l))"
    using log_open_eq [OF assms] by blast
  have "file_at (sl_disk (reopened c l h)) (closed_name i) = file_at (sl_disk l) (closed_name i)" for i
    using log_inv_active [OF assms]
    by (auto simp: reopened_file recovered_file [OF assms] split: option.split)
  moreover have "file_at (sl_disk (reopened c l h)) (quar_name (a_id a)) =
        file_at (sl_disk l) (wip_name (a_id a)) \<and>
      file_at (sl_disk (reopened c l h)) (wip_name (a_id a)) = None \<and>
      a_id a < next_seg_id (reopened c l h)"
    if a: "sl_active l = Some a" for a
  proof -
    have f: "map_of (recovered_files l) (quar_name (a_id a)) = file_at (sl_disk l) (wip_name (a_id a))"
      using a by (simp add: recovered_file [OF assms])
    moreover have "file_at (sl_disk l) (wip_name (a_id a)) \<noteq> None"
      using log_inv_active [OF assms a] by (auto simp: active_ok_def)
    then obtain x where "map_of (recovered_files l) (quar_name (a_id a)) = Some x"
      unfolding f by blast
    from reopened_next [OF assms h(2) this] have "a_id a < next_seg_id (reopened c l h)"
      by simp
    moreover have "map_of (recovered_files l) (wip_name (a_id a)) = None"
      using a by (simp add: recovered_file [OF assms])
    ultimately show ?thesis by (simp add: reopened_file)
  qed
  ultimately show ?thesis
    using h(1) log_inv_reopened [OF assms h(2)]
    by (intro exI [of _ "reopened c l h"]) (simp add: reopened_def)
qed

theorem crash_recovery_witness:
  "\<exists>l'. log_open log_config_defaults (sl_disk (rotated (slog_new log_config_defaults (disk_of [])))) =
       (Inr l', sl_disk l') \<and>
     file_at (sl_disk l') (quar_name 0) = Some [] \<and> 0 < next_seg_id l'"
proof -
  let ?l = "rotated (slog_new log_config_defaults (disk_of []))"
  have "log_inv ?l"
    by (rule log_inv_rotated [OF log_inv_new]) (simp add: slog_new_def)
  moreover have "sl_active ?l = Some (fresh_active 0)" "file_at (sl_disk ?l) (wip_name 0) = Some []"
    by (simp_all add: slog_new_def rotated_file)
  ultimately show ?thesis
    using crash_recovery [of ?l log_config_defaults] by (auto simp: fresh_active_def)
qed

section \<open>Clean shutdown\<close>

lemma concat_cut:
  assumes "\<And>k. m \<le> k \<Longrightarrow> k < n \<Longrightarrow> f k = []" "m \<le> n"
  shows "concat (map f [0..<n]) = concat (map f [0..<m])"
proof -
  have "[0..<n] = [0..<m] @ [m..<n]" using assms(2) by (metis le_add_diff_inverse upt_add_eq_append zero_le)
  moreover have "concat (map f [m..<n]) = []" using assms(1) by simp
  ultimately show ?thesis by simp
qed

text \<open>The log that \<open>close\<close> leaves: the active segment closed, the fresh one removed.\<close>

definition shut :: "slog \<Rightarrow> slog" where
  "shut l = (case sl_active l of
      None \<Rightarrow> l
    | Some a \<Rightarrow> l\<lparr>sl_active := None, next_seg_id := next_seg_id l + 1,
        sl_disk := (sl_disk l)\<lparr>files :=
          al_del (wip_name (next_seg_id l)) (al_upd (wip_name (next_seg_id l)) [] (closed_files l))\<rparr>\<rparr>)"

lemma log_close_eq:
  assumes "log_inv l"
  shows "log_close l = (Inr (), shut l)"
proof (cases "sl_active l")
  case None
  then show ?thesis by (simp add: log_close_def bind_eff_def eff_defs shut_def)
next
  case (Some a)
  obtain p where p: "rotate l = (Inr p, rotated l)" using rotate_eq [OF assms] by blast
  have q: "quiet (sl_disk (rotated l))" using assms by (simp add: rotated_def log_inv_quiet)
  have f: "file_at (sl_disk (rotated l)) (wip_name (next_seg_id l)) = Some []"
    by (simp add: rotated_file)
  have "io_remove (wip_name (next_seg_id l)) (sl_disk (rotated l)) =
      (Inr (), (sl_disk (rotated l))\<lparr>files := al_del (wip_name (next_seg_id l)) (files (sl_disk (rotated l)))\<rparr>)"
    by (rule io_remove_quiet [OF q f])
  then show ?thesis
    using Some p by (simp add: log_close_def bind_eff_def eff_defs shut_def fresh_active_def)
      (simp add: rotated_def)
qed

lemma shut_file:
  assumes "log_inv l"
  shows "file_at (sl_disk (shut l)) n = map_of (closed_files l) n"
proof -
  have "map_of (closed_files l) (wip_name (next_seg_id l)) = None"
    by (rule closed_files_wip [OF assms])
  then show ?thesis by (auto simp: shut_def closed_files_def file_at_def split: option.split)
qed

lemma seg_bytes_closed_files:
  assumes "log_inv l" "\<And>n. file_at d n = map_of (closed_files l) n"
  shows "seg_bytes d i = seg_bytes (sl_disk l) i"
proof (cases "sl_active l")
  case None
  then show ?thesis using assms by (simp add: seg_bytes_def file_at_closed_files cong: option.case_cong)
next
  case (Some a)
  then have "active_ok l a" using assms(1) by (simp add: log_inv_active)
  then show ?thesis
    using Some
    by (auto simp: seg_bytes_def assms(2) file_at_closed_files [OF assms(1)] active_ok_def
        split: option.split)
qed

lemma log_inv_shut:
  assumes "log_inv l" "next_seg_id l \<noteq> - 1"
  shows "log_inv (shut l)"
proof (cases "sl_active l")
  case None
  then show ?thesis using assms by (simp add: shut_def)
next
  case (Some a)
  have f: "file_at (sl_disk (shut l)) n = map_of (closed_files l) n" for n
    by (rule shut_file [OF assms(1)])
  have d: "distinct (map fst (closed_files l))"
    using assms(1) by (simp add: closed_files_def log_inv_def split: option.split)
  let ?w = "wip_name (next_seg_id l)"
  have "log_size (al_upd ?w [] (closed_files l)) = log_size (closed_files l)"
    using log_size_upd [of ?w "[]" "closed_files l"] closed_files_wip [OF assms(1)]
    by (simp add: size_at_def name_size_def)
  moreover have "log_size (al_del ?w (al_upd ?w [] (closed_files l))) = log_size (al_upd ?w [] (closed_files l))"
    using log_size_del [of "al_upd ?w [] (closed_files l)" ?w] d by (simp add: size_at_def name_size_def)
  ultimately have sz: "log_size (files (sl_disk (shut l))) = log_size (files (sl_disk l))"
    using Some log_size_closed_files [OF assms(1)] by (simp add: shut_def)
  have fields: "next_seg_id (shut l) = next_seg_id l + 1" "sl_active (shut l) = None"
    "total_bytes (shut l) = total_bytes l" using Some by (simp_all add: shut_def)
  show ?thesis
    unfolding log_inv_def f fields
  proof (intro conjI allI impI; (elim conjE)?)
    show "quiet (sl_disk (shut l))" using assms(1) Some by (simp add: shut_def log_inv_quiet)
    show "distinct (map fst (files (sl_disk (shut l))))" using d Some by (simp add: shut_def)
    show "unat (total_bytes l) = log_size (files (sl_disk (shut l)))"
      using sz assms(1) by (simp add: log_inv_def)
  next
    fix n assume "map_of (closed_files l) n \<noteq> None" "is_log_name n"
    from closed_files_names [OF assms(1) this]
    show "\<exists>i. i < next_seg_id l + 1 \<and> (n = closed_name i \<or> n = quar_name i \<or> n = wip_name i)"
      using less_next(2) [OF assms(2)] by blast
  next
    fix i assume "map_of (closed_files l) (wip_name i) \<noteq> None"
    then show "\<exists>a. None = Some a \<and> a_id a = i" using closed_files_wip [OF assms(1)] by simp
  next
    fix i c assume "map_of (closed_files l) (closed_name i) = Some c"
    then show "\<exists>ds. list_all frameable ds \<and> c = frames ds"
      by (rule closed_files_frames [OF assms(1)])
  qed simp
qed

lemma log_payloads_shut:
  assumes "log_inv l" "next_seg_id l \<noteq> - 1"
  shows "log_payloads (shut l) = log_payloads l"
proof (cases "sl_active l")
  case None
  then show ?thesis by (simp add: shut_def)
next
  case (Some a)
  have "seg_payloads (sl_disk (shut l)) i = seg_payloads (sl_disk l) i" for i
    by (simp add: seg_payloads_def seg_bytes_closed_files [OF assms(1) shut_file [OF assms(1)]])
  moreover have "seg_payloads (sl_disk l) (next_seg_id l) = []"
    using log_inv_fresh [OF assms(1)] by (simp add: seg_payloads_def seg_bytes_def)
  moreover have "next_seg_id (shut l) = next_seg_id l + 1" using Some by (simp add: shut_def)
  ultimately show ?thesis
    using less_next(3) [OF assms(2)] by (simp add: log_payloads_def)
qed

lemma reopened_next_le:
  assumes "log_inv l" "highest_ok h (map fst (recovered_files l))"
  shows "next_seg_id (reopened c l h) \<le> next_seg_id l"
proof (cases h)
  case None
  then show ?thesis by (simp add: reopened_def)
next
  case (Some m)
  then obtain n where n: "n \<in> set (map fst (recovered_files l))" "is_log_name n"
    "parse_segment_id n = Some m"
    using assms(2) unfolding highest_ok_def by blast
  then obtain x where "map_of (recovered_files l) n = Some x"
    by (metis list.set_map map_of_eq_None_iff not_None_eq)
  from recovered_names [OF assms(1) this n(2)] n(3) have m: "m < next_seg_id l" by auto
  then have "m \<noteq> - 1" by (auto simp: word_order.extremum_strict)
  then have "unat (m + 1) \<le> unat (next_seg_id l)"
    using m less_next(3) [of m] by (simp add: word_less_nat_alt)
  then show ?thesis using Some by (simp add: reopened_def word_le_nat_alt)
qed

lemma log_payloads_reopened:
  assumes "log_inv l" "highest_ok h (map fst (recovered_files l))" "sl_active l = None"
  shows "log_payloads (reopened c l h) = log_payloads l"
proof -
  let ?l = "reopened c l h"
  have d: "sl_disk ?l = sl_disk l" using assms(3) by (simp add: reopened_def recovered_files_def)
  have "seg_payloads (sl_disk l) (of_nat k) = []"
    if k: "unat (next_seg_id ?l) \<le> k" "k < unat (next_seg_id l)" for k
  proof -
    have "unat (of_nat k :: u64) = k"
      using k(2) unat_u64_less [of "next_seg_id l"] by (intro unat_of_nat_u64) simp
    then have k': "\<not> of_nat k < next_seg_id ?l" using k(1) by (simp add: word_less_nat_alt)
    have "file_at (sl_disk l) (closed_name (of_nat k)) = None"
    proof (rule ccontr)
      assume "file_at (sl_disk l) (closed_name (of_nat k)) \<noteq> None"
      then obtain x where "map_of (recovered_files l) (closed_name (of_nat k)) = Some x"
        using assms(3) by (auto simp: recovered_file [OF assms(1)])
      from reopened_next [OF assms(1,2) this] k' show False by simp
    qed
    moreover have "file_at (sl_disk l) (wip_name (of_nat k)) = None"
      using log_inv_wip [OF assms(1), of "of_nat k"] assms(3)
      by (cases "file_at (sl_disk l) (wip_name (of_nat k))") auto
    ultimately show ?thesis by (simp add: seg_payloads_def seg_bytes_def)
  qed
  moreover have "unat (next_seg_id ?l) \<le> unat (next_seg_id l)"
    using reopened_next_le [OF assms(1,2)] by (simp add: word_le_nat_alt)
  ultimately show ?thesis
    unfolding log_payloads_def d
    by (intro concat_cut [symmetric, of "unat (next_seg_id ?l)"]) auto
qed

text \<open>Claim C11 (durability): after a clean shutdown nothing is quarantined on the next start and the
  reopened log holds exactly the payloads it held before, in the same order.\<close>

theorem clean_restart_keeps_payloads:
  assumes "log_inv l" and "next_seg_id l \<noteq> - 1"
  shows "\<exists>l1 l2. log_close l = (Inr (), l1) \<and> log_open c (sl_disk l1) = (Inr l2, sl_disk l2) \<and>
     log_inv l2 \<and> quarantined_at_open l2 = 0 \<and> total_bytes l2 = total_bytes l \<and>
     log_payloads l2 = log_payloads l"
proof -
  note s = log_inv_shut [OF assms]
  have a: "sl_active (shut l) = None" "total_bytes (shut l) = total_bytes l"
    by (simp_all add: shut_def split: option.split)
  obtain h where h: "log_open c (sl_disk (shut l)) =
      (Inr (reopened c (shut l) h), sl_disk (reopened c (shut l) h))"
    "highest_ok h (map fst (recovered_files (shut l)))"
    using log_open_eq [OF s] by blast
  have "quarantined_at_open (reopened c (shut l) h) = 0"
    "total_bytes (reopened c (shut l) h) = total_bytes l"
    using a by (simp_all add: reopened_def wip_bytes_def)
  with h log_close_eq [OF assms(1)] log_inv_reopened [OF s h(2)]
    log_payloads_reopened [OF s h(2) a(1), of c] log_payloads_shut [OF assms]
  show ?thesis by (intro exI [of _ "shut l"] exI [of _ "reopened c (shut l) h"]) simp
qed

theorem clean_restart_keeps_payloads_witness:
  "\<exists>l1 l2. log_close (rotated (slog_new log_config_defaults (disk_of []))) = (Inr (), l1) \<and>
     log_open log_config_defaults (sl_disk l1) = (Inr l2, sl_disk l2) \<and> log_inv l2"
proof -
  let ?l = "rotated (slog_new log_config_defaults (disk_of []))"
  have "log_inv ?l" by (rule log_inv_rotated [OF log_inv_new]) (simp add: slog_new_def)
  moreover have "next_seg_id ?l \<noteq> - 1" by (simp add: slog_new_def)
  ultimately show ?thesis
    using clean_restart_keeps_payloads [of ?l log_config_defaults] by blast
qed

end
