(* ===== verification/Segment_Log_Evict.thy ===== *)
theory Segment_Log_Evict
  imports Segment_Log_Recovery
begin

text \<open>
  Eviction of whole closed segments (the first rung of the eviction ladder) and the listing
  it relies on, and what a write error leaves behind.
\<close>

section \<open>Listing\<close>

definition info_of :: "slog \<Rightarrow> string \<Rightarrow> segment_info list" where
  "info_of l n =
     (case segment_state_of n of
        None \<Rightarrow> []
      | Some st \<Rightarrow>
         (case parse_segment_id n of
            None \<Rightarrow> []
          | Some i \<Rightarrow> [\<lparr>si_seg_id = i, si_path = n,
               si_size_bytes = of_nat (length (the (file_at (sl_disk l) n))),
               si_record_count =
                 (if st = Closed then count_records (the (file_at (sl_disk l) n))
                  else case sl_active l of None \<Rightarrow> 0
                       | Some a \<Rightarrow> if a_id a = i then record_count a else 0),
               si_state = st\<rparr>]))"

lemma segment_step_eq:
  assumes "quiet (sl_disk l)" "file_at (sl_disk l) n = Some c"
  shows "segment_step n out l = (Inr (out @ info_of l n), l)"
  using assms
  by (auto simp: segment_step_def info_of_def bind_eff_def eff_defs on_disk_def
      count_records_best_effort_def split: option.split)

lemma segments_eq:
  assumes "quiet (sl_disk l)"
  shows "segments l =
    (Inr (sort_key si_seg_id (concat (map (info_of l) (map fst (files (sl_disk l)))))), l)"
proof -
  have "for_each segment_step (map fst (files (sl_disk l))) [] l =
      (Inr (fold (\<lambda>n out. out @ info_of l n) (map fst (files (sl_disk l))) []), l)"
  proof (rule for_each_pure)
    fix n out
    assume "n \<in> set (map fst (files (sl_disk l)))"
    then obtain c where "file_at (sl_disk l) n = Some c"
      by (metis file_at_def list.set_map map_of_eq_None_iff not_None_eq)
    then show "segment_step n out l = (Inr (out @ info_of l n), l)"
      by (rule segment_step_eq [OF assms])
  qed
  moreover have "fold (\<lambda>n out. out @ info_of l n) ns out = out @ concat (map (info_of l) ns)" for ns out
    by (induction ns arbitrary: out) auto
  ultimately show ?thesis
    using assms by (simp add: segments_def bind_eff_def eff_defs on_disk_def)
qed

lemma find_sort_key:
  assumes "find P (sort_key f xs) = Some x"
  shows "x \<in> set xs" "P x" "\<And>y. y \<in> set xs \<Longrightarrow> P y \<Longrightarrow> f x \<le> f y"
proof -
  from assms obtain i where i: "i < length (sort_key f xs)" "P (sort_key f xs ! i)"
    "x = sort_key f xs ! i" "\<And>j. j < i \<Longrightarrow> \<not> P (sort_key f xs ! j)"
    by (auto simp: find_Some_iff)
  then show "P x" by simp
  show "x \<in> set xs" using i(1,3) nth_mem [of i "sort_key f xs"] by simp
  fix y assume y: "y \<in> set xs" "P y"
  then obtain k where k: "k < length (sort_key f xs)" "y = sort_key f xs ! k"
    by (metis in_set_conv_nth set_sort)
  with i(4) y(2) have "i \<le> k" by (meson not_le_imp_less)
  moreover have "sorted (map f (sort_key f xs))" by simp
  ultimately show "f x \<le> f y"
    using k i(3) sorted_nth_mono [of "map f (sort_key f xs)" i k] by simp
qed

lemma closed_infos:
  assumes "log_inv l"
  shows "(\<exists>s \<in> set (concat (map (info_of l) (map fst (files (sl_disk l))))).
            si_state s = Closed \<and> si_seg_id s = i) \<longleftrightarrow>
         file_at (sl_disk l) (closed_name i) \<noteq> None"
    and "s \<in> set (concat (map (info_of l) (map fst (files (sl_disk l))))) \<Longrightarrow> si_state s = Closed \<Longrightarrow>
         si_path s = closed_name (si_seg_id s) \<and>
         (\<exists>c. file_at (sl_disk l) (closed_name (si_seg_id s)) = Some c \<and>
              si_size_bytes s = of_nat (length c))"
proof -
  show sub: "si_path s = closed_name (si_seg_id s) \<and>
      (\<exists>c. file_at (sl_disk l) (closed_name (si_seg_id s)) = Some c \<and>
           si_size_bytes s = of_nat (length c))"
    if s: "s \<in> set (concat (map (info_of l) (map fst (files (sl_disk l)))))" "si_state s = Closed" for s
  proof -
    from s(1) obtain n where n: "n \<in> set (map fst (files (sl_disk l)))" "s \<in> set (info_of l n)"
      by auto
    then have st: "segment_state_of n = Some Closed" and f: "si_path s = n"
      "si_size_bytes s = of_nat (length (the (file_at (sl_disk l) n)))"
      "parse_segment_id n = Some (si_seg_id s)"
      using s(2) by (auto simp: info_of_def split: option.splits)
    from n(1) obtain c where c: "file_at (sl_disk l) n = Some c"
      by (metis file_at_def list.set_map map_of_eq_None_iff not_None_eq)
    obtain i where "n = closed_name i \<or> n = quar_name i \<or> n = wip_name i"
      using log_inv_names [OF assms, of n] c st by (auto simp: is_log_name_def)
    with st have "n = closed_name i" by auto
    with f c show ?thesis by auto
  qed
  show "(\<exists>s \<in> set (concat (map (info_of l) (map fst (files (sl_disk l))))).
            si_state s = Closed \<and> si_seg_id s = i) \<longleftrightarrow>
         file_at (sl_disk l) (closed_name i) \<noteq> None" (is "?L \<longleftrightarrow> ?R")
  proof
    assume ?L
    then show ?R using sub by force
  next
    assume ?R
    then have "closed_name i \<in> set (map fst (files (sl_disk l)))"
      by (metis file_at_def list.set_map map_of_eq_None_iff)
    moreover obtain s where s: "s \<in> set (info_of l (closed_name i))" "si_state s = Closed" "si_seg_id s = i"
      by (simp add: info_of_def)
    ultimately have "s \<in> set (concat (map (info_of l) (map fst (files (sl_disk l)))))"
      by (simp only: set_concat set_map) blast
    with s(2,3) show ?L by blast
  qed
qed

section \<open>Eviction\<close>

definition evicted :: "slog \<Rightarrow> u64 \<Rightarrow> slog" where
  "evicted l i = l\<lparr>total_bytes := sat_sub (total_bytes l)
       (of_nat (length (the (file_at (sl_disk l) (closed_name i))))),
     sl_disk := (sl_disk l)\<lparr>files := al_del (closed_name i) (files (sl_disk l))\<rparr>\<rparr>"

lemma evict_eq:
  assumes "log_inv l"
  shows "(\<forall>i. file_at (sl_disk l) (closed_name i) = None) \<and> evict_oldest_closed l = (Inr None, l) \<or>
    (\<exists>i. file_at (sl_disk l) (closed_name i) \<noteq> None \<and>
       (\<forall>j. j < i \<longrightarrow> file_at (sl_disk l) (closed_name j) = None) \<and>
       evict_oldest_closed l = (Inr (Some i), evicted l i))"
proof -
  have q: "quiet (sl_disk l)" using assms by (rule log_inv_quiet)
  let ?xs = "concat (map (info_of l) (map fst (files (sl_disk l))))"
  show ?thesis
  proof (cases "find (\<lambda>s. si_state s = Closed) (sort_key si_seg_id ?xs)")
    case None
    then have "\<not> (\<exists>s \<in> set ?xs. si_state s = Closed)" by (auto simp: find_None_iff)
    then have "file_at (sl_disk l) (closed_name i) = None" for i
      using closed_infos(1) [OF assms, of i] by blast
    then show ?thesis
      using None by (simp add: evict_oldest_closed_def bind_eff_def segments_eq [OF q] eff_defs)
  next
    case (Some s)
    note s = find_sort_key [OF Some]
    obtain c where c: "si_path s = closed_name (si_seg_id s)"
      "file_at (sl_disk l) (closed_name (si_seg_id s)) = Some c"
      "si_size_bytes s = of_nat (length c)"
      using closed_infos(2) [OF assms s(1,2)] by blast
    have "file_at (sl_disk l) (closed_name j) = None" if "j < si_seg_id s" for j
    proof (rule ccontr)
      assume "file_at (sl_disk l) (closed_name j) \<noteq> None"
      then obtain t where "t \<in> set ?xs" "si_state t = Closed" "si_seg_id t = j"
        using closed_infos(1) [OF assms, of j] by blast
      with s(3) that show False by fastforce
    qed
    moreover have "evict_oldest_closed l = (Inr (Some (si_seg_id s)), evicted l (si_seg_id s))"
      using Some c q
      by (simp add: evict_oldest_closed_def bind_eff_def segments_eq [OF q] eff_defs on_disk_def
          evicted_def)
    ultimately show ?thesis using c(2) by blast
  qed
qed

lemma evicted_file:
  "file_at (sl_disk (evicted l i)) n = (if n = closed_name i then None else file_at (sl_disk l) n)"
  by (simp add: evicted_def file_at_def)

lemma evicted_total:
  assumes "log_inv l" "file_at (sl_disk l) (closed_name i) = Some c"
  shows "unat (total_bytes (evicted l i)) + length c = unat (total_bytes l)"
    and "log_size (files (sl_disk (evicted l i))) + length c = log_size (files (sl_disk l))"
proof -
  let ?fs = "files (sl_disk l)"
  show sz: "log_size (files (sl_disk (evicted l i))) + length c = log_size ?fs"
    using log_size_del [of ?fs "closed_name i"] assms
    by (simp add: log_inv_def size_at_def file_at_def name_size_def evicted_def)
  then have "length c \<le> unat (total_bytes l)" using assms(1) by (simp add: log_inv_def)
  moreover from this have "unat (of_nat (length c) :: u64) = length c"
    using unat_u64_less [of "total_bytes l"] by (intro unat_of_nat_u64) simp
  ultimately show "unat (total_bytes (evicted l i)) + length c = unat (total_bytes l)"
    using assms(2) by (simp add: evicted_def unat_sat_sub)
qed

lemma log_inv_evicted:
  assumes "log_inv l" "file_at (sl_disk l) (closed_name i) = Some c"
  shows "log_inv (evicted l i)"
proof -
  have fields: "next_seg_id (evicted l i) = next_seg_id l" "sl_active (evicted l i) = sl_active l"
    by (simp_all add: evicted_def)
  show ?thesis
    unfolding log_inv_def fields
  proof (intro conjI allI impI; (elim conjE)?)
    show "quiet (sl_disk (evicted l i))" using assms(1) by (simp add: evicted_def log_inv_quiet)
    show "distinct (map fst (files (sl_disk (evicted l i))))"
      using assms(1) by (simp add: evicted_def log_inv_def)
    show "unat (total_bytes (evicted l i)) = log_size (files (sl_disk (evicted l i)))"
      using evicted_total [OF assms] assms(1) by (simp add: log_inv_def)
  next
    fix n assume "file_at (sl_disk (evicted l i)) n \<noteq> None" "is_log_name n"
    then show "\<exists>i. i < next_seg_id l \<and> (n = closed_name i \<or> n = quar_name i \<or> n = wip_name i)"
      using log_inv_names [OF assms(1), of n] by (simp add: evicted_file split: if_splits)
  next
    fix j assume "file_at (sl_disk (evicted l i)) (wip_name j) \<noteq> None"
    then show "\<exists>a. sl_active l = Some a \<and> a_id a = j"
      using log_inv_wip [OF assms(1), of j] by (simp add: evicted_file)
  next
    fix a assume "sl_active l = Some a"
    then show "active_ok (evicted l i) a"
      using log_inv_active [OF assms(1)] unfolding active_ok_def evicted_file fields by auto
  next
    fix j c assume "file_at (sl_disk (evicted l i)) (closed_name j) = Some c"
    then show "\<exists>ds. list_all frameable ds \<and> c = frames ds"
      using log_inv_frames [OF assms(1)] by (simp add: evicted_file split: if_splits)
  qed
qed

lemma evicted_next: "next_seg_id (evicted l i) = next_seg_id l"
  by (simp add: evicted_def)

lemma log_payloads_evicted:
  assumes "log_inv l" "file_at (sl_disk l) (closed_name i) = Some c"
    and first: "\<And>j. j < i \<Longrightarrow> file_at (sl_disk l) (closed_name j) = None"
  shows "log_payloads l = seg_payloads (sl_disk l) i @ log_payloads (evicted l i)"
proof -
  let ?f = "\<lambda>k. seg_payloads (sl_disk l) (of_nat k)"
  let ?g = "\<lambda>k. seg_payloads (sl_disk (evicted l i)) (of_nat k)"
  have ilt: "i < next_seg_id l"
    using log_inv_names [OF assms(1), of "closed_name i"] assms(2) by auto
  have wip: "file_at (sl_disk l) (wip_name j) = None" if "j \<le> i" for j
  proof (rule ccontr)
    assume "file_at (sl_disk l) (wip_name j) \<noteq> None"
    from log_inv_wip [OF assms(1) this] obtain a where a: "sl_active l = Some a" "a_id a = j" by blast
    have "active_ok l a" by (rule log_inv_active [OF assms(1) a(1)])
    then have n: "next_seg_id l = j + 1" "j < j + 1" "file_at (sl_disk l) (closed_name j) = None"
      using a(2) by (auto simp: active_ok_def)
    have "j \<noteq> - 1" using n(2) by auto
    then have "unat i < Suc (unat j)" using ilt n(1) less_next(3) by (simp add: word_less_nat_alt)
    with that have "i = j" by (simp add: word_le_nat_alt word_unat_eq_iff)
    with n(3) assms(2) show False by simp
  qed
  have low: "?f k = [] \<and> ?g k = []" if "k < unat i" for k
  proof -
    have "unat (of_nat k :: u64) = k"
      using that unat_u64_less [of i] by (intro unat_of_nat_u64) simp
    then have lt: "of_nat k < i" using that by (simp add: word_less_nat_alt)
    then have "of_nat k \<noteq> i" "of_nat k \<le> i" by auto
    with first [OF lt] wip [of "of_nat k"] show ?thesis
      by (simp add: seg_payloads_def seg_bytes_def evicted_file)
  qed
  have same: "?g k = ?f k" if "unat i < k" "k < unat (next_seg_id l)" for k
  proof -
    have "unat (of_nat k :: u64) = k"
      using that unat_u64_less [of "next_seg_id l"] by (intro unat_of_nat_u64) simp
    then have "of_nat k \<noteq> i" using that by auto
    then show ?thesis
      by (simp add: seg_payloads_def seg_bytes_def evicted_file cong: option.case_cong)
  qed
  have at: "?g (unat i) = []"
    using wip [of i] by (simp add: seg_payloads_def seg_bytes_def evicted_file)
  have ix: "[0..<unat (next_seg_id l)] = [0..<unat i] @ unat i # [Suc (unat i)..<unat (next_seg_id l)]"
    using ilt by (metis le_add_diff_inverse2 less_imp_le upt_add_eq_append upt_conv_Cons
        word_less_nat_alt zero_le add.commute add_0)
  have 1: "concat (map ?f [0..<unat i]) = []" "concat (map ?g [0..<unat i]) = []"
    using low by simp_all
  have 2: "map ?g [Suc (unat i)..<unat (next_seg_id l)] = map ?f [Suc (unat i)..<unat (next_seg_id l)]"
    using same by simp
  have "log_payloads l = concat (map ?f [0..<unat i]) @ ?f (unat i) @
      concat (map ?f [Suc (unat i)..<unat (next_seg_id l)])"
    by (simp only: log_payloads_def ix map_append list.map concat_append concat.simps)
  moreover have "log_payloads (evicted l i) = concat (map ?g [0..<unat i]) @ ?g (unat i) @
      concat (map ?g [Suc (unat i)..<unat (next_seg_id l)])"
    by (simp only: log_payloads_def evicted_next ix map_append list.map concat_append concat.simps)
  ultimately show ?thesis using at by (simp add: 1 2)
qed

text \<open>A log with one closed segment.\<close>

lemma one_closed_segment:
  "\<exists>l. log_inv l \<and> log_payloads l = [[7]] \<and> seg_payloads (sl_disk l) 0 = [[7]] \<and>
     file_at (sl_disk l) (closed_name 0) \<noteq> None"
proof -
  let ?k = "rotated (slog_new log_config_defaults (disk_of []))"
  let ?a = "fresh_active 0"
  let ?w = "written ?k ?a [7]"
  let ?l = "rotated ?w"
  have n: "next_seg_id (slog_new log_config_defaults (disk_of [])) \<noteq> - 1" by (simp add: slog_new_def)
  have k: "log_inv ?k" "sl_active ?k = Some ?a" "total_bytes ?k = 0" "log_payloads ?k = []"
    using log_inv_rotated [OF log_inv_new n] log_payloads_rotated [OF log_inv_new n]
    by (simp_all add: slog_new_def log_payloads_def)
  have w: "log_inv ?w" "log_payloads ?w = [[7]]"
    using log_inv_written [OF k(1,2)] log_payloads_written [OF k(1,2)] k(3,4)
    by (simp_all add: frameable_def)
  have n': "next_seg_id ?w \<noteq> - 1" by (simp add: written_def slog_new_def)
  have l: "log_inv ?l" "log_payloads ?l = [[7]]"
    using log_inv_rotated [OF w(1) n'] log_payloads_rotated [OF w(1) n'] w(2) by simp_all
  have c: "file_at (sl_disk ?l) (closed_name 0) \<noteq> None"
    by (simp add: rotated_file file_at_closed_files [OF w(1)] written_file)
      (simp add: written_def fresh_active_def slog_new_def)
  have "file_at (sl_disk ?k) (closed_name 0) = None" "file_at (sl_disk ?k) (wip_name 0) = Some []"
    by (simp_all add: rotated_file closed_files_def slog_new_def disk_of_def)
  then have "seg_bytes (sl_disk ?w) 0 = frames [[7]]"
    by (simp add: seg_bytes_def written_file fresh_active_def)
  then have "seg_payloads (sl_disk ?l) 0 = [[7]]"
    using decode_frames [of "[[7]]"]
    by (simp add: seg_payloads_def seg_bytes_rotated [OF w(1)] frameable_def del: frames_simps)
  with l c show ?thesis by blast
qed

text \<open>Claim C12 (eviction): without I/O failures eviction never fails.  It reports that there is
  nothing to evict exactly when no closed segment exists and then changes nothing; otherwise
  it removes the closed segment with the lowest identifier and nothing else, releases exactly
  its bytes from the account, keeps the invariant and the active segment, and the payloads
  of the log lose that segment's records, a prefix.\<close>

theorem evict_oldest_closed_correct:
  assumes "log_inv l"
  shows "case evict_oldest_closed l of
     (Inl e, l') \<Rightarrow> False
   | (Inr None, l') \<Rightarrow> l' = l \<and> (\<forall>i. file_at (sl_disk l) (closed_name i) = None)
   | (Inr (Some i), l') \<Rightarrow>
       log_inv l' \<and> sl_active l' = sl_active l \<and>
       (\<exists>c. file_at (sl_disk l) (closed_name i) = Some c \<and>
          unat (total_bytes l') + length c = unat (total_bytes l)) \<and>
       (\<forall>j. j < i \<longrightarrow> file_at (sl_disk l) (closed_name j) = None) \<and>
       (\<forall>n. file_at (sl_disk l') n = (if n = closed_name i then None else file_at (sl_disk l) n)) \<and>
       log_payloads l = seg_payloads (sl_disk l) i @ log_payloads l'"
proof -
  consider (dry) "\<forall>i. file_at (sl_disk l) (closed_name i) = None"
      "evict_oldest_closed l = (Inr None, l)"
    | (some) i c where "file_at (sl_disk l) (closed_name i) = Some c"
      "\<And>j. j < i \<Longrightarrow> file_at (sl_disk l) (closed_name j) = None"
      "evict_oldest_closed l = (Inr (Some i), evicted l i)"
    using evict_eq [OF assms] by blast
  then show ?thesis
  proof cases
    case dry
    then show ?thesis by simp
  next
    case (some i c)
    have "sl_active (evicted l i) = sl_active l" by (simp add: evicted_def)
    with some log_inv_evicted [OF assms some(1)] evicted_total(1) [OF assms some(1)]
      log_payloads_evicted [OF assms some(1,2)]
    show ?thesis by (simp add: evicted_file)
  qed
qed

theorem evict_oldest_closed_correct_witness:
  "\<exists>l0 i l'. log_payloads l0 = [[7]] \<and> evict_oldest_closed l0 = (Inr (Some i), l') \<and>
     log_payloads l' = [] \<and> log_inv l'"
proof -
  obtain l where l: "log_inv l" "log_payloads l = [[7]]" "seg_payloads (sl_disk l) 0 = [[7]]"
    "file_at (sl_disk l) (closed_name 0) \<noteq> None"
    using one_closed_segment by blast
  obtain i where ev: "evict_oldest_closed l = (Inr (Some i), evicted l i)"
      "\<forall>j<i. file_at (sl_disk l) (closed_name j) = None"
    using evict_eq [OF l(1)] l(4) by (elim disjE conjE exE) simp_all
  have e: "log_inv (evicted l i)" "[[7]] = seg_payloads (sl_disk l) i @ log_payloads (evicted l i)"
    using evict_oldest_closed_correct [OF l(1)] ev(1) l(2) by simp_all
  have "\<not> 0 < i" using ev(2) l(4) by auto
  then have "i = 0" by (simp add: word_gt_0)
  with e(2) l(3) have "log_payloads (evicted l i) = []" by simp
  with l(2) e(1) ev(1) show ?thesis by blast
qed

end
