(* ===== verification/Segment_Log_Faults.thy ===== *)
theory Segment_Log_Faults
  imports Segment_Log_Proofs
begin

text \<open>
  The segmented log under arbitrary I/O failures: the directory's \<open>script\<close> is universally
  quantified, so the lemmas cover a failure of any call, a short write included.  What
  survives is that bytes once written stay where they are; what does not survive is the
  agreement of the directory with the in-memory counters.
\<close>

section \<open>Bytes are never lost\<close>

definition grown :: "disk \<Rightarrow> disk \<Rightarrow> bool" where
  "grown d d' \<longleftrightarrow> (\<forall>n c. file_at d n = Some c \<longrightarrow> (\<exists>t. file_at d' n = Some (c @ t)))"

lemma grown_refl [simp]: "grown d d"
  by (simp add: grown_def)

lemma grown_trans: "grown a b \<Longrightarrow> grown b c \<Longrightarrow> grown a c"
  unfolding grown_def by (metis append.assoc)

lemma grown_script [simp]: "grown d (d\<lparr>script := r\<rparr>)"
  by (simp add: grown_def file_at_def)

lemma grown_append_bytes [simp]: "grown d (append_bytes n bs d)"
  by (simp add: grown_def)

lemma grown_call [simp]: "grown d (snd (io_call d))"
  by (auto simp: io_call_def grown_def file_at_def split: list.splits io_outcome.splits)

lemma grown_write [simp]: "grown d (snd (io_write n bs d))"
proof -
  have "grown d (append_bytes n xs (d\<lparr>script := r\<rparr>))" for xs r
    by (rule grown_trans [OF grown_script grown_append_bytes])
  moreover have "grown d (append_bytes n bs (snd (io_call d)))"
    by (rule grown_trans [OF grown_call grown_append_bytes])
  ultimately show ?thesis by (auto simp: io_write_def split: list.split io_outcome.split)
qed

lemma grown_open [simp]: "grown d (snd (io_open_append n d))"
proof -
  obtain r d' where c: "io_call d = (r, d')" by (cases "io_call d")
  have g: "grown d d'" using grown_call [of d] c by simp
  have "grown d' (d'\<lparr>files := al_upd n [] (files d')\<rparr>)" if "file_at d' n = None"
    using that by (auto simp: grown_def file_at_def)
  then show ?thesis
    using g c by (cases r) (auto simp: io_open_append_def bind_eff_def eff_defs
        intro: grown_trans split: option.split)
qed

text \<open>The same through the log's own lifting of the calls.\<close>

lemma grown_on_disk:
  "(\<And>d. grown d (snd (m d))) \<Longrightarrow> on_disk m l = (r, l') \<Longrightarrow> grown (sl_disk l) (sl_disk l')"
  by (cases "m (sl_disk l)") (auto simp: on_disk_def dest: meta_spec [of _ "sl_disk l"])

text \<open>Where the bytes of a file may be after an append: still in place, with more behind them,
  or, for the segment that was active, under its closed name.\<close>

definition kept :: "slog \<Rightarrow> disk \<Rightarrow> bool" where
  "kept l d' \<longleftrightarrow> (\<forall>n c. file_at (sl_disk l) n = Some c \<longrightarrow>
     (\<exists>t. file_at d' n = Some (c @ t)) \<or>
     (\<exists>a t. sl_active l = Some a \<and> n = wip_name (a_id a) \<and>
        file_at d' (closed_name (a_id a)) = Some (c @ t)))"

lemma kept_grown: "grown (sl_disk l) d' \<Longrightarrow> kept l d'"
  by (auto simp: kept_def grown_def)

lemma kept_trans: "kept l d \<Longrightarrow> grown d d' \<Longrightarrow> kept l d'"
  unfolding kept_def grown_def by (metis append.assoc)

text \<open>The active segment has the path its identifier gives, and nothing is in the way of its
  closed name.\<close>

definition active_named :: "slog \<Rightarrow> bool" where
  "active_named l \<longleftrightarrow> (\<forall>a. sl_active l = Some a \<longrightarrow>
     a_path a = wip_name (a_id a) \<and> file_at (sl_disk l) (closed_name (a_id a)) = None)"

lemma kept_rename:
  assumes "active_named l" "sl_active l = Some a" "grown (sl_disk l) d"
    and "d = sl_disk l \<or> files d = files (sl_disk l)"
  shows "kept l (snd (io_rename (a_path a) (closed_name (a_id a)) d))"
proof -
  obtain r e where c: "io_call d = (r, e)" by (cases "io_call d")
  have f: "files e = files (sl_disk l)"
    using c assms(4) by (auto simp: io_call_def split: list.splits io_outcome.splits)
  have p: "a_path a = wip_name (a_id a)" "file_at (sl_disk l) (closed_name (a_id a)) = None"
    using assms(1,2) by (auto simp: active_named_def)
  have k: "kept l e" by (rule kept_grown) (simp add: grown_def file_at_def f)
  have "kept l (e\<lparr>files := al_upd (closed_name (a_id a)) b (al_del (wip_name (a_id a)) (files e))\<rparr>)"
    if "file_at e (wip_name (a_id a)) = Some b" for b
    using that p(2) assms(2) by (auto simp: kept_def file_at_def f)
  then show ?thesis
    using c k p by (cases r) (auto simp: io_rename_def bind_eff_def eff_defs split: option.split)
qed

lemma on_disk_disk: "on_disk m l = (r, l') \<Longrightarrow> sl_disk l' = snd (m (sl_disk l))"
  by (auto simp: on_disk_def split: prod.splits)

lemma grown_sync [simp]: "grown d (snd (io_sync d))"
  by (simp add: io_sync_def)

lemma files_call [simp]: "files (snd (io_call d)) = files d"
  by (auto simp: io_call_def split: list.split io_outcome.split)

lemma kept_rotate:
  assumes "active_named l" "rotate l = (r, l')"
  shows "kept l (sl_disk l')"
proof -
  have tail: "kept l (sl_disk l'')"
    if "on_disk (io_open_append n) (k\<lparr>next_seg_id := j\<rparr>) = (q, l'')" "kept l (sl_disk k)" for k q n j l''
    using that(2) by (rule kept_trans) (simp add: on_disk_disk [OF that(1)])
  show ?thesis
  proof (cases "sl_active l")
    case None
    have "kept l (sl_disk l)" by (simp add: kept_grown)
    with None assms(2) show ?thesis
      by (auto simp: rotate_def bind_eff_def eff_defs split: prod.splits sum.splits dest: tail)
  next
    case (Some a)
    have p: "with_extension (a_path a) SEG_EXT = closed_name (a_id a)"
      using assms(1) Some by (simp add: active_named_def)
    have sync: "kept l (sl_disk k)"
      if "on_disk io_sync (l\<lparr>sl_active := None\<rparr>) = (q, k)" for q k
      using on_disk_disk [OF that] by (simp add: kept_grown)
    have ren: "kept l (sl_disk k')"
      if "on_disk io_sync (l\<lparr>sl_active := None\<rparr>) = (q, k)"
        "on_disk (io_rename (a_path a) (closed_name (a_id a))) k = (q', k')" for q k q' k'
      using kept_rename [OF assms(1) Some, of "sl_disk k"] on_disk_disk [OF that(1)]
      by (simp add: on_disk_disk [OF that(2)] io_sync_def)
    from Some assms(2) p show ?thesis
      by (auto simp: rotate_def bind_eff_def eff_defs split: prod.splits sum.splits
          dest: sync ren tail)
  qed
qed

lemma total_on_disk: "on_disk m l = (r, l') \<Longrightarrow> total_bytes l' = total_bytes l"
  by (auto simp: on_disk_def split: prod.splits)

text \<open>Effects that leave the byte account alone, whatever they return.\<close>

definition account_kept :: "'a log_eff \<Rightarrow> bool" where
  "account_kept m \<longleftrightarrow> (\<forall>l. total_bytes (snd (m l)) = total_bytes l)"

lemma account_bind: "account_kept m \<Longrightarrow> (\<And>a. account_kept (f a)) \<Longrightarrow> account_kept (bind_eff m f)"
  unfolding account_kept_def bind_eff_def
  by (auto split: prod.split sum.split) (metis snd_conv)+

lemma account_leaf:
  "account_kept (return_eff a)" "account_kept (throw_eff e)" "account_kept get_eff"
  "account_kept (on_disk io)"
  "account_kept (modify_eff (\<lambda>l. l\<lparr>sl_active := x\<rparr>))"
  "account_kept (modify_eff (\<lambda>l. l\<lparr>next_seg_id := next_seg_id l + 1\<rparr>))"
  by (auto simp: account_kept_def eff_defs on_disk_def split: prod.split)

lemma account_rotate: "account_kept rotate"
  unfolding rotate_def
  by (auto intro!: account_bind account_leaf split: option.split)

lemma total_rotate: "rotate l = (r, l') \<Longrightarrow> total_bytes l' = total_bytes l"
  using account_rotate by (metis account_kept_def snd_conv)

lemma kept_write:
  "on_disk (io_write n bs) k = (r, k') \<Longrightarrow> kept l (sl_disk k) \<Longrightarrow> kept l (sl_disk k')"
  by (rule kept_trans) (auto simp: on_disk_disk)

lemma write_phase:
  assumes "kept l (sl_disk k)" "total_bytes k = t" "\<And>k. sl_disk (g k) = sl_disk k"
    and "bind_eff (on_disk (io_write n bs)) (\<lambda>_. bind_eff (on_disk (io_write m cs)) (\<lambda>_.
      bind_eff (modify_eff g) (\<lambda>_. return_eff x))) k = (r, l')"
  shows "kept l (sl_disk l') \<and> (\<forall>e. r = Inl e \<longrightarrow> total_bytes l' = t)"
proof -
  obtain q k1 where 1: "on_disk (io_write n bs) k = (q, k1)" by (cases "on_disk (io_write n bs) k")
  obtain p k2 where 2: "on_disk (io_write m cs) k1 = (p, k2)" by (cases "on_disk (io_write m cs) k1")
  note k1 = kept_write [OF 1 assms(1)] total_on_disk [OF 1]
  note k2 = kept_write [OF 2 k1(1)] total_on_disk [OF 2]
  show ?thesis
    using assms(2-4) 1 2 k1 k2 by (auto simp: bind_eff_def eff_defs split: sum.splits)
qed

text \<open>An append either changes nothing, or stops after the rotation phase, or goes through the
  two writes.\<close>

definition rotation_phase :: "byte list \<Rightarrow> slog \<Rightarrow> unit log_eff" where
  "rotation_phase data l = (if must_rotate l (of_nat (RECORD_HEADER_BYTES + length data))
     then bind_eff rotate (\<lambda>_. return_eff ()) else return_eff ())"

lemma append_phases:
  assumes res: "log_append data l = (r, l')" and k: "rotation_phase data l l = (q, k)"
  obtains (refused) "l' = l" | (early) "l' = k"
    | (writes) g n bs m cs x where "\<And>k. sl_disk (g k) = sl_disk k"
        "bind_eff (on_disk (io_write n bs)) (\<lambda>_. bind_eff (on_disk (io_write m cs)) (\<lambda>_.
          bind_eff (modify_eff g) (\<lambda>_. return_eff x))) k = (r, l')"
proof -
  let ?sz = "of_nat (RECORD_HEADER_BYTES + length data) :: u64"
  let ?pre = "rotation_phase data l"
  show thesis
  proof (cases "max_record_bytes (sl_config l) < length data \<or>
      quota_check (lc_quota (sl_config l)) (total_bytes l) ?sz \<noteq> FitsYes")
    case True
    then have "l' = l"
      using res by (auto simp: log_append_def bind_eff_def [of get_eff] eff_defs Let_def
          simp del: of_nat_add split: fits.splits if_splits)
    then show thesis by (rule refused)
  next
    case False
    let ?wr = "\<lambda>l. case sl_active l of None \<Rightarrow> throw_eff NoActiveSegment
        | Some a \<Rightarrow>
           bind_eff (on_disk (io_write (a_path a) (u32_to_be (of_nat (length data))))) (\<lambda>_.
           bind_eff (on_disk (io_write (a_path a) data)) (\<lambda>_.
           bind_eff (modify_eff (\<lambda>k. k\<lparr>
               sl_active := Some (a\<lparr>written_bytes := written_bytes a + ?sz,
                                    record_count := record_count a + 1\<rparr>),
               total_bytes := total_bytes k + ?sz\<rparr>)) (\<lambda>_.
           return_eff \<lparr>r_segment_id = a_id a, r_record_index = record_count a,
             r_offset_in_segment = written_bytes a, r_bytes_written = ?sz\<rparr>)))"
    have "bind_eff ?pre (\<lambda>_. bind_eff get_eff ?wr) l = (r, l')"
      using res False unfolding log_append_def Let_def
      by (simp add: bind_eff_def [of get_eff] get_eff_def rotation_phase_def del: of_nat_add)
    then consider "l' = k" | "?wr k k = (r, l')"
      using k by (auto simp: bind_eff_def [of ?pre] bind_eff_def [of get_eff] get_eff_def split: sum.splits)
    then show thesis
    proof cases
      case 1 then show thesis by (rule early)
    next
      case 2
      show thesis
      proof (cases "sl_active k")
        case None
        with 2 show thesis by (intro early) (simp add: throw_eff_def)
      next
        case (Some a)
        note 2 [unfolded Some option.case]
        then show thesis by (rule writes [rotated]) simp
      qed
    qed
  qed
qed

text \<open>Claim C13 (no loss): whatever the file system does, an append never loses a byte that was in
  the directory: every file keeps its contents as a prefix, except that the segment that was
  active may now carry its closed name.  An append that fails, at whatever call, leaves the
  byte account alone.\<close>

theorem append_never_loses_bytes:
  assumes "\<forall>a. sl_active l = Some a \<longrightarrow>
      a_path a = wip_name (a_id a) \<and> file_at (sl_disk l) (closed_name (a_id a)) = None"
  shows "case log_append data l of (r, l') \<Rightarrow>
     (\<forall>n c. file_at (sl_disk l) n = Some c \<longrightarrow>
        (\<exists>t. file_at (sl_disk l') n = Some (c @ t)) \<or>
        (\<exists>a t. sl_active l = Some a \<and> n = wip_name (a_id a) \<and>
           file_at (sl_disk l') (closed_name (a_id a)) = Some (c @ t))) \<and>
     (\<forall>e. r = Inl e \<longrightarrow> total_bytes l' = total_bytes l)"
proof -
  have an: "active_named l" using assms by (simp add: active_named_def)
  have self: "kept l (sl_disk l)" by (simp add: kept_grown)
  obtain r l' where res: "log_append data l = (r, l')" by (cases "log_append data l")
  obtain q k where k: "rotation_phase data l l = (q, k)" by (cases "rotation_phase data l l")
  have k': "kept l (sl_disk k)" "total_bytes k = total_bytes l"
    using k self kept_rotate [OF an] total_rotate
    by (auto simp: rotation_phase_def bind_eff_def eff_defs split: if_splits prod.splits sum.splits)
  from res k have "kept l (sl_disk l') \<and> (\<forall>e. r = Inl e \<longrightarrow> total_bytes l' = total_bytes l)"
  proof (cases rule: append_phases)
    case writes
    from write_phase [OF k' this] show ?thesis .
  qed (use k' self in simp_all)
  then show ?thesis by (simp add: res kept_def)
qed

text \<open>The directory of a log whose data write fails after one byte.\<close>

definition faulty_log :: slog where
  "faulty_log = slog_new log_config_defaults
     \<lparr>files = [], script = [IoOk, IoOk, IoFail 1]\<rparr>"

section \<open>A failed write corrupts the segment for later records\<close>

text \<open>\<open>append\<close> does not repair a short write: the header and part of the record stay in the
  segment, the active segment stays open, and the next record, acknowledged with a receipt,
  is written behind the torn one.  Reading the segment back yields one record made of both and
  loses the acknowledged one.\<close>

lemmas log_eval = log_append_def rotate_def must_rotate_def bind_eff_def eff_defs on_disk_def
  io_open_append_def io_write_def io_call_def append_bytes_def file_at_def u32_to_be_def
  slog_new_def log_config_defaults_def quota_new_def quota_check_def checked_add_def Let_def
  RECORD_HEADER_BYTES_def

definition torn_log :: slog where
  "torn_log = (slog_new log_config_defaults
     \<lparr>files = [(wip_name 0, [0, 0, 0, 3, 1])], script = []\<rparr>)
     \<lparr>sl_active := Some (\<lparr>a_id = 0, a_path = wip_name 0, written_bytes = 0, record_count = 0\<rparr>),
      next_seg_id := 1\<rparr>"

theorem append_never_loses_bytes_witness:
  "\<exists>t. file_at (sl_disk (snd (log_append [9] torn_log))) (wip_name 0) = Some ([0, 0, 0, 3, 1] @ t) \<or>
     file_at (sl_disk (snd (log_append [9] torn_log))) (closed_name 0) = Some ([0, 0, 0, 3, 1] @ t)"
proof -
  have pre: "\<forall>a. sl_active torn_log = Some a \<longrightarrow> a_path a = wip_name (a_id a) \<and>
      file_at (sl_disk torn_log) (closed_name (a_id a)) = None"
    by (simp add: torn_log_def slog_new_def file_at_def)
  obtain r l' where res: "log_append [9] torn_log = (r, l')" by (cases "log_append [9] torn_log")
  have "file_at (sl_disk torn_log) (wip_name 0) = Some [0, 0, 0, 3, 1]"
    by (simp add: torn_log_def slog_new_def file_at_def)
  then have "(\<exists>t. file_at (sl_disk l') (wip_name 0) = Some ([0, 0, 0, 3, 1] @ t)) \<or>
     (\<exists>a t. sl_active torn_log = Some a \<and> wip_name 0 = wip_name (a_id a) \<and>
        file_at (sl_disk l') (closed_name (a_id a)) = Some ([0, 0, 0, 3, 1] @ t))"
    using append_never_loses_bytes [OF pre, of "[9]"] unfolding res prod.case by blast
  moreover have "\<forall>a. sl_active torn_log = Some a \<longrightarrow> a_id a = 0" by (simp add: torn_log_def)
  ultimately show ?thesis unfolding res snd_conv by metis
qed

lemma be4_small: "be_of_nat 4 3 = [0, 0, 0, 3]" "be_of_nat 4 (Suc 0) = [0, 0, 0, 1]"
  by code_simp+

lemma torn: "log_append [1, 2, 3] faulty_log = (Inl (Io IoError), torn_log)"
  by (simp add: log_eval faulty_log_def torn_log_def be4_small)

lemma after_torn:
  "case log_append [9] torn_log of (r, l) \<Rightarrow>
     (\<exists>x. r = Inr x \<and> r_segment_id x = 0 \<and> r_offset_in_segment x = 0) \<and>
     sl_disk l = disk_of [(wip_name 0, [0, 0, 0, 3, 1, 0, 0, 0, 1, 9])]"
  by (simp add: log_eval torn_log_def disk_of_def be4_small)

lemma failed_write_desynchronises:
  "case log_append [1, 2, 3] faulty_log of
     (Inr r, l1) \<Rightarrow> False
   | (Inl e, l1) \<Rightarrow>
      (case log_append [9] l1 of
         (Inl e, l2) \<Rightarrow> False
       | (Inr r, l2) \<Rightarrow> r_segment_id r = 0 \<and> r_offset_in_segment r = 0 \<and>
           fst (read_segment_records (wip_name 0) l2) = Inr [[1, 0, 0]])"
proof -
  have "decode_records p 0 [0, 0, 0, 3, 1, 0, 0, 0, 1, 9] = Inr [[1, 0, 0]]" for p
    by (simp add: decode_records.simps [of p] RECORD_HEADER_BYTES_def nat_of_be_def)
  then show ?thesis
    using after_torn
    by (auto simp: torn read_segment_records_def bind_eff_def on_disk_def io_read_def io_call_def
        disk_of_def file_at_def eff_defs split: prod.splits)
qed

end
