(* ===== verification/Segment_Reader.thy ===== *)
theory Segment_Reader
  imports Segment_Log_Proofs "HOL-Library.While_Combinator"
begin

text \<open>
  The loop of \<open>read_segment_records\<close> in \<^verbatim>\<open>segment_log.rs\<close> as the loop it is: it could run for ever, and
  a file may hold any bytes.  It ends after at most one round per four bytes, and it is the
  recursion the other theories use.
\<close>

section \<open>The loop\<close>

text \<open>What is left to read, the offset, the records so far, and the error that ended the loop.\<close>

record reader =
  rd_rest :: "byte list"
  rd_offset :: u64
  rd_out :: "byte list list"
  rd_error :: "storage_error option"

definition reader_start :: "byte list \<Rightarrow> reader" where
  "reader_start bs = \<lparr>rd_rest = bs, rd_offset = 0, rd_out = [], rd_error = None\<rparr>"

text \<open>The loop is left at the end of the file (an incomplete header counts as the end) or by an error.\<close>

definition reader_more :: "reader \<Rightarrow> bool" where
  "reader_more r \<longleftrightarrow> rd_error r = None \<and> RECORD_HEADER_BYTES \<le> length (rd_rest r)"

definition reader_round :: "string \<Rightarrow> reader \<Rightarrow> reader" where
  "reader_round path r =
     (let len = nat_of_be (take RECORD_HEADER_BYTES (rd_rest r)); body = drop RECORD_HEADER_BYTES (rd_rest r) in
      if length body < len then r\<lparr>rd_error := Some (SegmentCorrupt path (rd_offset r))\<rparr>
      else r\<lparr>rd_rest := drop len body, rd_offset := rd_offset r + of_nat (RECORD_HEADER_BYTES + len),
             rd_out := rd_out r @ [take len body]\<rparr>)"

definition reader_result :: "reader \<Rightarrow> (storage_error, byte list list) result" where
  "reader_result r = (case rd_error r of Some e \<Rightarrow> Inl e | None \<Rightarrow> Inr (rd_out r))"

definition read_loop :: "string \<Rightarrow> byte list \<Rightarrow> reader option" where
  "read_loop path bs = while_option reader_more (reader_round path) (reader_start bs)"

section \<open>It ends\<close>

lemma reader_stops: "\<not> reader_more r \<Longrightarrow> while_option reader_more (reader_round path) r = Some r"
  by (simp add: while_option_unfold)

lemma reader_loop_decodes:
  assumes "rd_error r = None"
  shows "\<exists>r' n. while_option reader_more (reader_round path) r = Some r' \<and> r' = (reader_round path ^^ n) r \<and>
    n \<le> length (rd_rest r) div 4 \<and>
    reader_result r' = (case decode_records path (rd_offset r) (rd_rest r) of Inl e \<Rightarrow> Inl e | Inr ds \<Rightarrow> Inr (rd_out r @ ds))"
  using assms
proof (induction "length (rd_rest r)" arbitrary: r rule: less_induct)
  case less
  let ?len = "nat_of_be (take RECORD_HEADER_BYTES (rd_rest r))" and ?body = "drop RECORD_HEADER_BYTES (rd_rest r)"
  show ?case
  proof (cases "reader_more r")
    case False
    then have "decode_records path (rd_offset r) (rd_rest r) = Inr []"
      using less.prems by (subst decode_records.simps) (simp add: reader_more_def)
    then show ?thesis using less.prems reader_stops [OF False]
      by (intro exI [of _ r] exI [of _ 0]) (simp add: reader_result_def)
  next
    case more: True
    then have long: "4 \<le> length (rd_rest r)" by (simp add: reader_more_def RECORD_HEADER_BYTES_def)
    let ?r = "reader_round path r"
    have step: "while_option reader_more (reader_round path) r = while_option reader_more (reader_round path) ?r"
      using more by (subst while_option_unfold) simp
    show ?thesis
    proof (cases "length ?body < ?len")
      case True
      then have r: "?r = r\<lparr>rd_error := Some (SegmentCorrupt path (rd_offset r))\<rparr>" by (simp add: reader_round_def Let_def)
      have "decode_records path (rd_offset r) (rd_rest r) = Inl (SegmentCorrupt path (rd_offset r))"
        using True more by (subst decode_records.simps) (simp add: reader_more_def Let_def)
      moreover have "while_option reader_more (reader_round path) ?r = Some ?r"
        by (rule reader_stops) (simp add: r reader_more_def)
      ultimately show ?thesis using long step
        by (intro exI [of _ ?r] exI [of _ 1]) (simp add: reader_result_def r)
    next
      case False
      then have r: "rd_rest ?r = drop ?len ?body" "rd_offset ?r = rd_offset r + of_nat (RECORD_HEADER_BYTES + ?len)"
        "rd_out ?r = rd_out r @ [take ?len ?body]" "rd_error ?r = None"
        using less.prems by (simp_all add: reader_round_def Let_def)
      have shorter: "length (rd_rest ?r) + 4 \<le> length (rd_rest r)" using long by (simp add: r RECORD_HEADER_BYTES_def)
      then have "length (rd_rest ?r) < length (rd_rest r)" by simp
      from less.hyps [OF this r(4)] obtain r' n where i:
        "while_option reader_more (reader_round path) ?r = Some r'" "r' = (reader_round path ^^ n) ?r"
        "n \<le> length (rd_rest ?r) div 4"
        "reader_result r' = (case decode_records path (rd_offset ?r) (rd_rest ?r) of Inl e \<Rightarrow> Inl e | Inr ds \<Rightarrow> Inr (rd_out ?r @ ds))"
        by blast
      have "decode_records path (rd_offset r) (rd_rest r) =
          (case decode_records path (rd_offset ?r) (rd_rest ?r) of Inl e \<Rightarrow> Inl e | Inr rs \<Rightarrow> Inr (take ?len ?body # rs))"
        using False more by (subst decode_records.simps) (simp add: reader_more_def Let_def r)
      moreover have "Suc n \<le> length (rd_rest r) div 4" using i(3) shorter by linarith
      moreover have "r' = (reader_round path ^^ Suc n) r" using i(2) by (simp add: funpow_swap1)
      ultimately show ?thesis using i(1,4) step r(3)
        by (intro exI [of _ r'] exI [of _ "Suc n"]) (simp split: sum.split)
    qed
  qed
qed

text \<open>What is accepted: frames, and at most three bytes after them.\<close>

lemma decode_complete:
  "decode_records path off bs = Inr ds \<Longrightarrow> list_all frameable ds \<and> (\<exists>t. length t < 4 \<and> bs = frames ds @ t)"
proof (induction path off bs arbitrary: ds rule: decode_records.induct)
  case (1 path off bs)
  let ?len = "nat_of_be (take RECORD_HEADER_BYTES bs)" and ?body = "drop RECORD_HEADER_BYTES bs"
  show ?case
  proof (cases "length bs < RECORD_HEADER_BYTES")
    case True
    with "1.prems" have "ds = []" by (subst (asm) decode_records.simps) simp
    with True show ?thesis by (simp add: RECORD_HEADER_BYTES_def)
  next
    case False
    with "1.prems" have body: "\<not> length ?body < ?len" by (subst (asm) decode_records.simps) (auto simp: Let_def)
    with False "1.prems" obtain rs where rs: "decode_records path (off + of_nat (RECORD_HEADER_BYTES + ?len)) (drop ?len ?body) = Inr rs"
      "ds = take ?len ?body # rs"
      by (subst (asm) decode_records.simps) (auto simp: Let_def split: sum.splits)
    from "1.IH" [OF False refl refl body rs(1)] obtain t where t: "list_all frameable rs" "length t < 4"
      "drop ?len ?body = frames rs @ t" by blast
    have hd: "length (take RECORD_HEADER_BYTES bs) = 4" using False by (simp add: RECORD_HEADER_BYTES_def)
    have len: "?len < 2 ^ 32" using nat_of_be_less [of "take RECORD_HEADER_BYTES bs"] unfolding hd by simp
    have head: "be_of_nat 4 ?len = take RECORD_HEADER_BYTES bs" using be_of_nat_of_be [of "take RECORD_HEADER_BYTES bs"] unfolding hd .
    have l: "length (take ?len ?body) = ?len" using body by simp
    have fr: "frame (take ?len ?body) = take RECORD_HEADER_BYTES bs @ take ?len ?body"
      using len by (simp add: frame_def u32_to_be_def l unat_of_nat take_bit_nat_eq_self head del: length_take)
    have "bs = take RECORD_HEADER_BYTES bs @ take ?len ?body @ drop ?len ?body" by (simp only: append_take_drop_id)
    then have "bs = frames ds @ t" unfolding t(3) rs(2) by (simp add: fr)
    moreover have "list_all frameable ds" using t(1) len l rs(2) by (simp add: frameable_def)
    ultimately show ?thesis using t(2) by blast
  qed
qed

text \<open>Claim C21 (reading ends and is exact): on any bytes at all the reader's loop ends after at most one round
  per four bytes, with the result of the recursion; it returns records exactly when the bytes are
  their frames followed by fewer than four bytes.\<close>

theorem reader_ends_and_is_exact:
  "\<exists>r n. read_loop path bs = Some r \<and> r = (reader_round path ^^ n) (reader_start bs) \<and> n \<le> length bs div 4 \<and>
     reader_result r = decode_records path 0 bs \<and>
     (\<forall>ds. reader_result r = Inr ds \<longleftrightarrow> list_all frameable ds \<and> (\<exists>t. length t < 4 \<and> bs = frames ds @ t))"
proof -
  obtain r n where r: "read_loop path bs = Some r" "r = (reader_round path ^^ n) (reader_start bs)" "n \<le> length bs div 4"
    "reader_result r = decode_records path 0 bs"
    using reader_loop_decodes [of "reader_start bs" path]
    by (auto simp: read_loop_def reader_start_def split: sum.splits)
  moreover have "reader_result r = Inr ds \<longleftrightarrow> list_all frameable ds \<and> (\<exists>t. length t < 4 \<and> bs = frames ds @ t)" for ds
    using decode_complete [of path 0 bs ds] decode_frames_tail [of ds _ path 0] unfolding r(4) by blast
  ultimately show ?thesis by blast
qed

end
