(* ===== verification/Audit_Chain.thy ===== *)
theory Audit_Chain
  imports Prelude
begin

text \<open>
  \<^verbatim>\<open>daemon/crates/athar-audit/src/lib.rs\<close>: the hash-chained audit records, the chain writer
  and the offline verifier, and the hexadecimal codec of the persisted segments.

  BLAKE3 and Ed25519 are third-party crates: \<open>crypto\<close> collects the functions the sources
  call, and every definition that uses them takes it as an argument.  A hash, key or
  signature is a list of bytes; \<open>crypto_ok\<close> states the documented lengths and that a
  signature made with a key verifies under its public key.
\<close>

section \<open>Cryptographic primitives\<close>

record crypto =
  blake3 :: "byte list \<Rightarrow> byte list"
  ed_public :: "byte list \<Rightarrow> byte list"
  ed_sign :: "byte list \<Rightarrow> byte list \<Rightarrow> byte list"
  ed_key_valid :: "byte list \<Rightarrow> bool"
  ed_verify :: "byte list \<Rightarrow> byte list \<Rightarrow> byte list \<Rightarrow> bool"

definition HASH_LEN :: nat where "HASH_LEN = 32"

definition GENESIS_PREV_HASH :: "byte list" where "GENESIS_PREV_HASH = replicate HASH_LEN 0"

definition crypto_ok :: "crypto \<Rightarrow> bool" where
  "crypto_ok c \<longleftrightarrow> (\<forall>m. length (blake3 c m) = HASH_LEN) \<and>
     (\<forall>k. length (ed_public c k) = 32 \<and> ed_key_valid c (ed_public c k)) \<and>
     (\<forall>k m. length (ed_sign c k m) = 64 \<and> ed_verify c (ed_public c k) m (ed_sign c k m))"

text \<open>The trait \<open>Signer\<close>, a table of the two methods, and its two implementations.\<close>

record signer =
  public_key :: "byte list"
  sign_msg :: "byte list \<Rightarrow> byte list"

definition software_signer :: "crypto \<Rightarrow> byte list \<Rightarrow> signer" where
  "software_signer c seed = \<lparr>public_key = ed_public c seed, sign_msg = ed_sign c seed\<rparr>"

section \<open>Hexadecimal strings\<close>

definition HEX :: string where "HEX = ''0123456789abcdef''"

definition hex_encode :: "byte list \<Rightarrow> string" where
  "hex_encode bytes = concat (map (\<lambda>b. [HEX ! unat (drop_bit 4 b), HEX ! unat (and b 15)]) bytes)"

definition from_hex :: "byte \<Rightarrow> (string, byte) result" where
  "from_hex b =
     (if 48 \<le> b \<and> b \<le> 57 then Inr (b - 48)
      else if 97 \<le> b \<and> b \<le> 102 then Inr (b - 97 + 10)
      else if 65 \<le> b \<and> b \<le> 70 then Inr (b - 65 + 10)
      else Inl ''invalid hex digit'')"

fun hex_pairs :: "byte list \<Rightarrow> (string, byte list) result" where
  "hex_pairs (x # y # r) =
     (case from_hex x of Inl e \<Rightarrow> Inl e | Inr hi \<Rightarrow>
     (case from_hex y of Inl e \<Rightarrow> Inl e | Inr lo \<Rightarrow>
     (case hex_pairs r of Inl e \<Rightarrow> Inl e | Inr out \<Rightarrow> Inr (or (push_bit 4 hi) lo # out))))"
| "hex_pairs _ = Inr []"

definition hex_decode :: "string \<Rightarrow> (string, byte list) result" where
  "hex_decode s = (if length s mod 2 \<noteq> 0 then Inl ''odd-length hex string'' else hex_pairs (str_bytes s))"

text \<open>The serde helpers \<open>hex32\<close> and \<open>hex64\<close>: the same codec with a fixed length.\<close>

definition hex_fixed :: "nat \<Rightarrow> string \<Rightarrow> byte list option" where
  "hex_fixed n s = (case hex_decode s of
      Inl e \<Rightarrow> None | Inr bs \<Rightarrow> if length bs = n then Some bs else None)"

section \<open>Records\<close>

record audit_record =
  seq :: u64
  timestamp_us :: i64
  ar_tenant_id :: string
  ar_kind :: string
  ar_commitment :: "byte list"
  redacted :: bool

record chained_record =
  record_of :: audit_record
  prev_hash :: "byte list"
  this_hash :: "byte list"

record audit_segment =
  sg_id :: u64
  sg_records :: "chained_record list"
  tip_signature :: "byte list"
  signer_pubkey :: "byte list"

datatype verify_error =
    SeqBroken nat u64 u64
  | ChainBroken nat
  | RecordHashMismatch nat
  | BadSignature
  | EmptySegment

definition canonical_bytes :: "audit_record \<Rightarrow> byte list" where
  "canonical_bytes r =
     u64_to_be (seq r) @ u64_to_be (timestamp_us r) @
     u32_to_be (of_nat (length (str_bytes (ar_tenant_id r)))) @ str_bytes (ar_tenant_id r) @
     u32_to_be (of_nat (length (str_bytes (ar_kind r)))) @ str_bytes (ar_kind r) @
     ar_commitment r @ [if redacted r then 1 else 0]"

definition record_hash :: "crypto \<Rightarrow> byte list \<Rightarrow> audit_record \<Rightarrow> byte list" where
  "record_hash c p r = blake3 c (p @ canonical_bytes r)"

definition payload_commitment :: "crypto \<Rightarrow> byte list \<Rightarrow> byte list" where
  "payload_commitment c payload = blake3 c payload"

section \<open>Writing\<close>

record chain_writer =
  cw_records :: "chained_record list"
  tip_hash :: "byte list"
  next_seq :: u64

definition from_tip :: "byte list \<Rightarrow> u64 \<Rightarrow> chain_writer" where
  "from_tip t n = \<lparr>cw_records = [], tip_hash = t, next_seq = n\<rparr>"

definition chain_writer_new :: chain_writer where
  "chain_writer_new = from_tip GENESIS_PREV_HASH 0"

definition chain_append :: "crypto \<Rightarrow> audit_record \<Rightarrow> chain_writer \<Rightarrow> nat \<times> chain_writer" where
  "chain_append c r w =
     (let r = r\<lparr>seq := next_seq w\<rparr>;
          h = record_hash c (tip_hash w) r;
          rs = cw_records w @ [\<lparr>record_of = r, prev_hash = tip_hash w, this_hash = h\<rparr>]
      in (length rs - 1, w\<lparr>cw_records := rs, tip_hash := h, next_seq := next_seq w + 1\<rparr>))"

definition close_chain :: "u64 \<Rightarrow> signer \<Rightarrow> chain_writer \<Rightarrow> audit_segment \<times> chain_writer" where
  "close_chain i s w =
     (\<lparr>sg_id = i, sg_records = cw_records w, tip_signature = sign_msg s (tip_hash w),
       signer_pubkey = public_key s\<rparr>, w\<lparr>cw_records := []\<rparr>)"

section \<open>Verifying\<close>

fun verify_from :: "crypto \<Rightarrow> nat \<Rightarrow> byte list \<Rightarrow> u64 \<Rightarrow> chained_record list \<Rightarrow>
    (verify_error, byte list) result" where
  "verify_from c i p n [] = Inr p"
| "verify_from c i p n (cr # rs) =
     (if seq (record_of cr) \<noteq> n then Inl (SeqBroken i n (seq (record_of cr)))
      else if prev_hash cr \<noteq> p then Inl (ChainBroken i)
      else if record_hash c (prev_hash cr) (record_of cr) \<noteq> this_hash cr
      then Inl (RecordHashMismatch i)
      else verify_from c (Suc i) (this_hash cr) (n + 1) rs)"

definition verify_chain :: "crypto \<Rightarrow> chained_record list \<Rightarrow> byte list \<Rightarrow> u64 \<Rightarrow>
    (verify_error, byte list) result" where
  "verify_chain c rs anchor start =
     (if rs = [] then Inl EmptySegment else verify_from c 0 anchor start rs)"

definition verify_segment :: "crypto \<Rightarrow> audit_segment \<Rightarrow> (verify_error, unit) result" where
  "verify_segment c s =
     (case sg_records s of
        [] \<Rightarrow> Inl EmptySegment
      | first # _ \<Rightarrow>
         (case verify_chain c (sg_records s) (prev_hash first) (seq (record_of first)) of
            Inl e \<Rightarrow> Inl e
          | Inr tip \<Rightarrow>
              if \<not> ed_key_valid c (signer_pubkey s) then Inl BadSignature
              else if ed_verify c (signer_pubkey s) tip (tip_signature s) then Inr ()
              else Inl BadSignature))"

definition mark_redacted :: "chained_record \<Rightarrow> chained_record" where
  "mark_redacted cr = cr\<lparr>record_of := (record_of cr)\<lparr>redacted := True\<rparr>\<rparr>"

end
