(* ===== verification/Json_Codec.thy ===== *)
theory Json_Codec
  imports Event "HOL-Library.Countable"
begin

text \<open>
  What the serde derives of the workspace do with \<open>json\<close> documents: integers with their
  range, structs as objects whose fields are looked up by name, sequences and options.  The
  printing and parsing of JSON text is \<^verbatim>\<open>serde_json\<close>'s and stays a parameter where it is used.
\<close>

definition u64_to_json :: "u64 \<Rightarrow> json" where
  "u64_to_json w = JInt (uint w)"

fun u64_of_json :: "json \<Rightarrow> u64 option" where
  "u64_of_json (JInt n) = (if 0 \<le> n \<and> n < 2 ^ 64 then Some (of_int n) else None)"
| "u64_of_json _ = None"

definition i64_to_json :: "i64 \<Rightarrow> json" where
  "i64_to_json w = JInt (sint w)"

fun i64_of_json :: "json \<Rightarrow> i64 option" where
  "i64_of_json (JInt n) = (if - (2 ^ 63) \<le> n \<and> n < 2 ^ 63 then Some (of_int n) else None)"
| "i64_of_json _ = None"

text \<open>A derived \<open>Deserialize\<close> wants every field exactly once and ignores unknown ones.\<close>

fun json_field :: "json \<Rightarrow> string \<Rightarrow> json option" where
  "json_field (JObject kvs) k =
     (case filter (\<lambda>kv. fst kv = k) kvs of [(_, v)] \<Rightarrow> Some v | _ \<Rightarrow> None)"
| "json_field _ k = None"

definition opt_bind :: "'a option \<Rightarrow> ('a \<Rightarrow> 'b option) \<Rightarrow> 'b option" where
  "opt_bind x f = (case x of None \<Rightarrow> None | Some a \<Rightarrow> f a)"

lemma opt_bind_Some [simp]: "opt_bind (Some a) f = f a"
  by (simp add: opt_bind_def)

text \<open>An \<open>Option\<close> field: absent or null is \<open>None\<close>.\<close>

definition json_opt_field :: "(json \<Rightarrow> 'a option) \<Rightarrow> json \<Rightarrow> string \<Rightarrow> 'a option option" where
  "json_opt_field f j k = (case j of
      JObject kvs \<Rightarrow>
        (case filter (\<lambda>kv. fst kv = k) kvs of
           [] \<Rightarrow> Some None
         | [(_, v)] \<Rightarrow> (if v = JNull then Some None else opt_bind (f v) (\<lambda>a. Some (Some a)))
         | _ \<Rightarrow> None)
    | _ \<Rightarrow> None)"

fun json_of_opt :: "('a \<Rightarrow> json) \<Rightarrow> 'a option \<Rightarrow> json" where
  "json_of_opt f None = JNull"
| "json_of_opt f (Some a) = f a"

fun list_of_json :: "(json \<Rightarrow> 'a option) \<Rightarrow> json \<Rightarrow> 'a list option" where
  "list_of_json f (JArray js) = those (map f js)"
| "list_of_json f _ = None"

section \<open>Round trips\<close>

lemma u64_json [simp]: "u64_of_json (u64_to_json w) = Some w"
  using uint_bounded [of w] by (simp add: u64_to_json_def)

lemma i64_json [simp]: "i64_of_json (i64_to_json w) = Some w"
  using sint_ge [of w] sint_lt [of w] by (simp add: i64_to_json_def)

lemma those_map: "(\<And>x. x \<in> set xs \<Longrightarrow> f x = Some (g x)) \<Longrightarrow> those (map f xs) = Some (map g xs)"
  by (induction xs) auto

text \<open>Documents can be enumerated.\<close>

instance flt :: countable by countable_datatype

instance json :: countable by countable_datatype

end
