(* ===== verification/Audit_Store.thy ===== *)
theory Audit_Store
  imports Audit_Chain Disk Json_Codec
begin

text \<open>
  \<^verbatim>\<open>persistence.rs\<close> and \<^verbatim>\<open>writer.rs\<close> of \<^verbatim>\<open>athar-audit\<close>: the directory of signed segments and the
  daemon's writer on top of it.  The JSON shape of a segment is the one the serde derives
  and the \<open>hex32\<close>/\<open>hex64\<close> helpers give; the JSON text itself is \<^verbatim>\<open>serde_json\<close>'s, a pair of
  functions \<open>json_text\<close> the definitions take as an argument.
\<close>

section \<open>Segments as JSON\<close>

record json_text =
  to_vec_pretty :: "json \<Rightarrow> byte list"
  from_slice :: "byte list \<Rightarrow> json option"

fun hex_of_json :: "nat \<Rightarrow> json \<Rightarrow> byte list option" where
  "hex_of_json n (JString s) = hex_fixed n s"
| "hex_of_json n _ = None"

definition record_to_json :: "audit_record \<Rightarrow> json" where
  "record_to_json r = JObject
     [(''seq'', u64_to_json (seq r)), (''timestamp_us'', i64_to_json (timestamp_us r)),
      (''tenant_id'', JString (ar_tenant_id r)), (''kind'', JString (ar_kind r)),
      (''payload_commitment'', JString (hex_encode (ar_commitment r))),
      (''redacted'', JBool (redacted r))]"

definition record_of_json :: "json \<Rightarrow> audit_record option" where
  "record_of_json j =
     opt_bind (opt_bind (json_field j ''seq'') u64_of_json) (\<lambda>sq.
     opt_bind (opt_bind (json_field j ''timestamp_us'') i64_of_json) (\<lambda>ts.
     opt_bind (opt_bind (json_field j ''tenant_id'') json_as_str) (\<lambda>tn.
     opt_bind (opt_bind (json_field j ''kind'') json_as_str) (\<lambda>kd.
     opt_bind (opt_bind (json_field j ''payload_commitment'') (hex_of_json HASH_LEN)) (\<lambda>pc.
     opt_bind (opt_bind (json_field j ''redacted'') json_as_bool) (\<lambda>rd.
     Some \<lparr>seq = sq, timestamp_us = ts, ar_tenant_id = tn, ar_kind = kd, ar_commitment = pc,
       redacted = rd\<rparr>))))))"

definition chained_to_json :: "chained_record \<Rightarrow> json" where
  "chained_to_json r = JObject
     [(''record'', record_to_json (record_of r)),
      (''prev_hash'', JString (hex_encode (prev_hash r))),
      (''record_hash'', JString (hex_encode (this_hash r)))]"

definition chained_of_json :: "json \<Rightarrow> chained_record option" where
  "chained_of_json j =
     opt_bind (opt_bind (json_field j ''record'') record_of_json) (\<lambda>r.
     opt_bind (opt_bind (json_field j ''prev_hash'') (hex_of_json HASH_LEN)) (\<lambda>p.
     opt_bind (opt_bind (json_field j ''record_hash'') (hex_of_json HASH_LEN)) (\<lambda>h.
     Some \<lparr>record_of = r, prev_hash = p, this_hash = h\<rparr>)))"

definition segment_to_json :: "audit_segment \<Rightarrow> json" where
  "segment_to_json s = JObject
     [(''segment_id'', u64_to_json (sg_id s)),
      (''records'', JArray (map chained_to_json (sg_records s))),
      (''tip_signature'', JString (hex_encode (tip_signature s))),
      (''signer_pubkey'', JString (hex_encode (signer_pubkey s)))]"

definition segment_of_json :: "json \<Rightarrow> audit_segment option" where
  "segment_of_json j =
     opt_bind (opt_bind (json_field j ''segment_id'') u64_of_json) (\<lambda>i.
     opt_bind (opt_bind (json_field j ''records'') (list_of_json chained_of_json)) (\<lambda>rs.
     opt_bind (opt_bind (json_field j ''tip_signature'') (hex_of_json 64)) (\<lambda>sg.
     opt_bind (opt_bind (json_field j ''signer_pubkey'') (hex_of_json 32)) (\<lambda>pk.
     Some \<lparr>sg_id = i, sg_records = rs, tip_signature = sg, signer_pubkey = pk\<rparr>))))"

section \<open>The segment store\<close>

datatype persist_error = PIo io_error | PJson | PVerify verify_error

record verify_report =
  segments_verified :: nat
  records_verified :: nat

definition SUFFIX :: string where "SUFFIX = ''.audit.json''"
definition TMP_SUFFIX :: string where "TMP_SUFFIX = ''.audit.json.tmp''"

definition path_for :: "u64 \<Rightarrow> string" where
  "path_for i = hex16 i @ SUFFIX"

type_synonym 'a store_eff = "(disk, persist_error, 'a) eff"

text \<open>\<open>call()?\<close> on the file system, and \<open>result?\<close> on a verdict or a decoding.\<close>

definition store_io :: "(disk, io_error, 'a) eff \<Rightarrow> 'a store_eff" where
  "store_io m d = (case m d of (r, d') \<Rightarrow> (map_err PIo r, d'))"

definition store_open :: "unit store_eff" where
  "store_open = store_io io_create_dir"

definition store_write :: "json_text \<Rightarrow> audit_segment \<Rightarrow> string store_eff" where
  "store_write k s =
     (let final_path = path_for (sg_id s); tmp_path = hex16 (sg_id s) @ TMP_SUFFIX in
      bind_eff (store_io (io_create tmp_path)) (\<lambda>_.
      bind_eff (store_io (io_write tmp_path (to_vec_pretty k (segment_to_json s)))) (\<lambda>_.
      bind_eff (store_io io_sync) (\<lambda>_.
      bind_eff (store_io (io_rename tmp_path final_path)) (\<lambda>_.
      return_eff final_path)))))"

definition store_read :: "json_text \<Rightarrow> u64 \<Rightarrow> audit_segment store_eff" where
  "store_read k i =
     bind_eff (store_io (io_read (path_for i))) (\<lambda>bytes.
     case opt_bind (from_slice k bytes) segment_of_json of
       None \<Rightarrow> throw_eff PJson
     | Some s \<Rightarrow> return_eff s)"

definition strip_suffix :: "string \<Rightarrow> string \<Rightarrow> string option" where
  "strip_suffix n p = (if ends_with n p then Some (take (length n - length p) n) else None)"

definition audit_id :: "string \<Rightarrow> u64 option" where
  "audit_id n = opt_bind (strip_suffix n SUFFIX) parse_hex_u64"

definition store_list :: "u64 list store_eff" where
  "store_list =
     bind_eff (store_io io_read_dir) (\<lambda>names. return_eff (sort (List.map_filter audit_id names)))"

definition verify_step :: "crypto \<Rightarrow> json_text \<Rightarrow> u64 \<Rightarrow> verify_report \<times> byte list option \<Rightarrow>
    (verify_report \<times> byte list option) store_eff" where
  "verify_step c k i = (\<lambda>(report, prev_tip).
     bind_eff (store_read k i) (\<lambda>s.
     case verify_segment c s of
       Inl e \<Rightarrow> throw_eff (PVerify e)
     | Inr _ \<Rightarrow>
        bind_eff
          (case (prev_tip, sg_records s) of
             (Some anchor, first # _) \<Rightarrow>
               if prev_hash first \<noteq> anchor then throw_eff (PVerify (ChainBroken 0))
               else (case verify_chain c (sg_records s) anchor (seq (record_of first)) of
                       Inl e \<Rightarrow> throw_eff (PVerify e)
                     | Inr _ \<Rightarrow> return_eff ())
           | _ \<Rightarrow> return_eff ())
          (\<lambda>_. return_eff
             (\<lparr>segments_verified = segments_verified report + 1,
               records_verified = records_verified report + length (sg_records s)\<rparr>,
              if sg_records s = [] then None else Some (this_hash (last (sg_records s)))))))"

definition verify_all :: "crypto \<Rightarrow> json_text \<Rightarrow> verify_report store_eff" where
  "verify_all c k =
     bind_eff store_list (\<lambda>ids.
     bind_eff (for_each (verify_step c k) ids (\<lparr>segments_verified = 0, records_verified = 0\<rparr>, None))
       (\<lambda>(report, _). return_eff report))"

section \<open>The daemon's writer\<close>

datatype writer_error = Persist persist_error | WriterIo io_error

record audit_writer =
  inner :: chain_writer
  aw_disk :: disk
  aw_signer :: signer
  aw_tenant :: string
  tip :: "byte list"
  aw_next_seq :: u64
  next_segment_id :: u64
  max_records_per_segment :: u64

type_synonym 'a writer_eff = "(audit_writer, writer_error, 'a) eff"

definition on_store :: "'a store_eff \<Rightarrow> 'a writer_eff" where
  "on_store m w = (case m (aw_disk w) of (r, d) \<Rightarrow> (map_err Persist r, w\<lparr>aw_disk := d\<rparr>))"

definition writer_open :: "json_text \<Rightarrow> disk \<Rightarrow> string \<Rightarrow> signer \<Rightarrow>
    (writer_error, audit_writer) result \<times> disk" where
  "writer_open k d tenant key =
     (case bind_eff store_open (\<lambda>_.
           bind_eff store_list (\<lambda>ids.
           bind_eff
             (if ids = [] then return_eff (GENESIS_PREV_HASH, 0, 0)
              else bind_eff (store_read k (last ids)) (\<lambda>s. return_eff
                (if sg_records s = [] then GENESIS_PREV_HASH else this_hash (last (sg_records s)),
                 if sg_records s = [] then 0 else seq (record_of (last (sg_records s))) + 1,
                 last ids + 1)))
             (\<lambda>(t, n, i) d. (Inr \<lparr>inner = from_tip t n, aw_disk = d, aw_signer = key,
                aw_tenant = tenant, tip = t, aw_next_seq = n, next_segment_id = i,
                max_records_per_segment = 1000\<rparr>, d)))) d of
        (r, d') \<Rightarrow> (map_err Persist r, d'))"

definition with_max_records_per_segment :: "u64 \<Rightarrow> audit_writer \<Rightarrow> audit_writer" where
  "with_max_records_per_segment n w = w\<lparr>max_records_per_segment := max n 1\<rparr>"

definition close_segment :: "json_text \<Rightarrow> string option writer_eff" where
  "close_segment k =
     bind_eff get_eff (\<lambda>w.
     if cw_records (inner w) = [] then return_eff None
     else
       let (seg, _) = close_chain (next_segment_id w) (aw_signer w) (inner w);
           t = (if sg_records seg = [] then tip w else this_hash (last (sg_records seg)));
           n = (if sg_records seg = [] then aw_next_seq w
                else seq (record_of (last (sg_records seg))) + 1)
       in bind_eff (modify_eff (\<lambda>w. w\<lparr>tip := t, aw_next_seq := n, inner := from_tip t n,
              next_segment_id := next_segment_id w + 1\<rparr>)) (\<lambda>_.
          bind_eff (on_store (store_write k seg)) (\<lambda>path. return_eff (Some path))))"

definition observe :: "crypto \<Rightarrow> json_text \<Rightarrow> i64 \<Rightarrow> string \<Rightarrow> byte list \<Rightarrow> unit writer_eff" where
  "observe c k now_us kind payload =
     bind_eff (modify_eff (\<lambda>w. w\<lparr>inner := snd (chain_append c
         \<lparr>seq = 0, timestamp_us = now_us, ar_tenant_id = aw_tenant w, ar_kind = kind,
          ar_commitment = payload_commitment c payload, redacted = False\<rparr> (inner w))\<rparr>)) (\<lambda>_.
     bind_eff get_eff (\<lambda>w.
     if max_records_per_segment w \<le> of_nat (length (cw_records (inner w)))
     then bind_eff (close_segment k) (\<lambda>_. return_eff ())
     else return_eff ()))"

definition flush :: "json_text \<Rightarrow> string option writer_eff" where
  "flush k = close_segment k"

section \<open>The development signer\<close>

text \<open>\<open>signer.rs\<close>: a seed in a file, created with \<open>fresh\<close> bytes when the file is absent.\<close>

datatype file_key_error = FkIo io_error | BadLength

definition key_io :: "(disk, io_error, 'a) eff \<Rightarrow> (disk, file_key_error, 'a) eff" where
  "key_io m d = (case m d of (r, d') \<Rightarrow> (map_err FkIo r, d'))"

definition load_or_create_dev :: "crypto \<Rightarrow> byte list \<Rightarrow> string \<Rightarrow> (disk, file_key_error, signer) eff" where
  "load_or_create_dev c fresh path =
     bind_eff get_eff (\<lambda>d.
     bind_eff
       (if file_at d path \<noteq> None then
          bind_eff (key_io (io_read path)) (\<lambda>bytes.
            if length bytes \<noteq> 32 then throw_eff BadLength else return_eff bytes)
        else
          bind_eff (key_io io_create_dir) (\<lambda>_.
          bind_eff (key_io (io_create path)) (\<lambda>_.
          bind_eff (key_io (io_write path fresh)) (\<lambda>_. return_eff fresh))))
       (\<lambda>seed. return_eff (software_signer c seed)))"

end
