(* ===== verification/Audit_Chain_Proofs.thy ===== *)
theory Audit_Chain_Proofs
  imports Audit_Chain
begin

text \<open>
  Correctness of the audit chain: the codec round trip, exactness of the verifier (verdict,
  error kind and index), verifiability of what the writer produces, tamper evidence reduced
  to an explicit hash collision, and the effect of redaction.
\<close>

section \<open>Hexadecimal codec\<close>

lemma from_hex_HEX:
  assumes "n < 16"
  shows "from_hex (of_nat (of_char (HEX ! n))) = Inr (of_nat n)"
proof -
  have "\<forall>n \<in> set [0..<16]. from_hex (of_nat (of_char (HEX ! n))) = Inr (of_nat n)"
    by (simp add: upt_rec HEX_def from_hex_def)
  with assms show ?thesis by simp
qed

lemma nibbles: "or (push_bit 4 (drop_bit 4 b)) (and b 15) = (b :: byte)"
proof (rule bit_word_eqI)
  fix n
  have 15: "(15 :: byte) = mask 4" by (simp add: mask_eq_exp_minus_1)
  show "bit (or (push_bit 4 (drop_bit 4 b)) (and b 15)) n = bit b n"
    if "n < LENGTH(8)" using that unfolding 15
    by (auto simp: bit_simps)
qed

lemma nibble_less: "unat (drop_bit 4 b) < 16" "unat (and b 15) < 16" for b :: byte
proof -
  have "unat b < 256" by (rule unat_byte_less)
  then show "unat (drop_bit 4 b) < 16" 
    unfolding unat_drop_bit_eq by (simp add: drop_bit_eq_div less_mult_imp_div_less)
  have "and b 15 = take_bit 4 b" by (simp add: take_bit_eq_mask mask_eq_exp_minus_1)
  then have "unat (and b 15) = take_bit 4 (unat b)" by (simp only: unsigned_take_bit_eq)
  then show "unat (and b 15) < 16" by (simp only: take_bit_eq_mod) simp
qed

lemma hex_pairs_encode: "hex_pairs (str_bytes (hex_encode bs)) = Inr bs"
proof (induction bs)
  case Nil
  then show ?case by (simp add: hex_encode_def str_bytes_def)
next
  case (Cons b bs)
  then show ?case
    by (simp add: hex_encode_def str_bytes_def from_hex_HEX nibble_less nibbles)
qed

lemma length_hex_encode [simp]: "length (hex_encode bs) = 2 * length bs"
  by (induction bs) (simp_all add: hex_encode_def)

text \<open>Hex codec: decoding an encoded byte string gives it back, for any length, and the
  fixed-length serde helpers accept exactly the encodings of their length.\<close>

theorem hex_roundtrip:
  "hex_decode (hex_encode bs) = Inr bs \<and>
   hex_fixed n (hex_encode bs) = (if length bs = n then Some bs else None)"
  by (simp add: hex_fixed_def hex_decode_def hex_pairs_encode)

section \<open>Canonical bytes\<close>

lemma take_app: "length x = length y \<Longrightarrow> x @ u = y @ v \<longleftrightarrow> x = y \<and> u = v"
  by simp

definition small :: "audit_record \<Rightarrow> bool" where
  "small r \<longleftrightarrow> length (ar_tenant_id r) < 2 ^ 32 \<and> length (ar_kind r) < 2 ^ 32 \<and>
     length (ar_commitment r) = HASH_LEN"

lemma len32_inject:
  assumes "m < 2 ^ 32" "n < 2 ^ 32" "u32_to_be (of_nat m) = u32_to_be (of_nat n)"
  shows "m = n"
proof -
  have "(of_nat m :: u32) = of_nat n" using assms(3) by (simp add: u32_to_be_inject)
  then have "unat (of_nat m :: u32) = unat (of_nat n :: u32)" by simp
  with assms(1,2) show ?thesis by (simp add: unsigned_of_nat take_bit_nat_eq_self)
qed

lemma canonical_bytes_inject:
  assumes "small r" "small s" "canonical_bytes r = canonical_bytes s"
  shows "r = s"
proof -
  have "seq r = seq s" "timestamp_us r = timestamp_us s"
    and 1: "u32_to_be (of_nat (length (ar_tenant_id r))) = u32_to_be (of_nat (length (ar_tenant_id s)))"
    using assms(3) by (auto simp: canonical_bytes_def u64_to_be_inject)
  moreover have l: "length (ar_tenant_id r) = length (ar_tenant_id s)"
    using assms(1,2) 1 by (auto simp: small_def intro: len32_inject)
  moreover have t: "ar_tenant_id r = ar_tenant_id s"
    and 2: "u32_to_be (of_nat (length (ar_kind r))) = u32_to_be (of_nat (length (ar_kind s)))"
    using assms(3) l by (auto simp: canonical_bytes_def str_bytes_inject)
  moreover have k: "length (ar_kind r) = length (ar_kind s)"
    using assms(1,2) 2 by (auto simp: small_def intro: len32_inject)
  moreover have "ar_kind r = ar_kind s" "ar_commitment r = ar_commitment s"
    "redacted r = redacted s"
    using assms l k by (auto simp: canonical_bytes_def str_bytes_inject small_def split: if_splits)
  ultimately show ?thesis by simp
qed

section \<open>The verifier is exact\<close>

text \<open>What has to hold at position \<open>i\<close> of a run anchored at \<open>a\<close> with first sequence number \<open>s\<close>.\<close>

definition expected_prev :: "byte list \<Rightarrow> chained_record list \<Rightarrow> nat \<Rightarrow> byte list" where
  "expected_prev a rs i = (if i = 0 then a else this_hash (rs ! (i - 1)))"

definition link_ok :: "crypto \<Rightarrow> byte list \<Rightarrow> u64 \<Rightarrow> chained_record list \<Rightarrow> nat \<Rightarrow> bool" where
  "link_ok c a s rs i \<longleftrightarrow> seq (record_of (rs ! i)) = s + of_nat i \<and>
     prev_hash (rs ! i) = expected_prev a rs i \<and>
     record_hash c (prev_hash (rs ! i)) (record_of (rs ! i)) = this_hash (rs ! i)"

definition chained :: "crypto \<Rightarrow> byte list \<Rightarrow> u64 \<Rightarrow> chained_record list \<Rightarrow> bool" where
  "chained c a s rs \<longleftrightarrow> (\<forall>i<length rs. link_ok c a s rs i)"

definition tip_of :: "byte list \<Rightarrow> chained_record list \<Rightarrow> byte list" where
  "tip_of a rs = (if rs = [] then a else this_hash (last rs))"

text \<open>The first thing wrong at position \<open>i\<close>, in the order the verifier looks.\<close>

definition broken_at :: "crypto \<Rightarrow> byte list \<Rightarrow> u64 \<Rightarrow> chained_record list \<Rightarrow> nat \<Rightarrow> verify_error \<Rightarrow> bool" where
  "broken_at c a s rs i e \<longleftrightarrow> i < length rs \<and> (\<forall>j<i. link_ok c a s rs j) \<and>
     (let cr = rs ! i; n = s + of_nat i; p = expected_prev a rs i in
      if seq (record_of cr) \<noteq> n then e = SeqBroken i n (seq (record_of cr))
      else if prev_hash cr \<noteq> p then e = ChainBroken i
      else record_hash c (prev_hash cr) (record_of cr) \<noteq> this_hash cr \<and> e = RecordHashMismatch i)"

lemma link_ok_Cons_Suc [simp]:
  "link_ok c a s (r # rs) (Suc i) \<longleftrightarrow> link_ok c (this_hash r) (s + 1) rs i"
  by (cases i) (auto simp: link_ok_def expected_prev_def add.assoc)

lemma link_ok_Cons_0:
  "link_ok c a s (r # rs) 0 \<longleftrightarrow> seq (record_of r) = s \<and> prev_hash r = a \<and>
     record_hash c (prev_hash r) (record_of r) = this_hash r"
  by (simp add: link_ok_def expected_prev_def)

lemma chained_Nil [simp]: "chained c a s []"
  by (simp add: chained_def)

lemma chained_Cons [simp]:
  "chained c a s (r # rs) \<longleftrightarrow> link_ok c a s (r # rs) 0 \<and> chained c (this_hash r) (s + 1) rs"
  by (auto simp: chained_def less_Suc_eq_0_disj)

lemma tip_of_simps [simp]: "tip_of a [] = a" "tip_of a (r # rs) = tip_of (this_hash r) rs"
  by (simp_all add: tip_of_def)

lemma chained_append:
  "chained c a s (xs @ ys) \<longleftrightarrow>
     chained c a s xs \<and> chained c (tip_of a xs) (s + of_nat (length xs)) ys"
  by (induction xs arbitrary: a s) (auto simp: link_ok_Cons_0 add.assoc add.commute)

lemma tip_of_append [simp]: "tip_of a (xs @ ys) = tip_of (tip_of a xs) ys"
  by (simp add: tip_of_def)

fun shift_error :: "nat \<Rightarrow> verify_error \<Rightarrow> verify_error" where
  "shift_error k (SeqBroken i m n) = SeqBroken (k + i) m n"
| "shift_error k (ChainBroken i) = ChainBroken (k + i)"
| "shift_error k (RecordHashMismatch i) = RecordHashMismatch (k + i)"
| "shift_error k e = e"

lemma verify_from_shift:
  "verify_from c (k + i) p n rs = map_err (shift_error k) (verify_from c i p n rs)"
  by (induction rs arbitrary: i p n) (simp_all flip: add_Suc_right)

lemma verify_from_ok: "verify_from c i p n rs = Inr t \<longleftrightarrow> chained c p n rs \<and> t = tip_of p rs"
  by (induction rs arbitrary: i p n) (auto simp: link_ok_Cons_0)

lemma broken_at_Suc:
  "link_ok c a s (r # rs) 0 \<Longrightarrow>
     broken_at c a s (r # rs) (Suc i) (shift_error 1 e) \<longleftrightarrow> broken_at c (this_hash r) (s + 1) rs i e"
  by (cases e; cases i) (auto simp: broken_at_def expected_prev_def Let_def All_less_Suc2 add.assoc)

lemma verify_from_error:
  "verify_from c 0 p n rs = Inl e \<Longrightarrow> \<exists>i. broken_at c p n rs i e"
proof (induction rs arbitrary: p n e)
  case Nil
  then show ?case by simp
next
  case (Cons r rs)
  show ?case
  proof (cases "link_ok c p n (r # rs) 0")
    case True
    then have "verify_from c 1 (this_hash r) (n + 1) rs = Inl e"
      using Cons.prems by (auto simp: link_ok_Cons_0)
    then obtain e' where "verify_from c 0 (this_hash r) (n + 1) rs = Inl e'" "e = shift_error 1 e'"
      using verify_from_shift [of c 1 0] by (cases "verify_from c 0 (this_hash r) (n + 1) rs") auto
    then show ?thesis using Cons.IH True broken_at_Suc by blast
  next
    case False
    then have "broken_at c p n (r # rs) 0 e"
      using Cons.prems by (auto simp: broken_at_def link_ok_Cons_0 expected_prev_def split: if_splits)
    then show ?thesis ..
  qed
qed

lemma broken_at_unique: "broken_at c a s rs i e \<Longrightarrow> broken_at c a s rs j e' \<Longrightarrow> i = j \<and> e = e'"
proof -
  assume 1: "broken_at c a s rs i e" and 2: "broken_at c a s rs j e'"
  have "\<not> link_ok c a s rs i" "\<not> link_ok c a s rs j"
    using 1 2 by (auto simp: broken_at_def link_ok_def Let_def split: if_splits)
  then have "i = j" using 1 2 by (metis broken_at_def linorder_neqE_nat)
  with 1 2 show ?thesis by (auto simp: broken_at_def Let_def split: if_splits)
qed

lemma broken_at_verify: "broken_at c a s rs i e \<Longrightarrow> verify_chain c rs a s = Inl e"
proof -
  assume b: "broken_at c a s rs i e"
  then have "\<not> link_ok c a s rs i" "i < length rs"
    by (auto simp: broken_at_def link_ok_def Let_def split: if_splits)
  then have "\<not> chained c a s rs" "rs \<noteq> []" by (auto simp: chained_def)
  then obtain e' where e': "verify_chain c rs a s = Inl e'" "verify_from c 0 a s rs = Inl e'"
    using verify_from_ok [of c 0 a s rs] by (cases "verify_from c 0 a s rs") (auto simp: verify_chain_def)
  from verify_from_error [OF e'(2)] obtain j where "broken_at c a s rs j e'" ..
  with b e'(1) show ?thesis using broken_at_unique by metis
qed

text \<open>Claim C9 (exact verdict): \<open>verify_chain\<close> accepts a run exactly when it is not empty and every
  record has the next sequence number, commits to its predecessor's hash and carries the
  hash of its own contents, and then returns the last hash.  A rejection names the first
  record at which one of the three fails, which one, and for a sequence gap both numbers.\<close>

theorem verify_chain_exact:
  "case verify_chain c rs a s of
     Inr t \<Rightarrow> rs \<noteq> [] \<and> chained c a s rs \<and> t = tip_of a rs
   | Inl e \<Rightarrow> if rs = [] then e = EmptySegment
       else \<not> chained c a s rs \<and> (\<exists>i. broken_at c a s rs i e)"
proof (cases "verify_from c 0 a s rs")
  case (Inl e)
  then have "\<not> chained c a s rs" using verify_from_ok [of c 0 a s rs] by auto
  with Inl show ?thesis by (auto simp: verify_chain_def dest: verify_from_error)
next
  case (Inr t)
  then show ?thesis using verify_from_ok [of c 0 a s rs t] by (simp add: verify_chain_def)
qed

text \<open>A cryptography the hypotheses hold for: a "hash" that pads its input, so that different
  short inputs collide only where they agree, and one signature for every message.\<close>

definition toy_crypto :: crypto where
  "toy_crypto = \<lparr>blake3 = (\<lambda>m. take HASH_LEN (rev m @ replicate HASH_LEN 0)),
     ed_public = (\<lambda>k. replicate 32 7), ed_sign = (\<lambda>k m. replicate 64 5),
     ed_key_valid = (\<lambda>p. length p = 32), ed_verify = (\<lambda>p m sg. sg = replicate 64 5)\<rparr>"

lemma toy_crypto_ok: "crypto_ok toy_crypto"
  by (simp add: crypto_ok_def toy_crypto_def min_def)

definition toy_record :: "byte \<Rightarrow> audit_record" where
  "toy_record b = \<lparr>seq = 0, timestamp_us = 0, ar_tenant_id = ''t'', ar_kind = ''evt'',
     ar_commitment = replicate 32 b, redacted = False\<rparr>"

section \<open>What the writer produces verifies\<close>

definition write_all :: "crypto \<Rightarrow> audit_record list \<Rightarrow> chain_writer \<Rightarrow> chain_writer" where
  "write_all c rs w = foldl (\<lambda>w r. snd (chain_append c r w)) w rs"

definition writer_ok :: "crypto \<Rightarrow> byte list \<Rightarrow> u64 \<Rightarrow> chain_writer \<Rightarrow> bool" where
  "writer_ok c a s w \<longleftrightarrow> chained c a s (cw_records w) \<and> tip_hash w = tip_of a (cw_records w) \<and>
     next_seq w = s + of_nat (length (cw_records w))"

lemma writer_ok_from_tip [simp]: "writer_ok c a s (from_tip a s)"
  by (simp add: writer_ok_def from_tip_def)

lemma writer_ok_append:
  "writer_ok c a s w \<Longrightarrow> writer_ok c a s (snd (chain_append c r w))"
  by (auto simp: writer_ok_def chain_append_def Let_def chained_append link_ok_Cons_0 tip_of_def)

lemma writer_ok_write_all: "writer_ok c a s w \<Longrightarrow> writer_ok c a s (write_all c rs w)"
  by (induction rs arbitrary: w) (simp_all add: write_all_def writer_ok_append)

lemma write_all_records:
  "map record_of (cw_records (write_all c rs w)) =
     map record_of (cw_records w) @ map (\<lambda>i. (rs ! i)\<lparr>seq := next_seq w + of_nat i\<rparr>) [0..<length rs]"
proof (induction rs arbitrary: w)
  case Nil
  then show ?case by (simp add: write_all_def)
next
  case (Cons r rs)
  have "[0..<length (r # rs)] = 0 # map Suc [0..<length rs]"
    by (simp add: map_Suc_upt upt_conv_Cons del: upt_Suc)
  with Cons [of "snd (chain_append c r w)"] show ?case
    by (simp add: write_all_def chain_append_def Let_def comp_def add.assoc del: upt_Suc)
qed

lemma verify_signed_segment:
  assumes "crypto_ok c" "writer_ok c a s w" "cw_records w \<noteq> []"
  shows "verify_segment c (fst (close_chain i (software_signer c k) w)) = Inr ()"
proof -
  obtain r rs where w: "cw_records w = r # rs" using assms(3) by (cases "cw_records w") auto
  have "seq (record_of r) = s" "prev_hash r = a"
    using assms(2) by (auto simp: writer_ok_def w link_ok_Cons_0)
  moreover have "verify_from c 0 a s (cw_records w) = Inr (tip_hash w)"
    using assms(2) by (simp add: verify_from_ok writer_ok_def)
  ultimately show ?thesis
    using assms(1) by (simp add: verify_segment_def close_chain_def verify_chain_def w
        software_signer_def crypto_ok_def)
qed

text \<open>Completeness: whatever records are appended to a writer that resumes at any tip and
  sequence number, the segment it closes holds exactly those records, numbered consecutively,
  and verifies; the writer goes on from the segment's tip with the next number.\<close>

theorem written_segment_verifies:
  assumes "crypto_ok c" and "rs \<noteq> []"
  shows "case close_chain i (software_signer c k) (write_all c rs (from_tip t n)) of (seg, w) \<Rightarrow>
     verify_segment c seg = Inr () \<and> sg_id seg = i \<and>
     map record_of (sg_records seg) = map (\<lambda>j. (rs ! j)\<lparr>seq := n + of_nat j\<rparr>) [0..<length rs] \<and>
     prev_hash (hd (sg_records seg)) = t \<and>
     w = from_tip (tip_of t (sg_records seg)) (n + of_nat (length rs))"
proof -
  let ?w = "write_all c rs (from_tip t n)"
  have ok: "writer_ok c t n ?w" by (simp add: writer_ok_write_all)
  have recs: "map record_of (cw_records ?w) = map (\<lambda>j. (rs ! j)\<lparr>seq := n + of_nat j\<rparr>) [0..<length rs]"
    using write_all_records [of c rs "from_tip t n"] by (simp add: from_tip_def)
  from arg_cong [OF this, of length] have len: "length (cw_records ?w) = length rs" by simp
  with assms(2) have ne: "cw_records ?w \<noteq> []" by auto
  then have "prev_hash (hd (cw_records ?w)) = t"
    using ok by (cases "cw_records ?w") (auto simp: writer_ok_def link_ok_Cons_0)
  moreover have "tip_hash ?w = tip_of t (cw_records ?w)" "next_seq ?w = n + of_nat (length rs)"
    using ok len by (simp_all add: writer_ok_def)
  then have "?w\<lparr>cw_records := []\<rparr> = from_tip (tip_of t (cw_records ?w)) (n + of_nat (length rs))"
    by (simp add: from_tip_def)
  ultimately show ?thesis
    using verify_signed_segment [OF assms(1) ok ne, of i k] recs
    unfolding close_chain_def by simp
qed

theorem written_segment_verifies_witness:
  "verify_segment toy_crypto (fst (close_chain 3 (software_signer toy_crypto [1])
     (write_all toy_crypto [toy_record 4, toy_record 5] (from_tip GENESIS_PREV_HASH 0)))) = Inr ()"
  using written_segment_verifies [OF toy_crypto_ok, where rs = "[toy_record 4, toy_record 5]" and i = 3
      and k = "[1]" and t = GENESIS_PREV_HASH and n = 0]
  by (simp add: split_beta)

section \<open>Tamper evidence\<close>

definition preimage :: "chained_record \<Rightarrow> byte list" where
  "preimage cr = prev_hash cr @ canonical_bytes (record_of cr)"

definition collision :: "crypto \<Rightarrow> chained_record list \<Rightarrow> chained_record list \<Rightarrow> bool" where
  "collision c rs rs' \<longleftrightarrow> (\<exists>x\<in>set rs. \<exists>y\<in>set rs'.
     preimage x \<noteq> preimage y \<and> blake3 c (preimage x) = blake3 c (preimage y))"

lemma chained_snoc:
  "chained c a s (xs @ [x]) \<longleftrightarrow> chained c a s xs \<and> seq (record_of x) = s + of_nat (length xs) \<and>
     prev_hash x = tip_of a xs \<and> blake3 c (preimage x) = this_hash x"
  by (auto simp: chained_append link_ok_Cons_0 record_hash_def preimage_def)

lemma length_tip:
  "crypto_ok c \<Longrightarrow> length a = HASH_LEN \<Longrightarrow> chained c a s xs \<Longrightarrow> length (tip_of a xs) = HASH_LEN"
proof (induction xs rule: rev_induct)
  case (snoc x xs)
  then have "this_hash x = blake3 c (preimage x)" by (simp add: chained_snoc)
  with snoc.prems(1) show ?case by (simp add: crypto_ok_def tip_of_def)
qed simp

text \<open>Two verified runs with the same last hash end in the same record, or collide.\<close>

lemma last_records_agree:
  assumes "crypto_ok c" "length a = HASH_LEN" "small (record_of x)" "small (record_of y)"
    and "chained c a s (xs @ [x])" "chained c a s (ys @ [y])" "this_hash x = this_hash y"
    and "preimage x \<noteq> preimage y \<longrightarrow> blake3 c (preimage x) \<noteq> blake3 c (preimage y)"
  shows "x = y \<and> tip_of a xs = tip_of a ys"
proof -
  have "blake3 c (preimage x) = blake3 c (preimage y)"
    using assms(5-7) by (simp add: chained_snoc)
  with assms(8) have p: "preimage x = preimage y" by blast
  have pr: "prev_hash x = tip_of a xs" "prev_hash y = tip_of a ys"
    using assms(5,6) by (simp_all add: chained_snoc)
  then have "length (prev_hash x) = length (prev_hash y)"
    using length_tip [OF assms(1,2)] assms(5,6) by (auto simp: chained_snoc)
  with p have "prev_hash x = prev_hash y" "canonical_bytes (record_of x) = canonical_bytes (record_of y)"
    by (simp_all add: preimage_def)
  with assms(3,4,7) pr canonical_bytes_inject show ?thesis by auto
qed

lemma chains_agree:
  assumes "crypto_ok c" "length a = HASH_LEN"
    and "chained c a s rs" "chained c a s rs'" "tip_of a rs = tip_of a rs'" "length rs = length rs'"
    and "\<forall>r \<in> set rs \<union> set rs'. small (record_of r)" "\<not> collision c rs rs'"
  shows "rs = rs'"
  using assms(3-8)
proof (induction rs arbitrary: rs' rule: rev_induct)
  case (snoc x xs)
  then obtain ys y where y: "rs' = ys @ [y]" by (metis length_0_conv append_is_Nil_conv list.distinct(1) rev_exhaust)
  have "x = y \<and> tip_of a xs = tip_of a ys"
    using snoc.prems by (intro last_records_agree [OF assms(1,2)]) (auto simp: y collision_def)
  moreover have "\<not> collision c xs ys" using snoc.prems(6) by (auto simp: y collision_def)
  ultimately show ?case using snoc.IH [of ys] snoc.prems by (auto simp: y chained_append)
qed simp

text \<open>Claim C10 (tamper evidence): if two runs of records verify from the same anchor to the same tip,
  they are the same records, or two of their records are an explicit hash collision: no
  record can be changed, dropped, added or moved under a fixed tip without one.\<close>

theorem tampering_needs_collision:
  assumes "crypto_ok c" "length a = HASH_LEN"
    and "verify_chain c rs a s = Inr t" "verify_chain c rs' a s = Inr t"
    and "\<forall>r \<in> set rs \<union> set rs'. small (record_of r)"
    and "length rs < 2 ^ 64" "length rs' < 2 ^ 64"
  shows "rs = rs' \<or> (\<exists>x\<in>set rs. \<exists>y\<in>set rs'.
     preimage x \<noteq> preimage y \<and> blake3 c (preimage x) = blake3 c (preimage y))"
proof (rule disjCI)
  assume "\<not> (\<exists>x\<in>set rs. \<exists>y\<in>set rs'.
     preimage x \<noteq> preimage y \<and> blake3 c (preimage x) = blake3 c (preimage y))"
  then have nc: "\<not> collision c rs rs'" by (simp add: collision_def)
  have v: "rs \<noteq> []" "rs' \<noteq> []" "chained c a s rs" "chained c a s rs'" "tip_of a rs = tip_of a rs'"
    using assms(3,4) by (auto simp: verify_chain_def verify_from_ok split: if_splits)
  then obtain xs x ys y where e: "rs = xs @ [x]" "rs' = ys @ [y]" by (metis rev_exhaust)
  have "x = y"
    using last_records_agree [OF assms(1,2), of x y s xs ys] v assms(5) nc
    by (auto simp: e collision_def)
  then have "(of_nat (length xs) :: u64) = of_nat (length ys)"
    using v(3,4) by (simp add: e chained_snoc)
  then have "unat (of_nat (length xs) :: u64) = unat (of_nat (length ys) :: u64)" by simp
  then have "length xs = length ys" using assms(6,7) by (simp add: e unat_of_nat_u64)
  then show "rs = rs'"
    using chains_agree [OF assms(1,2) v(3-5) _ assms(5) nc] by (simp add: e)
qed

text \<open>With a hash that is constant, every change of a record is such a collision.\<close>

definition flat_crypto :: crypto where
  "flat_crypto = toy_crypto\<lparr>blake3 := (\<lambda>m. replicate HASH_LEN 0)\<rparr>"

definition flat_link :: "string \<Rightarrow> chained_record" where
  "flat_link k = \<lparr>record_of = (toy_record 4)\<lparr>ar_kind := k\<rparr>, prev_hash = GENESIS_PREV_HASH,
     this_hash = GENESIS_PREV_HASH\<rparr>"

theorem tampering_needs_collision_witness:
  "\<exists>x\<in>{flat_link ''a''}. \<exists>y\<in>{flat_link ''b''}.
     preimage x \<noteq> preimage y \<and> blake3 flat_crypto (preimage x) = blake3 flat_crypto (preimage y)"
proof -
  have ok: "crypto_ok flat_crypto"
    using toy_crypto_ok by (simp add: crypto_ok_def flat_crypto_def)
  have v: "verify_chain flat_crypto [flat_link k] GENESIS_PREV_HASH 0 = Inr GENESIS_PREV_HASH" for k
    by (simp add: verify_chain_def flat_link_def toy_record_def record_hash_def flat_crypto_def
        GENESIS_PREV_HASH_def)
  have "flat_link ''a'' \<noteq> flat_link ''b''" by (simp add: flat_link_def toy_record_def)
  moreover have "[flat_link ''a''] = [flat_link ''b''] \<or> (\<exists>x\<in>set [flat_link ''a'']. \<exists>y\<in>set [flat_link ''b''].
     preimage x \<noteq> preimage y \<and> blake3 flat_crypto (preimage x) = blake3 flat_crypto (preimage y))"
    by (rule tampering_needs_collision [OF ok _ v v])
      (simp_all add: GENESIS_PREV_HASH_def small_def flat_link_def toy_record_def HASH_LEN_def)
  ultimately show ?thesis by simp
qed

section \<open>Redaction\<close>

lemma canonical_mark_redacted:
  "\<not> redacted (record_of cr) \<Longrightarrow> preimage (mark_redacted cr) \<noteq> preimage cr"
  by (simp add: preimage_def mark_redacted_def canonical_bytes_def)

text \<open>Redaction: marking a record of a verified run as redacted makes the verifier reject
  the run at exactly that record with a hash mismatch, unless the two versions of the record
  are a hash collision.\<close>

theorem redaction_breaks_chain:
  assumes "verify_chain c rs a s = Inr t" "i < length rs" "\<not> redacted (record_of (rs ! i))"
  shows "verify_chain c (rs[i := mark_redacted (rs ! i)]) a s = Inl (RecordHashMismatch i) \<or>
    (preimage (mark_redacted (rs ! i)) \<noteq> preimage (rs ! i) \<and>
     blake3 c (preimage (mark_redacted (rs ! i))) = blake3 c (preimage (rs ! i)))"
proof -
  let ?m = "mark_redacted (rs ! i)" and ?rs = "rs[i := mark_redacted (rs ! i)]"
  have "chained c a s rs"
    using assms(1) by (auto simp: verify_chain_def verify_from_ok split: if_splits)
  then have ok: "link_ok c a s rs j" if "j < length rs" for j using that by (simp add: chained_def)
  have m: "seq (record_of ?m) = seq (record_of (rs ! i))" "prev_hash ?m = prev_hash (rs ! i)"
    "this_hash ?m = this_hash (rs ! i)" by (simp_all add: mark_redacted_def)
  have e: "expected_prev a ?rs j = expected_prev a rs j" if "j \<le> i" for j
    using that assms(2) by (simp add: expected_prev_def)
  show ?thesis
  proof (cases "blake3 c (preimage ?m) = blake3 c (preimage (rs ! i))")
    case True
    with canonical_mark_redacted [OF assms(3)] show ?thesis by simp
  next
    case False
    have "link_ok c a s ?rs j = link_ok c a s rs j" if "j < i" for j
      using that by (simp add: link_ok_def e)
    then have below: "\<forall>j<i. link_ok c a s ?rs j" using ok assms(2) by simp
    have "broken_at c a s ?rs i (RecordHashMismatch i)"
      unfolding broken_at_def Let_def using below assms(2) ok [OF assms(2)] e [of i] m False
      by (auto simp: link_ok_def [of _ _ _ rs] record_hash_def preimage_def)
    from broken_at_verify [OF this] show ?thesis ..
  qed
qed

definition toy_link :: chained_record where
  "toy_link = \<lparr>record_of = toy_record 4, prev_hash = GENESIS_PREV_HASH,
     this_hash = record_hash toy_crypto GENESIS_PREV_HASH (toy_record 4)\<rparr>"

theorem redaction_breaks_chain_witness:
  "verify_chain toy_crypto [mark_redacted toy_link] GENESIS_PREV_HASH 0 =
     Inl (RecordHashMismatch 0)"
proof -
  have v: "verify_chain toy_crypto [toy_link] GENESIS_PREV_HASH 0 = Inr (this_hash toy_link)"
    by (simp add: verify_chain_def toy_link_def toy_record_def)
  have "hd (blake3 toy_crypto (preimage cr)) = (if redacted (record_of cr) then 1 else 0)" for cr
    by (simp add: toy_crypto_def preimage_def canonical_bytes_def HASH_LEN_def)
  from this [of toy_link] this [of "mark_redacted toy_link"]
  have "blake3 toy_crypto (preimage (mark_redacted toy_link)) \<noteq> blake3 toy_crypto (preimage toy_link)"
    by (auto simp: mark_redacted_def toy_link_def toy_record_def)
  then show ?thesis
    using redaction_breaks_chain [OF v, of 0] by (simp add: toy_link_def toy_record_def)
qed

end
