(* ===== verification/Audit_Store_Proofs.thy ===== *)
theory Audit_Store_Proofs
  imports Audit_Store Audit_Chain_Proofs "HOL-Library.Countable"
begin

text \<open>
  The audit segments on disk: the JSON round trip, the directory listing, and
  \<open>verify_all\<close> over a directory that holds one continuous signed_ok chain.
\<close>

section \<open>JSON round trip\<close>

definition record_wf :: "chained_record \<Rightarrow> bool" where
  "record_wf r \<longleftrightarrow> length (ar_commitment (record_of r)) = HASH_LEN \<and>
     length (prev_hash r) = HASH_LEN \<and> length (this_hash r) = HASH_LEN"

definition segment_wf :: "audit_segment \<Rightarrow> bool" where
  "segment_wf s \<longleftrightarrow> list_all record_wf (sg_records s) \<and>
     length (tip_signature s) = 64 \<and> length (signer_pubkey s) = 32"

lemma hex_fixed_encode [simp]: "length bs = n \<Longrightarrow> hex_fixed n (hex_encode bs) = Some bs"
  by (simp add: hex_fixed_def hex_decode_def hex_pairs_encode)

lemma record_json: "record_wf r \<Longrightarrow> record_of_json (record_to_json (record_of r)) = Some (record_of r)"
  by (simp add: record_of_json_def record_to_json_def record_wf_def)

lemma chained_json: "record_wf r \<Longrightarrow> chained_of_json (chained_to_json r) = Some r"
  using record_json by (simp add: chained_of_json_def chained_to_json_def) (simp add: record_wf_def)

lemma segment_json: "segment_wf s \<Longrightarrow> segment_of_json (segment_to_json s) = Some s"
proof -
  assume wf: "segment_wf s"
  then have "those (map chained_of_json (map chained_to_json (sg_records s))) = Some (sg_records s)"
    using those_map [of "sg_records s" "chained_of_json \<circ> chained_to_json" id]
    by (auto simp: segment_wf_def list_all_iff chained_json)
  with wf show ?thesis
    by (simp add: segment_of_json_def segment_to_json_def segment_wf_def)
qed

text \<open>The documented contract of the JSON text functions, on the documents the store writes.\<close>

definition json_text_ok :: "json_text \<Rightarrow> bool" where
  "json_text_ok k \<longleftrightarrow>
     (\<forall>s. from_slice k (to_vec_pretty k (segment_to_json s)) = Some (segment_to_json s))"

text \<open>Persistence codec: a segment with hashes, keys and signatures of their fixed lengths
  is read back from its JSON text unchanged.\<close>

theorem segment_json_roundtrip:
  assumes "json_text_ok k" and "segment_wf s"
  shows "opt_bind (from_slice k (to_vec_pretty k (segment_to_json s))) segment_of_json = Some s"
  using assms by (simp add: json_text_ok_def segment_json)

text \<open>An instance of the contract: a document is written as its number in an enumeration of all
  documents.\<close>

definition numbered_text :: json_text where
  "numbered_text = \<lparr>to_vec_pretty = (\<lambda>j. replicate (to_nat j) 0),
     from_slice = (\<lambda>bs. Some (from_nat (length bs)))\<rparr>"

lemma numbered_text_ok: "json_text_ok numbered_text"
  by (simp add: json_text_ok_def numbered_text_def)

definition toy_segment :: audit_segment where
  "toy_segment = \<lparr>sg_id = 2, sg_records = [toy_link], tip_signature = replicate 64 5,
     signer_pubkey = replicate 32 7\<rparr>"

theorem segment_json_roundtrip_witness:
  "opt_bind (from_slice numbered_text (to_vec_pretty numbered_text (segment_to_json toy_segment)))
     segment_of_json = Some toy_segment"
proof (rule segment_json_roundtrip [OF numbered_text_ok])
  show "segment_wf toy_segment"
    using toy_crypto_ok by (simp add: toy_segment_def segment_wf_def toy_link_def record_wf_def
        toy_record_def crypto_ok_def record_hash_def HASH_LEN_def GENESIS_PREV_HASH_def)
qed

section \<open>Listing the directory\<close>

lemma path_for_inject [simp]: "path_for i = path_for j \<longleftrightarrow> i = j"
  by (simp add: path_for_def hex16_inject)

lemma audit_id_path_for [simp]: "audit_id (path_for i) = Some i"
  by (simp add: audit_id_def strip_suffix_def path_for_def)

lemma audit_id_tmp [simp]: "audit_id (hex16 i @ TMP_SUFFIX) = None"
  by (simp add: audit_id_def strip_suffix_def ends_with_def TMP_SUFFIX_def SUFFIX_def opt_bind_def)

definition files_ok :: "json_text \<Rightarrow> disk \<Rightarrow> audit_segment list \<Rightarrow> bool" where
  "files_ok k d segs \<longleftrightarrow> quiet d \<and> distinct (map fst (files d)) \<and> length segs < 2 ^ 64 \<and>
     (\<forall>i<length segs. file_at d (path_for (of_nat i)) =
        Some (to_vec_pretty k (segment_to_json (segs ! i)))) \<and>
     (\<forall>n i. file_at d n \<noteq> None \<and> audit_id n = Some i \<longrightarrow> n = path_for i \<and> unat i < length segs)"

lemma sorted_of_nat: "n \<le> 2 ^ 64 \<Longrightarrow> sorted_wrt (<) (map of_nat [0..<n] :: u64 list)"
proof (induction n)
  case (Suc n)
  have "of_nat m < (of_nat n :: u64)" if "m < n" for m
    using that Suc.prems by (simp add: word_less_nat_alt unat_of_nat_u64)
  with Suc show ?case by (simp add: sorted_wrt_append)
qed simp

lemma set_map_filter: "set (List.map_filter f xs) = {y. \<exists>x \<in> set xs. f x = Some y}"
  by (induction xs) (auto simp: List.map_filter_def split: option.splits)

lemma distinct_option_filter:
  assumes "distinct xs" "\<And>x y z. x \<in> set xs \<Longrightarrow> y \<in> set xs \<Longrightarrow> f x = Some z \<Longrightarrow> f y = Some z \<Longrightarrow> x = y"
  shows "distinct (List.map_filter f xs)"
  using assms
proof (induction xs)
  case (Cons x xs)
  then have "distinct (List.map_filter f xs)" by auto
  moreover have "z \<notin> set (List.map_filter f xs)" if "f x = Some z" for z
    using Cons.prems that by (auto simp: set_map_filter)
  ultimately show ?case by (auto simp: List.map_filter_simps split: option.split)
qed (simp add: List.map_filter_simps)

lemma file_at_names: "n \<in> set (map fst (files d)) \<longleftrightarrow> file_at d n \<noteq> None"
  by (metis file_at_def list.set_map map_of_eq_None_iff)

lemma store_list_eq:
  assumes "files_ok k d segs"
  shows "store_list d = (Inr (map of_nat [0..<length segs]), d)"
proof -
  let ?l = "List.map_filter audit_id (map fst (files d))"
  have ids: "file_at d n \<noteq> None \<Longrightarrow> audit_id n = Some i \<Longrightarrow> n = path_for i \<and> unat i < length segs" for n i
    using assms by (auto simp: files_ok_def)
  have "distinct ?l"
  proof (rule distinct_option_filter)
    show "distinct (map fst (files d))" using assms by (simp add: files_ok_def)
    show "x = y" if "x \<in> set (map fst (files d))" "y \<in> set (map fst (files d))"
      "audit_id x = Some z" "audit_id y = Some z" for x y z
      using that ids unfolding file_at_names by metis
  qed
  moreover have "set ?l = set (map of_nat [0..<length segs])"
  proof (intro equalityI subsetI)
    fix i assume "i \<in> set ?l"
    then obtain n where "file_at d n \<noteq> None" "audit_id n = Some i"
      unfolding set_map_filter using file_at_names by blast
    then have "unat i < length segs" using ids by blast
    then show "i \<in> set (map of_nat [0..<length segs])" by (force intro!: image_eqI [of _ _ "unat i"])
  next
    fix i :: u64 assume "i \<in> set (map of_nat [0..<length segs])"
    then obtain m where m: "m < length segs" "i = of_nat m" by auto
    then have "file_at d (path_for i) \<noteq> None" using assms by (simp add: files_ok_def)
    then show "i \<in> set ?l" unfolding set_map_filter using file_at_names audit_id_path_for by blast
  qed
  moreover have "sorted (map of_nat [0..<length segs] :: u64 list)"
    "distinct (map of_nat [0..<length segs] :: u64 list)"
    using sorted_of_nat [of "length segs"] assms
    by (auto simp: files_ok_def strict_sorted_iff)
  ultimately have "sort ?l = map of_nat [0..<length segs]"
    by (intro sorted_distinct_set_unique) auto
  moreover have "quiet d" using assms by (simp add: files_ok_def)
  ultimately show ?thesis by (simp add: store_list_def store_io_def bind_eff_def eff_defs)
qed

lemma store_read_eq:
  assumes "files_ok k d segs" "json_text_ok k" "i < length segs" "segment_wf (segs ! i)"
  shows "store_read k (of_nat i) d = (Inr (segs ! i), d)"
  using assms
  by (simp add: store_read_def store_io_def bind_eff_def eff_defs files_ok_def json_text_ok_def
      segment_json)

section \<open>Verifying the directory\<close>

definition all_records :: "audit_segment list \<Rightarrow> chained_record list" where
  "all_records segs = concat (map sg_records segs)"

lemma all_records_simps [simp]:
  "all_records [] = []" "all_records (s # segs) = sg_records s @ all_records segs"
  "all_records (segs @ segs') = all_records segs @ all_records segs'"
  by (simp_all add: all_records_def)

definition signed_ok :: "crypto \<Rightarrow> audit_segment \<Rightarrow> bool" where
  "signed_ok c s \<longleftrightarrow> segment_wf s \<and> sg_records s \<noteq> [] \<and> ed_key_valid c (signer_pubkey s) \<and>
     ed_verify c (signer_pubkey s) (this_hash (last (sg_records s))) (tip_signature s)"

lemma tip_of_nonempty: "xs \<noteq> [] \<Longrightarrow> tip_of a xs = this_hash (last xs)"
  by (simp add: tip_of_def)

lemma signed_first:
  assumes "signed_ok c s" "chained c a n (sg_records s)"
  obtains first rest where "sg_records s = first # rest" "prev_hash first = a" "seq (record_of first) = n"
  using assms by (cases "sg_records s") (auto simp: signed_ok_def link_ok_Cons_0)

lemma verify_signed:
  assumes "signed_ok c s" "chained c a n (sg_records s)"
  shows "verify_chain c (sg_records s) a n = Inr (this_hash (last (sg_records s)))"
    and "verify_segment c s = Inr ()"
proof -
  show v: "verify_chain c (sg_records s) a n = Inr (this_hash (last (sg_records s)))"
    using assms by (simp add: verify_chain_def verify_from_ok signed_ok_def tip_of_nonempty)
  obtain first rest where f: "sg_records s = first # rest" "prev_hash first = a" "seq (record_of first) = n"
    by (rule signed_first [OF assms])
  have "verify_segment c s = (case verify_chain c (sg_records s) a n of
       Inl e \<Rightarrow> Inl e
     | Inr t \<Rightarrow> if \<not> ed_key_valid c (signer_pubkey s) then Inl BadSignature
               else if ed_verify c (signer_pubkey s) t (tip_signature s) then Inr () else Inl BadSignature)"
    using f by (simp add: verify_segment_def)
  then show "verify_segment c s = Inr ()" using v assms(1) by (simp add: signed_ok_def)
qed

lemma verify_step_ok:
  assumes "store_read k i d = (Inr s, d)" "signed_ok c s" "chained c a n (sg_records s)"
    and "pt = None \<or> pt = Some a"
  shows "verify_step c k i (r, pt) d =
    (Inr (\<lparr>segments_verified = segments_verified r + 1,
            records_verified = records_verified r + length (sg_records s)\<rparr>,
          Some (tip_of a (sg_records s))), d)"
proof -
  obtain first rest where f: "sg_records s = first # rest" "prev_hash first = a" "seq (record_of first) = n"
    by (rule signed_first [OF assms(2,3)])
  from assms(4) show ?thesis
    using f verify_signed [OF assms(2,3)] assms(1)
    by (elim disjE) (simp_all add: verify_step_def bind_eff_def eff_defs tip_of_def)
qed

lemma verify_loop:
  assumes "list_all2 (\<lambda>i s. store_read k i d = (Inr s, d) \<and> signed_ok c s) ids segs"
    and "chained c a n (all_records segs)" "pt = None \<or> pt = Some a"
  shows "\<exists>pt'. for_each (verify_step c k) ids (r, pt) d =
    (Inr (\<lparr>segments_verified = segments_verified r + length segs,
            records_verified = records_verified r + length (all_records segs)\<rparr>, pt'), d)"
  using assms
proof (induction ids segs arbitrary: a n r pt rule: list_all2_induct)
  case Nil
  then show ?case by (simp add: return_eff_def)
next
  case (Cons i ids s segs)
  let ?r = "\<lparr>segments_verified = segments_verified r + 1,
            records_verified = records_verified r + length (sg_records s)\<rparr>"
  have ch: "chained c a n (sg_records s)"
    "chained c (tip_of a (sg_records s)) (n + of_nat (length (sg_records s))) (all_records segs)"
    using Cons.prems(1) by (simp_all add: chained_append)
  have "verify_step c k i (r, pt) d = (Inr (?r, Some (tip_of a (sg_records s))), d)"
    using Cons.hyps(1) Cons.prems(2) ch(1) by (intro verify_step_ok) auto
  moreover obtain pt' where "for_each (verify_step c k) ids (?r, Some (tip_of a (sg_records s))) d =
      (Inr (\<lparr>segments_verified = segments_verified ?r + length segs,
         records_verified = records_verified ?r + length (all_records segs)\<rparr>, pt'), d)"
    using Cons.IH [OF ch(2), of "Some (tip_of a (sg_records s))" ?r] by blast
  ultimately show ?case by (simp add: bind_eff_def)
qed

text \<open>A directory that holds one continuous signed_ok chain from the genesis hash.\<close>

definition chain_on_disk :: "crypto \<Rightarrow> json_text \<Rightarrow> disk \<Rightarrow> audit_segment list \<Rightarrow> bool" where
  "chain_on_disk c k d segs \<longleftrightarrow> files_ok k d segs \<and> list_all (signed_ok c) segs \<and>
     chained c GENESIS_PREV_HASH 0 (all_records segs)"

lemma verify_all_ok:
  assumes "json_text_ok k" "chain_on_disk c k d segs"
  shows "verify_all c k d =
    (Inr \<lparr>segments_verified = length segs, records_verified = length (all_records segs)\<rparr>, d)"
proof -
  have f: "files_ok k d segs" and s: "list_all (signed_ok c) segs"
    and ch: "chained c GENESIS_PREV_HASH 0 (all_records segs)"
    using assms(2) by (simp_all add: chain_on_disk_def)
  have "list_all2 (\<lambda>i s. store_read k i d = (Inr s, d) \<and> signed_ok c s) (map of_nat [0..<length segs]) segs"
    using s store_read_eq [OF f assms(1)]
    by (auto simp: list_all2_conv_all_nth list_all_length signed_ok_def)
  from verify_loop [OF this ch, of None "\<lparr>segments_verified = 0, records_verified = 0\<rparr>"]
  show ?thesis using store_list_eq [OF f] by (auto simp: verify_all_def bind_eff_def eff_defs)
qed

end
