(* ===== verification/Audit_Writer_Proofs.thy ===== *)
theory Audit_Writer_Proofs
  imports Audit_Store_Proofs
begin

text \<open>
  The daemon's audit writer: it keeps the directory one continuous signed_ok chain, through
  rotation, flush and restart, and what a failed write of a segment does to it.
\<close>

section \<open>Writing a segment\<close>

definition stored :: "json_text \<Rightarrow> audit_segment \<Rightarrow> disk \<Rightarrow> disk" where
  "stored k s d = d\<lparr>files := al_upd (path_for (sg_id s)) (to_vec_pretty k (segment_to_json s))
     (al_del (hex16 (sg_id s) @ TMP_SUFFIX)
       (al_upd (hex16 (sg_id s) @ TMP_SUFFIX) (to_vec_pretty k (segment_to_json s))
         (al_upd (hex16 (sg_id s) @ TMP_SUFFIX) [] (files d))))\<rparr>"

lemma store_write_eq:
  "quiet d \<Longrightarrow> store_write k s d = (Inr (path_for (sg_id s)), stored k s d)"
  by (simp add: store_write_def store_io_def bind_eff_def eff_defs Let_def append_bytes_def
      file_at_def stored_def)

lemma stored_file:
  "file_at (stored k s d) n =
     (if n = path_for (sg_id s) then Some (to_vec_pretty k (segment_to_json s))
      else if n = hex16 (sg_id s) @ TMP_SUFFIX then None else file_at d n)"
  by (simp add: stored_def file_at_def)

lemma files_ok_stored:
  assumes "files_ok k d segs" "sg_id s = of_nat (length segs)" "Suc (length segs) < 2 ^ 64"
  shows "files_ok k (stored k s d) (segs @ [s])"
proof -
  have d: "quiet d" "distinct (map fst (files d))"
    "\<And>i. i < length segs \<Longrightarrow> file_at d (path_for (of_nat i)) = Some (to_vec_pretty k (segment_to_json (segs ! i)))"
    "\<And>n i. file_at d n \<noteq> None \<Longrightarrow> audit_id n = Some i \<Longrightarrow> n = path_for i \<and> unat i < length segs"
    using assms(1) by (auto simp: files_ok_def)
  have u: "unat (of_nat j :: u64) = j" if "j \<le> length segs" for j
    using that assms(3) by (intro unat_of_nat_u64) simp
  have tmp: "path_for i \<noteq> hex16 j @ TMP_SUFFIX" for i j
  proof
    assume "path_for i = hex16 j @ TMP_SUFFIX"
    then have "audit_id (path_for i) = None" by (simp only: audit_id_tmp)
    then show False by simp
  qed
  have "file_at (stored k s d) (path_for (of_nat i)) =
      Some (to_vec_pretty k (segment_to_json ((segs @ [s]) ! i)))" if "i < length (segs @ [s])" for i
  proof (cases "i < length segs")
    case True
    then have "(of_nat i :: u64) \<noteq> of_nat (length segs)"
      using u [of i] u [of "length segs"] by (metis less_imp_le order_less_irrefl order_refl)
    with True d(3) tmp assms(2) show ?thesis by (simp add: stored_file nth_append)
  next
    case False
    with that have "i = length segs" by simp
    with assms(2) show ?thesis by (simp add: stored_file)
  qed
  moreover have "n = path_for i \<and> unat i < length (segs @ [s])"
    if "file_at (stored k s d) n \<noteq> None" "audit_id n = Some i" for n i
  proof (cases "n = path_for (sg_id s)")
    case True
    with that(2) assms(2) u [of "length segs"] show ?thesis by simp
  next
    case False
    with that d(4) [of n i] show ?thesis by (auto simp: stored_file split: if_splits)
  qed
  moreover have "quiet (stored k s d)" "distinct (map fst (files (stored k s d)))"
    using d(1,2) by (simp_all add: stored_def)
  ultimately show ?thesis using assms(3) unfolding files_ok_def by auto
qed

section \<open>The writer's invariant\<close>

definition aw_inv :: "crypto \<Rightarrow> json_text \<Rightarrow> byte list \<Rightarrow> u64 \<Rightarrow> audit_writer \<Rightarrow> audit_segment list \<Rightarrow> bool" where
  "aw_inv c k key m w segs \<longleftrightarrow> chain_on_disk c k (aw_disk w) segs \<and>
     aw_signer w = software_signer c key \<and> max_records_per_segment w = max m 1 \<and>
     next_segment_id w = of_nat (length segs) \<and>
     tip w = tip_of GENESIS_PREV_HASH (all_records segs) \<and>
     aw_next_seq w = of_nat (length (all_records segs)) \<and>
     writer_ok c (tip w) (aw_next_seq w) (inner w) \<and>
     list_all record_wf (cw_records (inner w))"

lemma length_genesis [simp]: "length GENESIS_PREV_HASH = HASH_LEN"
  by (simp add: GENESIS_PREV_HASH_def)

definition closing_segment :: "audit_writer \<Rightarrow> audit_segment" where
  "closing_segment w = fst (close_chain (next_segment_id w) (aw_signer w) (inner w))"

definition closed_writer :: "json_text \<Rightarrow> audit_writer \<Rightarrow> audit_writer" where
  "closed_writer k w =
     (if cw_records (inner w) = [] then w
      else w\<lparr>tip := this_hash (last (cw_records (inner w))),
         aw_next_seq := seq (record_of (last (cw_records (inner w)))) + 1,
         inner := from_tip (this_hash (last (cw_records (inner w))))
           (seq (record_of (last (cw_records (inner w)))) + 1),
         next_segment_id := next_segment_id w + 1,
         aw_disk := stored k (closing_segment w) (aw_disk w)\<rparr>)"

lemma close_segment_eq:
  "quiet (aw_disk w) \<Longrightarrow> \<exists>p. close_segment k w = (Inr p, closed_writer k w)"
  by (simp add: close_segment_def closed_writer_def closing_segment_def close_chain_def Let_def
      bind_eff_def eff_defs on_store_def store_write_eq)

lemma last_seq:
  assumes "chained c a s xs" "xs \<noteq> []"
  shows "seq (record_of (last xs)) + 1 = s + of_nat (length xs)"
proof -
  obtain ys y where "xs = ys @ [y]" using assms(2) by (metis rev_exhaust)
  with assms(1) show ?thesis by (simp add: chained_snoc add.assoc add.commute)
qed

lemma aw_inv_closed:
  assumes inv: "aw_inv c k key m w segs" and c: "crypto_ok c" and ne: "cw_records (inner w) \<noteq> []"
    and bound: "Suc (length segs) < 2 ^ 64"
  shows "aw_inv c k key m (closed_writer k w) (segs @ [closing_segment w])"
proof -
  let ?xs = "cw_records (inner w)" and ?s = "closing_segment w"
  have i: "chain_on_disk c k (aw_disk w) segs" "aw_signer w = software_signer c key"
    "max_records_per_segment w = max m 1" "next_segment_id w = of_nat (length segs)"
    "tip w = tip_of GENESIS_PREV_HASH (all_records segs)"
    "aw_next_seq w = of_nat (length (all_records segs))"
    "chained c (tip w) (aw_next_seq w) ?xs" "tip_hash (inner w) = tip_of (tip w) ?xs"
    "list_all record_wf ?xs"
    using inv by (auto simp: aw_inv_def writer_ok_def)
  have s: "sg_records ?s = ?xs" "sg_id ?s = of_nat (length segs)"
    by (simp_all add: closing_segment_def close_chain_def i(4))
  have t: "this_hash (last ?xs) = tip_of GENESIS_PREV_HASH (all_records (segs @ [?s]))"
    using ne i(5) by (simp add: s tip_of_nonempty)
  have "signed_ok c ?s"
    using c ne i(2,8,9)
    by (simp add: signed_ok_def segment_wf_def closing_segment_def close_chain_def software_signer_def
        crypto_ok_def tip_of_nonempty)
  moreover have "files_ok k (stored k ?s (aw_disk w)) (segs @ [?s])"
    using files_ok_stored [OF _ s(2) bound] i(1) by (simp add: chain_on_disk_def)
  moreover have "chained c GENESIS_PREV_HASH 0 (all_records (segs @ [?s]))"
    using i(1,5,6,7) by (simp add: chain_on_disk_def chained_append s)
  ultimately have "chain_on_disk c k (stored k ?s (aw_disk w)) (segs @ [?s])"
    using i(1) by (simp add: chain_on_disk_def)
  moreover have "seq (record_of (last ?xs)) + 1 = of_nat (length (all_records (segs @ [?s])))"
    using last_seq [OF i(7) ne] i(6) by (simp add: s)
  ultimately show ?thesis
    using ne i(2-4) t by (simp add: aw_inv_def closed_writer_def from_tip_def writer_ok_def)
qed

lemma aw_inv_append:
  assumes inv: "aw_inv c k key m w segs" and c: "crypto_ok c"
    and "length (ar_commitment r) = HASH_LEN"
  shows "aw_inv c k key m (w\<lparr>inner := snd (chain_append c r (inner w))\<rparr>) segs"
proof -
  have w: "writer_ok c (tip w) (aw_next_seq w) (inner w)" and wf: "list_all record_wf (cw_records (inner w))"
    and t: "tip w = tip_of GENESIS_PREV_HASH (all_records segs)"
    and ch: "chained c GENESIS_PREV_HASH 0 (all_records segs)"
    using inv unfolding aw_inv_def chain_on_disk_def by blast+
  have "length (tip w) = HASH_LEN" unfolding t by (rule length_tip [OF c _ ch]) simp
  then have "length (tip_hash (inner w)) = HASH_LEN"
    using length_tip [OF c] w by (auto simp: writer_ok_def)
  then have "list_all record_wf (cw_records (snd (chain_append c r (inner w))))"
    using wf c assms(3) by (simp add: chain_append_def Let_def record_wf_def crypto_ok_def record_hash_def)
  then show ?thesis using inv writer_ok_append [OF w, of r] by (simp add: aw_inv_def)
qed

section \<open>The contract of the writer\<close>

datatype audit_op = Observe i64 string "byte list" | Flush | Restart

text \<open>\<open>Restart\<close> opens a new writer on the directory the old one leaves, with or without a flush.\<close>

fun audit_step :: "crypto \<Rightarrow> json_text \<Rightarrow> u64 \<Rightarrow> audit_op \<Rightarrow> unit writer_eff" where
  "audit_step c k m (Observe now kind payload) = observe c k now kind payload"
| "audit_step c k m Flush = bind_eff (flush k) (\<lambda>_. return_eff ())"
| "audit_step c k m Restart = (\<lambda>w.
     case writer_open k (aw_disk w) (aw_tenant w) (aw_signer w) of
       (Inl e, d) \<Rightarrow> (Inl e, w\<lparr>aw_disk := d\<rparr>)
     | (Inr w', d) \<Rightarrow> (Inr (), with_max_records_per_segment m w'))"

definition audit_run :: "crypto \<Rightarrow> json_text \<Rightarrow> u64 \<Rightarrow> audit_op list \<Rightarrow> unit writer_eff" where
  "audit_run c k m ops = for_each (\<lambda>op _. audit_step c k m op) ops ()"

text \<open>What it promises: the persisted observations and the pending ones, which a restart loses.\<close>

type_synonym audit_spec = "(string \<times> byte list) list \<times> (string \<times> byte list) list"

fun spec_step :: "u64 \<Rightarrow> audit_op \<Rightarrow> audit_spec \<Rightarrow> audit_spec" where
  "spec_step m (Observe now kind payload) (st, pd) =
     (if unat (max m 1) \<le> Suc (length pd)
      then (st @ pd @ [(kind, payload)], []) else (st, pd @ [(kind, payload)]))"
| "spec_step m Flush (st, pd) = (st @ pd, [])"
| "spec_step m Restart (st, pd) = (st, [])"

definition entry :: "chained_record \<Rightarrow> string \<times> byte list" where
  "entry r = (ar_kind (record_of r), ar_commitment (record_of r))"

definition committed :: "crypto \<Rightarrow> (string \<times> byte list) list \<Rightarrow> (string \<times> byte list) list" where
  "committed c es = map (\<lambda>(kind, payload). (kind, payload_commitment c payload)) es"

lemma committed_append [simp]: "committed c (xs @ ys) = committed c xs @ committed c ys"
  "committed c [] = []" "length (committed c xs) = length xs"
  by (simp_all add: committed_def)

definition refines :: "crypto \<Rightarrow> audit_spec \<Rightarrow> audit_writer \<Rightarrow> audit_segment list \<Rightarrow> bool" where
  "refines c a w segs \<longleftrightarrow> map entry (all_records segs) = committed c (fst a) \<and>
     map entry (cw_records (inner w)) = committed c (snd a)"

lemma refines_lengths:
  assumes "refines c a w segs"
  shows "length (all_records segs) = length (fst a)" "length (cw_records (inner w)) = length (snd a)"
  using assms arg_cong [of _ _ length] unfolding refines_def by (metis committed_append(3) length_map)+

lemma segments_le_records: "list_all (signed_ok c) segs \<Longrightarrow> length segs \<le> length (all_records segs)"
proof (induction segs)
  case (Cons s segs)
  then have "length (sg_records s) \<ge> 1" by (cases "sg_records s") (simp_all add: signed_ok_def)
  with Cons show ?case by simp
qed simp

lemma refines_closed:
  assumes "refines c (st, pd) w segs" "cw_records (inner w) \<noteq> []"
  shows "refines c (st @ pd, []) (closed_writer k w) (segs @ [closing_segment w])"
  using assms by (simp add: refines_def closed_writer_def closing_segment_def close_chain_def from_tip_def)

lemma close_refines:
  assumes inv: "aw_inv c k key m w segs" and c: "crypto_ok c" and r: "refines c (st, pd) w segs"
    and bound: "length st + length pd < 2 ^ 64 - 1"
  shows "\<exists>p segs'. close_segment k w = (Inr p, closed_writer k w) \<and>
     aw_inv c k key m (closed_writer k w) segs' \<and> refines c (st @ pd, []) (closed_writer k w) segs'"
proof -
  have q: "quiet (aw_disk w)" using inv by (simp add: aw_inv_def chain_on_disk_def files_ok_def)
  obtain p where p: "close_segment k w = (Inr p, closed_writer k w)" using close_segment_eq [OF q] ..
  show ?thesis
  proof (cases "cw_records (inner w) = []")
    case True
    then have "pd = []" using refines_lengths(2) [OF r] by simp
    with True inv r p show ?thesis by (auto simp: closed_writer_def intro!: exI [of _ segs])
  next
    case False
    have "length segs \<le> length st"
      using segments_le_records [of c segs] refines_lengths(1) [OF r] inv
      by (simp add: aw_inv_def chain_on_disk_def)
    then have "Suc (length segs) < 2 ^ 64" using bound by simp
    from aw_inv_closed [OF inv c False this] refines_closed [OF r False] p show ?thesis by blast
  qed
qed

lemma observe_refines:
  assumes inv: "aw_inv c k key m w segs" and c: "crypto_ok c" and r: "refines c (st, pd) w segs"
    and bound: "length st + length pd < 2 ^ 64 - 2"
  shows "\<exists>w' segs'. observe c k now kind payload w = (Inr (), w') \<and> aw_inv c k key m w' segs' \<and>
     refines c (spec_step m (Observe now kind payload) (st, pd)) w' segs'"
proof -
  let ?rec = "\<lparr>seq = 0, timestamp_us = now, ar_tenant_id = aw_tenant w, ar_kind = kind,
      ar_commitment = payload_commitment c payload, redacted = False\<rparr>"
  define w1 where "w1 = w\<lparr>inner := snd (chain_append c ?rec (inner w))\<rparr>"
  have inv1: "aw_inv c k key m w1 segs"
    unfolding w1_def using c by (intro aw_inv_append [OF inv c]) (simp add: payload_commitment_def crypto_ok_def)
  have r1: "refines c (st, pd @ [(kind, payload)]) w1 segs"
    using r by (simp add: refines_def w1_def chain_append_def Let_def entry_def committed_def)
  have len: "length (cw_records (inner w1)) = Suc (length pd)"
    using refines_lengths(2) [OF r1] by simp
  have "max_records_per_segment w1 = max m 1" using inv1 by (simp add: aw_inv_def)
  then have full: "max_records_per_segment w1 \<le> of_nat (length (cw_records (inner w1))) \<longleftrightarrow>
      unat (max m 1) \<le> Suc (length pd)"
    using bound unfolding len by (simp add: word_le_nat_alt unat_of_nat_u64 del: of_nat_Suc)
  have obs: "observe c k now kind payload w =
      (if unat (max m 1) \<le> Suc (length pd)
       then bind_eff (close_segment k) (\<lambda>_. return_eff ()) w1 else (Inr (), w1))"
    by (simp add: observe_def bind_eff_def [of "modify_eff _"] bind_eff_def [of get_eff]
        modify_eff_def get_eff_def w1_def [symmetric] full return_eff_def)
  show ?thesis
  proof (cases "unat (max m 1) \<le> Suc (length pd)")
    case True
    have "length st + length (pd @ [(kind, payload)]) < 2 ^ 64 - 1" using bound by simp
    from close_refines [OF inv1 c r1 this] True obs show ?thesis
      by (auto simp: bind_eff_def return_eff_def)
  next
    case False
    then show ?thesis using obs inv1 r1 by auto
  qed
qed

lemma writer_open_eq:
  assumes d: "chain_on_disk c k d segs" and k: "json_text_ok k"
  shows "\<exists>w. writer_open k d tn (software_signer c key) = (Inr w, d) \<and>
     aw_inv c k key m (with_max_records_per_segment m w) segs \<and> cw_records (inner w) = []"
proof -
  have f: "files_ok k d segs" and q: "quiet d"
    using d by (simp_all add: chain_on_disk_def files_ok_def)
  have op: "store_open d = (Inr (), d)"
    using q by (simp add: store_open_def store_io_def io_create_dir_def)
  note ls = store_list_eq [OF f]
  show ?thesis
  proof (cases "segs = []")
    case True
    then show ?thesis using d op ls
      by (simp add: writer_open_def bind_eff_def eff_defs aw_inv_def with_max_records_per_segment_def
          from_tip_def writer_ok_def)
  next
    case False
    let ?i = "length segs - 1" and ?l = "last segs"
    have l: "segs ! ?i = ?l" "?i < length segs" using False by (simp_all add: last_conv_nth)
    have sl: "signed_ok c ?l" using d False by (simp add: chain_on_disk_def list_all_iff)
    then have ne: "sg_records ?l \<noteq> []" and wf: "segment_wf ?l" by (simp_all add: signed_ok_def)
    have rd: "store_read k (of_nat ?i) d = (Inr ?l, d)"
      using store_read_eq [OF f k l(2)] l(1) wf by simp
    have split: "segs = butlast segs @ [?l]" using False by simp
    then have al: "all_records segs = all_records (butlast segs) @ sg_records ?l"
      by (metis all_records_simps(1-3) append_Nil2)
    then have t: "this_hash (last (sg_records ?l)) = tip_of GENESIS_PREV_HASH (all_records segs)"
      and ne': "all_records segs \<noteq> []" and la: "last (all_records segs) = last (sg_records ?l)"
      using ne by (simp_all add: tip_of_nonempty)
    have n: "seq (record_of (last (sg_records ?l))) + 1 = of_nat (length (all_records segs))"
      using last_seq [OF _ ne', of c GENESIS_PREV_HASH 0] d la by (simp add: chain_on_disk_def)
    have li: "last (map of_nat [0..<length segs] :: u64 list) = of_nat ?i"
      using False by (simp add: last_map)
    have nx: "(of_nat ?i :: u64) + 1 = of_nat (length segs)"
      using False by (metis Suc_diff_1 add.commute length_greater_0_conv of_nat_Suc)
    show ?thesis
      using d op ls li rd False ne nx n t
      by (simp add: writer_open_def bind_eff_def eff_defs aw_inv_def with_max_records_per_segment_def
          from_tip_def writer_ok_def)
  qed
qed

lemma step_refines:
  assumes inv: "aw_inv c k key m w segs" and c: "crypto_ok c" and k: "json_text_ok k"
    and r: "refines c a w segs" and bound: "length (fst a) + length (snd a) < 2 ^ 64 - 2"
  shows "\<exists>w' segs'. audit_step c k m op w = (Inr (), w') \<and> aw_inv c k key m w' segs' \<and>
     refines c (spec_step m op a) w' segs'"
proof -
  obtain st pd where a: "a = (st, pd)" by (cases a)
  show ?thesis
  proof (cases op)
    case (Observe now kind payload)
    from observe_refines [OF inv c r [unfolded a]] bound Observe show ?thesis by (simp add: a)
  next
    case Flush
    from close_refines [OF inv c r [unfolded a]] bound Flush show ?thesis
      by (force simp: a flush_def bind_eff_def return_eff_def)
  next
    case Restart
    have "chain_on_disk c k (aw_disk w) segs" "aw_signer w = software_signer c key"
      using inv by (simp_all add: aw_inv_def)
    with writer_open_eq [OF _ k, of c "aw_disk w" segs "aw_tenant w" key m] Restart r
    show ?thesis
      by (auto simp: a refines_def with_max_records_per_segment_def)
  qed
qed

lemma spec_step_length:
  "length (fst (spec_step m op a)) + length (snd (spec_step m op a)) \<le> Suc (length (fst a) + length (snd a))"
  by (cases op; cases a) auto

lemma run_refines:
  assumes "crypto_ok c" "json_text_ok k"
    and "aw_inv c k key m w segs" "refines c a w segs"
    and "length (fst a) + length (snd a) + length ops < 2 ^ 64 - 2"
  shows "\<exists>w' segs'. audit_run c k m ops w = (Inr (), w') \<and> aw_inv c k key m w' segs' \<and>
     refines c (fold (spec_step m) ops a) w' segs'"
  using assms(3-5)
proof (induction ops arbitrary: w segs a)
  case Nil
  then show ?case by (auto simp: audit_run_def return_eff_def)
next
  case (Cons op ops)
  have b: "length (fst a) + length (snd a) < 2 ^ 64 - 2" using Cons.prems(3) by simp
  obtain w1 segs1 where 1: "audit_step c k m op w = (Inr (), w1)" "aw_inv c k key m w1 segs1"
    "refines c (spec_step m op a) w1 segs1"
    using step_refines [OF Cons.prems(1) assms(1,2) Cons.prems(2) b] by blast
  have "length (fst (spec_step m op a)) + length (snd (spec_step m op a)) + length ops < 2 ^ 64 - 2"
    using spec_step_length [of m op a] Cons.prems(3) by simp
  from Cons.IH [OF 1(2,3) this] 1(1) show ?case
    by (simp add: audit_run_def bind_eff_def)
qed

text \<open>The writer the daemon starts on an empty directory.\<close>

definition audit_start :: "crypto \<Rightarrow> json_text \<Rightarrow> byte list \<Rightarrow> string \<Rightarrow> u64 \<Rightarrow> audit_writer" where
  "audit_start c k key tn m = (case writer_open k (disk_of []) tn (software_signer c key) of
     (Inr w, _) \<Rightarrow> with_max_records_per_segment m w)"

lemma audit_start_inv:
  assumes "json_text_ok k"
  shows "aw_inv c k key m (audit_start c k key tn m) []"
    and "refines c ([], []) (audit_start c k key tn m) []"
proof -
  have "chain_on_disk c k (disk_of []) []"
    by (simp add: chain_on_disk_def files_ok_def disk_of_def quiet_def file_at_def)
  from writer_open_eq [OF this assms, of tn key m]
  show "aw_inv c k key m (audit_start c k key tn m) []"
    and "refines c ([], []) (audit_start c k key tn m) []"
    by (auto simp: audit_start_def refines_def with_max_records_per_segment_def)
qed

text \<open>Claim C7 (audit trail): after any sequence of observations, flushes and restarts, without I/O
  failures, every operation has succeeded, \<open>verify_all\<close> accepts the directory and counts
  exactly the persisted observations, and the records on disk commit to exactly those
  observations in order: all up to the last rotation or flush, and nothing else.\<close>

theorem audit_run_verifies:
  assumes "crypto_ok c" "json_text_ok k" "length ops < 2 ^ 64 - 2"
  shows "\<exists>w segs. audit_run c k m ops (audit_start c k key tn m) = (Inr (), w) \<and>
     (let (st, pd) = fold (spec_step m) ops ([], []) in
       verify_all c k (aw_disk w) =
         (Inr \<lparr>segments_verified = length segs, records_verified = length st\<rparr>, aw_disk w) \<and>
       chain_on_disk c k (aw_disk w) segs \<and>
       map entry (all_records segs) = committed c st \<and>
       map entry (cw_records (inner w)) = committed c pd)"
proof -
  note start = audit_start_inv [OF assms(2), where c = c and key = key and tn = tn and m = m]
  obtain w segs where w: "audit_run c k m ops (audit_start c k key tn m) = (Inr (), w)"
    "aw_inv c k key m w segs" "refines c (fold (spec_step m) ops ([], [])) w segs"
    using run_refines [OF assms(1,2) start] assms(3)
    by (simp only: fst_conv snd_conv list.size add_0) blast
  have d: "chain_on_disk c k (aw_disk w) segs" using w(2) by (simp add: aw_inv_def)
  have "length (all_records segs) = length (fst (fold (spec_step m) ops ([], [])))"
    by (rule refines_lengths(1) [OF w(3)])
  with w verify_all_ok [OF assms(2) d] d show ?thesis
    by (auto simp: refines_def split_beta)
qed

theorem audit_run_verifies_witness:
  "\<exists>w n. audit_run toy_crypto numbered_text 2
       [Observe 1 ''event'' [1], Observe 2 ''event'' [2], Observe 3 ''event'' [3], Restart, Flush]
       (audit_start toy_crypto numbered_text [9] ''tnt'' 2) = (Inr (), w) \<and>
     fst (verify_all toy_crypto numbered_text (aw_disk w)) =
       Inr \<lparr>segments_verified = n, records_verified = 2\<rparr>"
proof -
  let ?ops = "[Observe 1 ''event'' [1], Observe 2 ''event'' [2], Observe 3 ''event'' [3], Restart, Flush]"
  have "fold (spec_step 2) ?ops ([], []) = ([(''event'', [1]), (''event'', [2])], [])"
    by (simp add: max_def word_le_nat_alt)
  then show ?thesis
    using audit_run_verifies [OF toy_crypto_ok numbered_text_ok, of ?ops 2 "[9]" "''tnt''"]
    by (auto simp: Let_def)
qed

section \<open>A segment that cannot be written\<close>

text \<open>Failed write: when the file system refuses the segment, the writer reports the error
  but has already dropped the records, moved its tip and sequence number past them and used up
  the segment identifier: nothing reaches the disk, and the next record it takes commits to
  the lost tip instead of the last one on disk.\<close>

theorem failed_close_loses_segment:
  assumes "cw_records (inner w) \<noteq> []" "script (aw_disk w) = IoFail n # later"
  shows "case close_segment k w of (r, w') \<Rightarrow>
     r = Inl (Persist (PIo IoError)) \<and> cw_records (inner w') = [] \<and>
     tip w' = this_hash (last (cw_records (inner w))) \<and>
     next_segment_id w' = next_segment_id w + 1 \<and>
     files (aw_disk w') = files (aw_disk w) \<and>
     (\<forall>c rec. prev_hash (hd (cw_records (snd (chain_append c rec (inner w'))))) = tip w')"
  using assms
  by (simp add: close_segment_def close_chain_def Let_def bind_eff_def eff_defs on_store_def
      store_write_def store_io_def io_create_def io_call_def from_tip_def chain_append_def)

theorem failed_close_loses_segment_witness:
  "case close_segment numbered_text
      ((audit_start toy_crypto numbered_text [9] ''tnt'' 2)\<lparr>
         inner := \<lparr>cw_records = [toy_link], tip_hash = this_hash toy_link, next_seq = 1\<rparr>,
         aw_disk := \<lparr>files = [], script = [IoFail 0]\<rparr>\<rparr>) of (r, w') \<Rightarrow>
     r = Inl (Persist (PIo IoError)) \<and> cw_records (inner w') = []"
  using failed_close_loses_segment [of "(audit_start toy_crypto numbered_text [9] ''tnt'' 2)\<lparr>
         inner := \<lparr>cw_records = [toy_link], tip_hash = this_hash toy_link, next_seq = 1\<rparr>,
         aw_disk := \<lparr>files = [], script = [IoFail 0]\<rparr>\<rparr>" 0 "[]" numbered_text]
  by (simp add: split_beta)

text \<open>From then on the directory does not verify: the segment after the gap does not continue the
  chain the earlier ones leave.\<close>

lemma gap_is_rejected:
  assumes "store_read k i d = (Inr s, d)" "signed_ok c s" "chained c a n (sg_records s)" "a \<noteq> t"
  shows "fst (verify_step c k i (r, Some t) d) = Inl (PVerify (ChainBroken 0))"
proof -
  obtain first rest where "sg_records s = first # rest" "prev_hash first = a" "seq (record_of first) = n"
    by (rule signed_first [OF assms(2,3)])
  with assms verify_signed(2) [OF assms(2,3)] show ?thesis
    by (simp add: verify_step_def bind_eff_def eff_defs)
qed

section \<open>The development signer\<close>

text \<open>Stable key: on a file system without failures, loading the development key yields
  a signer unless the key file has a length other than 32, loading it again yields the same
  signer whatever fresh seed is at hand, and no other file is touched; a write of a new key
  that fails half way leaves a file that every later start refuses.\<close>

theorem dev_key_stable:
  assumes "length fresh = 32"
  shows "(quiet d \<longrightarrow>
      (case load_or_create_dev c fresh path d of
         (Inl e, d') \<Rightarrow> e = BadLength \<and> d' = d \<and> (\<exists>b. file_at d path = Some b \<and> length b \<noteq> 32)
       | (Inr s, d') \<Rightarrow>
           (\<forall>f. load_or_create_dev c f path d' = (Inr s, d')) \<and>
           (\<forall>n. n \<noteq> path \<longrightarrow> file_at d' n = file_at d n))) \<and>
    (script d = [IoOk, IoOk, IoFail n] \<and> file_at d path = None \<and> n < 32 \<longrightarrow>
      (case load_or_create_dev c fresh path d of (r, d') \<Rightarrow>
         r = Inl (FkIo IoError) \<and> (\<forall>f. load_or_create_dev c f path d' = (Inl BadLength, d'))))"
proof (intro conjI impI)
  assume q: "quiet d"
  show "case load_or_create_dev c fresh path d of
         (Inl e, d') \<Rightarrow> e = BadLength \<and> d' = d \<and> (\<exists>b. file_at d path = Some b \<and> length b \<noteq> 32)
       | (Inr s, d') \<Rightarrow>
           (\<forall>f. load_or_create_dev c f path d' = (Inr s, d')) \<and>
           (\<forall>n. n \<noteq> path \<longrightarrow> file_at d' n = file_at d n)"
  proof (cases "file_at d path")
    case None
    have "io_create_dir d = (Inr (), d)" using q by (simp add: io_create_dir_def)
    with None q assms show ?thesis
      by (simp add: load_or_create_dev_def bind_eff_def eff_defs key_io_def)
        (simp add: file_at_def)
  next
    case (Some b)
    with q show ?thesis
      by (simp add: load_or_create_dev_def bind_eff_def eff_defs key_io_def)
  qed
next
  assume "script d = [IoOk, IoOk, IoFail n] \<and> file_at d path = None \<and> n < 32"
  with assms show "case load_or_create_dev c fresh path d of (r, d') \<Rightarrow>
      r = Inl (FkIo IoError) \<and> (\<forall>f. load_or_create_dev c f path d' = (Inl BadLength, d'))"
    by (simp add: load_or_create_dev_def bind_eff_def eff_defs key_io_def io_create_dir_def
        io_call_def io_create_def io_write_def append_bytes_def file_at_def io_read_def)
qed

theorem dev_key_stable_witness:
  "\<exists>s d'. load_or_create_dev toy_crypto (replicate 32 3) ''segment.key'' (disk_of []) = (Inr s, d') \<and>
     load_or_create_dev toy_crypto (replicate 32 4) ''segment.key'' d' = (Inr s, d')"
  using dev_key_stable [where fresh = "replicate 32 3" and d = "disk_of []" and c = toy_crypto
      and path = "''segment.key''"]
  by (cases "load_or_create_dev toy_crypto (replicate 32 3) ''segment.key'' (disk_of [])")
    (auto simp: file_at_def disk_of_def quiet_def split: sum.splits)

end
