(* ===== verification/Lifecycle_Types.thy ===== *)
theory Lifecycle_Types
  imports Json_Codec
begin

text \<open>
  \<^verbatim>\<open>daemon/crates/athar-lifecycle/src/types.rs\<close>: lifecycles, their states and closures, the
  correlation tiers and the late events, with the JSON form the serde derives give them.
\<close>

datatype lifecycle_type = Payment

definition from_event_type :: "string \<Rightarrow> lifecycle_type option" where
  "from_event_type t = (if starts_with t ''payment.'' then Some Payment else None)"

datatype state = Started | Processing | Pending | Success | Failed | Cancelled | Rejected
  | Timeout | Expired | Abandoned | Reversed | Compensated | PartiallyCompleted | StConflicted
  | StUnknown

definition is_terminal :: "state \<Rightarrow> bool" where
  "is_terminal s \<longleftrightarrow> s \<in> {Success, Failed, Cancelled, Rejected, Timeout, Expired, Abandoned,
     Reversed, Compensated}"

datatype closure = Open | ClClosed | ClosedWithException | ClosedWithUncertainty

definition is_closed :: "closure \<Rightarrow> bool" where
  "is_closed c \<longleftrightarrow> c \<noteq> Open"

datatype inference_tier = TierExplicit | TierBusinessId | TierCausation | TierResourceId | TierUnknown

text \<open>\<open>InferenceTier::confidence\<close>, in hundredths.\<close>

fun tier_confidence :: "inference_tier \<Rightarrow> nat" where
  "tier_confidence TierExplicit = 100"
| "tier_confidence TierBusinessId = 95"
| "tier_confidence TierCausation = 90"
| "tier_confidence TierResourceId = 80"
| "tier_confidence TierUnknown = 0"

datatype late_event_class = Duplicate | Correction | Amendment | LateConflict | LateInformation | LateUnknown

record late_event =
  le_event_id :: string
  le_event_type :: string
  arrived_at_ms :: u64
  late_class :: late_event_class

record lifecycle =
  lc_id :: string
  lc_tenant_id :: string
  lc_type :: lifecycle_type
  business_key :: "string option"
  lc_resource_id :: "string option"
  lc_state :: state
  lc_closure :: closure
  started_at_ms :: u64
  last_event_at_ms :: u64
  closed_at_ms :: "u64 option"
  event_ids :: "string list"
  late_events :: "late_event list"
  staleness_ms :: u64
  tiers :: "inference_tier list"

fun staleness_for :: "lifecycle_type \<Rightarrow> u64" where
  "staleness_for Payment = 60 * 60 * 1000"

section \<open>Names of the variants\<close>

fun lct_str :: "lifecycle_type \<Rightarrow> string" where
  "lct_str Payment = ''Payment''"

fun state_str :: "state \<Rightarrow> string" where
  "state_str Started = ''Started''"
| "state_str Processing = ''Processing''"
| "state_str Pending = ''Pending''"
| "state_str Success = ''Success''"
| "state_str Failed = ''Failed''"
| "state_str Cancelled = ''Cancelled''"
| "state_str Rejected = ''Rejected''"
| "state_str Timeout = ''Timeout''"
| "state_str Expired = ''Expired''"
| "state_str Abandoned = ''Abandoned''"
| "state_str Reversed = ''Reversed''"
| "state_str Compensated = ''Compensated''"
| "state_str PartiallyCompleted = ''PartiallyCompleted''"
| "state_str StConflicted = ''Conflicted''"
| "state_str StUnknown = ''Unknown''"

fun closure_str :: "closure \<Rightarrow> string" where
  "closure_str Open = ''Open''"
| "closure_str ClClosed = ''Closed''"
| "closure_str ClosedWithException = ''ClosedWithException''"
| "closure_str ClosedWithUncertainty = ''ClosedWithUncertainty''"

text \<open>The derived serde form of a unit variant is its name.\<close>

definition variant_of_json :: "('a \<Rightarrow> string) \<Rightarrow> 'a list \<Rightarrow> json \<Rightarrow> 'a option" where
  "variant_of_json name vs j = (case j of JString s \<Rightarrow> find (\<lambda>v. name v = s) vs | _ \<Rightarrow> None)"

definition all_states :: "state list" where
  "all_states = [Started, Processing, Pending, Success, Failed, Cancelled, Rejected, Timeout,
     Expired, Abandoned, Reversed, Compensated, PartiallyCompleted, StConflicted, StUnknown]"

definition all_closures :: "closure list" where
  "all_closures = [Open, ClClosed, ClosedWithException, ClosedWithUncertainty]"

fun tier_str :: "inference_tier \<Rightarrow> string" where
  "tier_str TierExplicit = ''Explicit''"
| "tier_str TierBusinessId = ''BusinessId''"
| "tier_str TierCausation = ''Causation''"
| "tier_str TierResourceId = ''ResourceId''"
| "tier_str TierUnknown = ''Unknown''"

definition all_tiers :: "inference_tier list" where
  "all_tiers = [TierExplicit, TierBusinessId, TierCausation, TierResourceId, TierUnknown]"

fun late_str :: "late_event_class \<Rightarrow> string" where
  "late_str Duplicate = ''Duplicate''"
| "late_str Correction = ''Correction''"
| "late_str Amendment = ''Amendment''"
| "late_str LateConflict = ''Conflict''"
| "late_str LateInformation = ''LateInformation''"
| "late_str LateUnknown = ''Unknown''"

definition all_late :: "late_event_class list" where
  "all_late = [Duplicate, Correction, Amendment, LateConflict, LateInformation, LateUnknown]"

section \<open>JSON form\<close>

definition late_event_to_json :: "late_event \<Rightarrow> json" where
  "late_event_to_json l = JObject
     [(''event_id'', JString (le_event_id l)), (''event_type'', JString (le_event_type l)),
      (''arrived_at_ms'', u64_to_json (arrived_at_ms l)), (''class'', JString (late_str (late_class l)))]"

definition late_event_of_json :: "json \<Rightarrow> late_event option" where
  "late_event_of_json j =
     opt_bind (opt_bind (json_field j ''event_id'') json_as_str) (\<lambda>i.
     opt_bind (opt_bind (json_field j ''event_type'') json_as_str) (\<lambda>t.
     opt_bind (opt_bind (json_field j ''arrived_at_ms'') u64_of_json) (\<lambda>a.
     opt_bind (opt_bind (json_field j ''class'') (variant_of_json late_str all_late)) (\<lambda>c.
     Some \<lparr>le_event_id = i, le_event_type = t, arrived_at_ms = a, late_class = c\<rparr>))))"

definition lifecycle_to_json :: "lifecycle \<Rightarrow> json" where
  "lifecycle_to_json l = JObject
     [(''id'', JString (lc_id l)), (''tenant_id'', JString (lc_tenant_id l)),
      (''lifecycle_type'', JString (lct_str (lc_type l))),
      (''business_key'', json_of_opt JString (business_key l)),
      (''resource_id'', json_of_opt JString (lc_resource_id l)),
      (''state'', JString (state_str (lc_state l))),
      (''closure'', JString (closure_str (lc_closure l))),
      (''started_at_ms'', u64_to_json (started_at_ms l)),
      (''last_event_at_ms'', u64_to_json (last_event_at_ms l)),
      (''closed_at_ms'', json_of_opt u64_to_json (closed_at_ms l)),
      (''event_ids'', JArray (map JString (event_ids l))),
      (''late_events'', JArray (map late_event_to_json (late_events l))),
      (''staleness_ms'', u64_to_json (staleness_ms l)),
      (''tiers'', JArray (map (\<lambda>t. JString (tier_str t)) (tiers l)))]"

definition lifecycle_of_json :: "json \<Rightarrow> lifecycle option" where
  "lifecycle_of_json j =
     opt_bind (opt_bind (json_field j ''id'') json_as_str) (\<lambda>i.
     opt_bind (opt_bind (json_field j ''tenant_id'') json_as_str) (\<lambda>tn.
     opt_bind (opt_bind (json_field j ''lifecycle_type'') (variant_of_json lct_str [Payment])) (\<lambda>ty.
     opt_bind (json_opt_field json_as_str j ''business_key'') (\<lambda>bk.
     opt_bind (json_opt_field json_as_str j ''resource_id'') (\<lambda>rid.
     opt_bind (opt_bind (json_field j ''state'') (variant_of_json state_str all_states)) (\<lambda>st.
     opt_bind (opt_bind (json_field j ''closure'') (variant_of_json closure_str all_closures)) (\<lambda>cl.
     opt_bind (opt_bind (json_field j ''started_at_ms'') u64_of_json) (\<lambda>sa.
     opt_bind (opt_bind (json_field j ''last_event_at_ms'') u64_of_json) (\<lambda>la.
     opt_bind (json_opt_field u64_of_json j ''closed_at_ms'') (\<lambda>ca.
     opt_bind (opt_bind (json_field j ''event_ids'') (list_of_json json_as_str)) (\<lambda>es.
     opt_bind (opt_bind (json_field j ''late_events'') (list_of_json late_event_of_json)) (\<lambda>ls.
     opt_bind (opt_bind (json_field j ''staleness_ms'') u64_of_json) (\<lambda>sm.
     opt_bind (opt_bind (json_field j ''tiers'') (list_of_json (variant_of_json tier_str all_tiers))) (\<lambda>ts.
     Some \<lparr>lc_id = i, lc_tenant_id = tn, lc_type = ty, business_key = bk, lc_resource_id = rid,
       lc_state = st, lc_closure = cl, started_at_ms = sa, last_event_at_ms = la,
       closed_at_ms = ca, event_ids = es, late_events = ls, staleness_ms = sm, tiers = ts\<rparr>))))))))))))))"

lemma variant_json [simp]:
  "variant_of_json state_str all_states (JString (state_str s)) = Some s"
  "variant_of_json closure_str all_closures (JString (closure_str c)) = Some c"
  "variant_of_json lct_str [Payment] (JString (lct_str t)) = Some t"
  "variant_of_json tier_str all_tiers (JString (tier_str r)) = Some r"
  "variant_of_json late_str all_late (JString (late_str l)) = Some l"
  apply (cases s; simp add: variant_of_json_def all_states_def)
  apply (cases c; simp add: variant_of_json_def all_closures_def)
  apply (cases t; simp add: variant_of_json_def)
  apply (cases r; simp add: variant_of_json_def all_tiers_def)
  apply (cases l; simp add: variant_of_json_def all_late_def)
  done

lemma late_event_json [simp]: "late_event_of_json (late_event_to_json l) = Some l"
  by (simp add: late_event_of_json_def late_event_to_json_def)

lemma lists_json [simp]:
  "those (map (json_as_str \<circ> JString) xs) = Some xs"
  "those (map (late_event_of_json \<circ> late_event_to_json) ls) = Some ls"
  "those (map (variant_of_json tier_str all_tiers \<circ> (\<lambda>t. JString (tier_str t))) ts) = Some ts"
  using those_map [of xs "json_as_str \<circ> JString" id]
    those_map [of ls "late_event_of_json \<circ> late_event_to_json" id]
    those_map [of ts "variant_of_json tier_str all_tiers \<circ> (\<lambda>t. JString (tier_str t))" id]
  by simp_all

lemma lifecycle_json [simp]: "lifecycle_of_json (lifecycle_to_json l) = Some l"
proof -
  have u: "u64_to_json a \<noteq> JNull" for a by (simp add: u64_to_json_def)
  have fs: "(if json_of_opt JString x = JNull then Some None
      else opt_bind (json_as_str (json_of_opt JString x)) (\<lambda>a. Some (Some a))) = Some x" for x
    by (cases x) auto
  have fu: "(if json_of_opt u64_to_json x = JNull then Some None
      else opt_bind (u64_of_json (json_of_opt u64_to_json x)) (\<lambda>a. Some (Some a))) = Some x" for x
    by (cases x) (auto simp: u)
  show ?thesis
    by (simp add: lifecycle_of_json_def lifecycle_to_json_def json_opt_field_def fs fu)
qed

end
