(* ===== verification/Lifecycle_Store.thy ===== *)
theory Lifecycle_Store
  imports Lifecycle_Types
begin

text \<open>
  \<^verbatim>\<open>store.rs\<close> and \<^verbatim>\<open>sqlite_store.rs\<close> of \<^verbatim>\<open>athar-lifecycle\<close>.  The trait \<open>LifecycleStore\<close> is the
  record \<open>store_ops\<close> of its methods over a state; \<open>lifecycle_store\<close> is its contract, which
  both implementations are shown to meet.
\<close>

section \<open>The trait\<close>

record 's store_ops =
  st_get :: "'s \<Rightarrow> string \<Rightarrow> lifecycle option"
  find_by_resource :: "'s \<Rightarrow> string \<Rightarrow> string option"
  find_by_business_key :: "'s \<Rightarrow> string \<Rightarrow> string option"
  find_by_event :: "'s \<Rightarrow> string \<Rightarrow> string option"
  st_upsert :: "lifecycle \<Rightarrow> 's \<Rightarrow> 's"
  st_record_event :: "string \<Rightarrow> string \<Rightarrow> 's \<Rightarrow> 's"
  all_open :: "'s \<Rightarrow> lifecycle list"
  st_count :: "'s \<Rightarrow> nat"
  count_open :: "'s \<Rightarrow> nat"

section \<open>The in-memory store\<close>

text \<open>A \<open>HashMap\<close> is an association list; the order of its entries is not relied on.\<close>

record in_memory_store =
  lifecycles :: "(string \<times> lifecycle) list"
  by_resource :: "(string \<times> string) list"
  by_business_key :: "(string \<times> string) list"
  by_event :: "(string \<times> string) list"

definition mem_new :: in_memory_store where
  "mem_new = \<lparr>lifecycles = [], by_resource = [], by_business_key = [], by_event = []\<rparr>"

definition mem_get :: "in_memory_store \<Rightarrow> string \<Rightarrow> lifecycle option" where
  "mem_get s i = map_of (lifecycles s) i"

definition mem_find_by_resource :: "in_memory_store \<Rightarrow> string \<Rightarrow> string option" where
  "mem_find_by_resource s r = map_of (by_resource s) r"

definition mem_find_by_business_key :: "in_memory_store \<Rightarrow> string \<Rightarrow> string option" where
  "mem_find_by_business_key s k = map_of (by_business_key s) k"

definition mem_find_by_event :: "in_memory_store \<Rightarrow> string \<Rightarrow> string option" where
  "mem_find_by_event s e = map_of (by_event s) e"

definition mem_upsert :: "lifecycle \<Rightarrow> in_memory_store \<Rightarrow> in_memory_store" where
  "mem_upsert lc s = s\<lparr>
     by_resource := (case lc_resource_id lc of None \<Rightarrow> by_resource s
                     | Some r \<Rightarrow> al_upd r (lc_id lc) (by_resource s)),
     by_business_key := (case business_key lc of None \<Rightarrow> by_business_key s
                         | Some k \<Rightarrow> al_upd k (lc_id lc) (by_business_key s)),
     by_event := fold (\<lambda>e m. al_upd e (lc_id lc) m) (event_ids lc) (by_event s),
     lifecycles := al_upd (lc_id lc) lc (lifecycles s)\<rparr>"

definition mem_record_event :: "string \<Rightarrow> string \<Rightarrow> in_memory_store \<Rightarrow> in_memory_store" where
  "mem_record_event e i s = s\<lparr>by_event := al_upd e i (by_event s)\<rparr>"

definition mem_all_open :: "in_memory_store \<Rightarrow> lifecycle list" where
  "mem_all_open s = filter (\<lambda>l. lc_closure l = Open) (map snd (lifecycles s))"

definition mem_count :: "in_memory_store \<Rightarrow> nat" where
  "mem_count s = length (lifecycles s)"

definition mem_count_open :: "in_memory_store \<Rightarrow> nat" where
  "mem_count_open s = length (filter (\<lambda>l. lc_closure l = Open) (map snd (lifecycles s)))"

definition mem_ops :: "in_memory_store store_ops" where
  "mem_ops = \<lparr>st_get = mem_get, find_by_resource = mem_find_by_resource,
     find_by_business_key = mem_find_by_business_key, find_by_event = mem_find_by_event,
     st_upsert = mem_upsert, st_record_event = mem_record_event, all_open = mem_all_open,
     st_count = mem_count, count_open = mem_count_open\<rparr>"

section \<open>The SQLite store\<close>

text \<open>The two tables, in row order.  \<open>sql_script\<close> lists the outcomes of the statements that change
  the database (an exhausted script means success): a failing statement inside a transaction rolls the
  whole transaction back.  \<open>sql_lost\<close> are the queries the database currently fails to answer; the
  methods of the store turn such a failure into their empty answer.  The text column \<open>body_json\<close> is the
  JSON document it holds.\<close>

datatype sql_query =
    QGet string
  | QResource string
  | QBusinessKey string
  | QEvent string
  | QAllOpen
  | QCount
  | QCountOpen

record lifecycle_row =
  row_id :: string
  row_tenant_id :: string
  row_type :: string
  row_business_key :: "string option"
  row_resource_id :: "string option"
  row_state :: string
  row_closure :: string
  row_started_at_ms :: i64
  row_last_event_at_ms :: i64
  row_closed_at_ms :: "i64 option"
  body_json :: json

record sqlite_store =
  rows :: "lifecycle_row list"
  event_bindings :: "(string \<times> string) list"
  sql_script :: "bool list"
  sql_lost :: "sql_query list"

definition sql_open_in_memory :: sqlite_store where
  "sql_open_in_memory = \<lparr>rows = [], event_bindings = [], sql_script = [], sql_lost = []\<rparr>"

text \<open>One statement: whether it succeeds.\<close>

definition sql_ok :: "sqlite_store \<Rightarrow> bool" where
  "sql_ok s = (case sql_script s of [] \<Rightarrow> True | b # _ \<Rightarrow> b)"

definition sql_next :: "sqlite_store \<Rightarrow> sqlite_store" where
  "sql_next s = s\<lparr>sql_script := tl (sql_script s)\<rparr>"

definition deserialize_row :: "json \<Rightarrow> lifecycle option" where
  "deserialize_row j = lifecycle_of_json j"

definition sql_answers :: "sqlite_store \<Rightarrow> sql_query \<Rightarrow> bool" where
  "sql_answers s q \<longleftrightarrow> q \<notin> set (sql_lost s)"

text \<open>\<open>query_row(..).optional().ok().flatten()\<close>: no row and no answer are the same.\<close>

definition query_row :: "sqlite_store \<Rightarrow> sql_query \<Rightarrow> (lifecycle_row \<Rightarrow> bool) \<Rightarrow> lifecycle_row option" where
  "query_row s q P = (if sql_answers s q then find P (rows s) else None)"

definition sql_get :: "sqlite_store \<Rightarrow> string \<Rightarrow> lifecycle option" where
  "sql_get s i = opt_bind (query_row s (QGet i) (\<lambda>r. row_id r = i)) (\<lambda>r. deserialize_row (body_json r))"

definition sql_find_by_resource :: "sqlite_store \<Rightarrow> string \<Rightarrow> string option" where
  "sql_find_by_resource s x = map_option row_id (query_row s (QResource x) (\<lambda>r. row_resource_id r = Some x))"

definition sql_find_by_business_key :: "sqlite_store \<Rightarrow> string \<Rightarrow> string option" where
  "sql_find_by_business_key s k = map_option row_id (query_row s (QBusinessKey k) (\<lambda>r. row_business_key r = Some k))"

definition sql_find_by_event :: "sqlite_store \<Rightarrow> string \<Rightarrow> string option" where
  "sql_find_by_event s e = (if sql_answers s (QEvent e) then map_of (event_bindings s) e else None)"

definition row_of :: "lifecycle \<Rightarrow> lifecycle_row" where
  "row_of lc = \<lparr>row_id = lc_id lc, row_tenant_id = lc_tenant_id lc, row_type = lct_str (lc_type lc),
     row_business_key = business_key lc, row_resource_id = lc_resource_id lc,
     row_state = state_str (lc_state lc), row_closure = closure_str (lc_closure lc),
     row_started_at_ms = started_at_ms lc, row_last_event_at_ms = last_event_at_ms lc,
     row_closed_at_ms = closed_at_ms lc, body_json = lifecycle_to_json lc\<rparr>"

text \<open>\<open>SCHEMA\<close>: the primary key and the two partial unique indexes.  \<open>INSERT OR REPLACE\<close> deletes
  every row the new one conflicts with.\<close>

definition row_conflict :: "lifecycle_row \<Rightarrow> lifecycle_row \<Rightarrow> bool" where
  "row_conflict r q \<longleftrightarrow> row_id r = row_id q \<or>
     (row_tenant_id r = row_tenant_id q \<and>
       (row_resource_id r \<noteq> None \<and> row_resource_id r = row_resource_id q \<or>
        row_business_key r \<noteq> None \<and> row_business_key r = row_business_key q))"

definition insert_or_replace :: "lifecycle_row \<Rightarrow> lifecycle_row list \<Rightarrow> lifecycle_row list" where
  "insert_or_replace r rs = filter (\<lambda>q. \<not> row_conflict r q) rs @ [r]"

text \<open>The statements of the transaction after the row insert: \<open>None\<close> is the early return.\<close>

fun bind_events :: "string \<Rightarrow> string list \<Rightarrow> sqlite_store \<Rightarrow> sqlite_store option \<times> bool list" where
  "bind_events i [] s = (Some s, sql_script s)"
| "bind_events i (e # es) s =
     (if sql_ok s
      then bind_events i es ((sql_next s)\<lparr>event_bindings := al_upd e i (event_bindings s)\<rparr>)
      else (None, sql_script (sql_next s)))"

definition sql_upsert :: "lifecycle \<Rightarrow> sqlite_store \<Rightarrow> sqlite_store" where
  "sql_upsert lc s =
     (let s1 = sql_next s in
      if \<not> sql_ok s then s1
      else let s2 = sql_next s1 in
      if \<not> sql_ok s1 then s\<lparr>sql_script := sql_script s2\<rparr>
      else case bind_events (lc_id lc) (event_ids lc)
                  (s2\<lparr>rows := insert_or_replace (row_of lc) (rows s2)\<rparr>) of
             (None, scr) \<Rightarrow> s\<lparr>sql_script := scr\<rparr>
           | (Some s3, scr) \<Rightarrow>
               if sql_ok s3 then sql_next s3 else s\<lparr>sql_script := sql_script (sql_next s3)\<rparr>)"

definition sql_record_event :: "string \<Rightarrow> string \<Rightarrow> sqlite_store \<Rightarrow> sqlite_store" where
  "sql_record_event e i s =
     (if sql_ok s then (sql_next s)\<lparr>event_bindings := al_upd e i (event_bindings s)\<rparr> else sql_next s)"

definition sql_all_open :: "sqlite_store \<Rightarrow> lifecycle list" where
  "sql_all_open s =
     (if sql_answers s QAllOpen
      then List.map_filter (\<lambda>r. deserialize_row (body_json r))
        (sort_key (\<lambda>r. sint (row_started_at_ms r)) (filter (\<lambda>r. row_closure r = ''Open'') (rows s)))
      else [])"

definition sql_count :: "sqlite_store \<Rightarrow> nat" where
  "sql_count s = (if sql_answers s QCount then length (rows s) else 0)"

definition sql_count_open :: "sqlite_store \<Rightarrow> nat" where
  "sql_count_open s = (if sql_answers s QCountOpen then length (filter (\<lambda>r. row_closure r = ''Open'') (rows s)) else 0)"

definition sql_ops :: "sqlite_store store_ops" where
  "sql_ops = \<lparr>st_get = sql_get, find_by_resource = sql_find_by_resource,
     find_by_business_key = sql_find_by_business_key, find_by_event = sql_find_by_event,
     st_upsert = sql_upsert, st_record_event = sql_record_event, all_open = sql_all_open,
     st_count = sql_count, count_open = sql_count_open\<rparr>"

section \<open>The contract\<close>

text \<open>Two lifecycles of one tenant that claim the same resource or business key.\<close>

definition clash :: "lifecycle \<Rightarrow> lifecycle \<Rightarrow> bool" where
  "clash a b \<longleftrightarrow> lc_tenant_id a = lc_tenant_id b \<and>
     (lc_resource_id a \<noteq> None \<and> lc_resource_id a = lc_resource_id b \<or>
      business_key a \<noteq> None \<and> business_key a = business_key b)"

locale lifecycle_store =
  fixes ops :: "'s store_ops" and inv :: "'s \<Rightarrow> bool"
  assumes inv_upsert: "inv s \<Longrightarrow> inv (st_upsert ops lc s)"
    and inv_record: "inv s \<Longrightarrow> inv (st_record_event ops e i s)"
    and get_id: "inv s \<Longrightarrow> st_get ops s i = Some lc \<Longrightarrow> lc_id lc = i"
    and get_upsert: "inv s \<Longrightarrow> st_get ops (st_upsert ops lc s) (lc_id lc) = Some lc"
    and get_upsert_other: "inv s \<Longrightarrow> i \<noteq> lc_id lc \<Longrightarrow>
        (\<And>l. st_get ops s i = Some l \<Longrightarrow> \<not> clash lc l) \<Longrightarrow>
        st_get ops (st_upsert ops lc s) i = st_get ops s i"
    and get_record: "inv s \<Longrightarrow> st_get ops (st_record_event ops e j s) i = st_get ops s i"
    and resource_found: "inv s \<Longrightarrow> st_get ops s i = Some lc \<Longrightarrow> lc_resource_id lc = Some r \<Longrightarrow>
        find_by_resource ops s r \<noteq> None"
    and key_found: "inv s \<Longrightarrow> st_get ops s i = Some lc \<Longrightarrow> business_key lc = Some k \<Longrightarrow>
        find_by_business_key ops s k \<noteq> None"
    and resource_resolves: "inv s \<Longrightarrow> find_by_resource ops s r = Some i \<Longrightarrow> st_get ops s i \<noteq> None"
    and key_resolves: "inv s \<Longrightarrow> find_by_business_key ops s k = Some i \<Longrightarrow> st_get ops s i \<noteq> None"
    and open_listed: "inv s \<Longrightarrow>
        set (all_open ops s) = {l. lc_closure l = Open \<and> (\<exists>i. st_get ops s i = Some l)}"
    and open_distinct: "inv s \<Longrightarrow> distinct (map lc_id (all_open ops s))"
    and open_counted: "inv s \<Longrightarrow> count_open ops s = length (all_open ops s)"

section \<open>The in-memory store meets it\<close>

definition mem_inv :: "in_memory_store \<Rightarrow> bool" where
  "mem_inv s \<longleftrightarrow> distinct (map fst (lifecycles s)) \<and>
     (\<forall>i lc. map_of (lifecycles s) i = Some lc \<longrightarrow> lc_id lc = i \<and>
        (\<forall>r. lc_resource_id lc = Some r \<longrightarrow> map_of (by_resource s) r \<noteq> None) \<and>
        (\<forall>k. business_key lc = Some k \<longrightarrow> map_of (by_business_key s) k \<noteq> None)) \<and>
     (\<forall>r i. map_of (by_resource s) r = Some i \<longrightarrow> map_of (lifecycles s) i \<noteq> None) \<and>
     (\<forall>k i. map_of (by_business_key s) k = Some i \<longrightarrow> map_of (lifecycles s) i \<noteq> None)"

lemma mem_inv_new: "mem_inv mem_new"
  by (simp add: mem_inv_def mem_new_def)

lemma mem_inv_upsert: "mem_inv s \<Longrightarrow> mem_inv (mem_upsert lc s)"
  unfolding mem_inv_def mem_upsert_def
  by (auto split: option.splits if_splits)

lemma mem_inv_record: "mem_inv (mem_record_event e i s) = mem_inv s"
  by (simp add: mem_inv_def mem_record_event_def)

lemma mem_open_distinct:
  assumes "mem_inv s"
  shows "distinct (map lc_id (mem_all_open s))"
proof -
  have "map lc_id (map snd (lifecycles s)) = map fst (lifecycles s)"
    using assms by (auto simp: mem_inv_def)
  moreover have "distinct (map fst (lifecycles s))" using assms by (simp add: mem_inv_def)
  ultimately have "distinct (map lc_id (map snd (lifecycles s)))" by metis
  then show ?thesis unfolding mem_all_open_def by (rule distinct_map_filter)
qed

interpretation mem: lifecycle_store mem_ops mem_inv
proof
  fix s :: in_memory_store and lc l :: lifecycle and e i j r k :: string
  assume inv: "mem_inv s"
  then have d: "distinct (map fst (lifecycles s))" by (simp add: mem_inv_def)
  show "mem_inv (st_upsert mem_ops lc s)"
    using mem_inv_upsert [OF inv] by (simp add: mem_ops_def)
  show "mem_inv (st_record_event mem_ops e i s)"
    using mem_inv_record inv by (simp add: mem_ops_def)
  show "st_get mem_ops s i = Some lc \<Longrightarrow> lc_id lc = i"
    using inv by (simp add: mem_ops_def mem_get_def mem_inv_def)
  show "st_get mem_ops (st_upsert mem_ops lc s) (lc_id lc) = Some lc"
    by (simp add: mem_ops_def mem_get_def mem_upsert_def)
  show "i \<noteq> lc_id lc \<Longrightarrow> st_get mem_ops (st_upsert mem_ops lc s) i = st_get mem_ops s i"
    by (simp add: mem_ops_def mem_get_def mem_upsert_def)
  show "st_get mem_ops (st_record_event mem_ops e j s) i = st_get mem_ops s i"
    by (simp add: mem_ops_def mem_get_def mem_record_event_def)
  show "st_get mem_ops s i = Some lc \<Longrightarrow> lc_resource_id lc = Some r \<Longrightarrow> find_by_resource mem_ops s r \<noteq> None"
    using inv by (simp add: mem_ops_def mem_get_def mem_find_by_resource_def mem_inv_def)
  show "st_get mem_ops s i = Some lc \<Longrightarrow> business_key lc = Some k \<Longrightarrow> find_by_business_key mem_ops s k \<noteq> None"
    using inv by (simp add: mem_ops_def mem_get_def mem_find_by_business_key_def mem_inv_def)
  show "find_by_resource mem_ops s r = Some i \<Longrightarrow> st_get mem_ops s i \<noteq> None"
    using inv by (simp add: mem_ops_def mem_get_def mem_find_by_resource_def mem_inv_def del: map_of_eq_Some_iff)
  show "find_by_business_key mem_ops s k = Some i \<Longrightarrow> st_get mem_ops s i \<noteq> None"
    using inv by (simp add: mem_ops_def mem_get_def mem_find_by_business_key_def mem_inv_def del: map_of_eq_Some_iff)
  show "set (all_open mem_ops s) = {l. lc_closure l = Open \<and> (\<exists>i. st_get mem_ops s i = Some l)}"
    using d by (force simp: mem_ops_def mem_all_open_def mem_get_def)
  show "distinct (map lc_id (all_open mem_ops s))"
    using mem_open_distinct [OF inv] by (simp add: mem_ops_def)
  show "count_open mem_ops s = length (all_open mem_ops s)"
    by (simp add: mem_ops_def mem_count_open_def mem_all_open_def)
qed

section \<open>The SQLite store meets it\<close>

definition conflict_free :: "lifecycle_row list \<Rightarrow> bool" where
  "conflict_free rs \<longleftrightarrow> sorted_wrt (\<lambda>r q. \<not> row_conflict r q) rs"

definition sql_inv :: "sqlite_store \<Rightarrow> bool" where
  "sql_inv s \<longleftrightarrow> sql_script s = [] \<and> sql_lost s = [] \<and> (\<forall>r \<in> set (rows s). \<exists>lc. r = row_of lc) \<and> conflict_free (rows s)"

lemma sql_inv_new: "sql_inv sql_open_in_memory"
  by (simp add: sql_inv_def sql_open_in_memory_def conflict_free_def)

lemma row_conflict_sym: "row_conflict r q \<longleftrightarrow> row_conflict q r"
  unfolding row_conflict_def by metis

lemma conflict_free_insert: "conflict_free rs \<Longrightarrow> conflict_free (insert_or_replace r rs)"
  by (auto simp: conflict_free_def insert_or_replace_def sorted_wrt_append sorted_wrt_filter
      row_conflict_sym [of r])

text \<open>What an upsert without failures does.\<close>

lemma bind_events_quiet:
  "sql_script s = [] \<Longrightarrow> bind_events i es s =
     (Some (s\<lparr>event_bindings := fold (\<lambda>e m. al_upd e i m) es (event_bindings s)\<rparr>), [])"
  by (induction es arbitrary: s) (simp_all add: sql_ok_def sql_next_def)

definition upserted :: "lifecycle \<Rightarrow> sqlite_store \<Rightarrow> sqlite_store" where
  "upserted lc s = s\<lparr>rows := insert_or_replace (row_of lc) (rows s),
     event_bindings := fold (\<lambda>e m. al_upd e (lc_id lc) m) (event_ids lc) (event_bindings s)\<rparr>"

lemma sql_upsert_quiet: "sql_script s = [] \<Longrightarrow> sql_upsert lc s = upserted lc s"
  by (simp add: sql_upsert_def sql_ok_def sql_next_def bind_events_quiet upserted_def)

lemma bind_events_effect:
  "bind_events i es s = (Some s', scr) \<Longrightarrow>
     rows s' = rows s \<and> event_bindings s' = fold (\<lambda>e m. al_upd e i m) es (event_bindings s)"
  by (induction es arbitrary: s) (auto simp: sql_next_def split: if_splits)

lemma sql_get_iff:
  assumes "sql_inv s"
  shows "sql_get s i = Some lc \<longleftrightarrow> lc_id lc = i \<and> row_of lc \<in> set (rows s)"
proof
  assume "sql_get s i = Some lc"
  then obtain r where r: "find (\<lambda>r. row_id r = i) (rows s) = Some r" "deserialize_row (body_json r) = Some lc"
    by (auto simp: sql_get_def query_row_def opt_bind_def split: if_splits option.splits)
  then have "r \<in> set (rows s)" "row_id r = i" by (auto simp: find_Some_iff)
  moreover then obtain l where "r = row_of l" using assms by (auto simp: sql_inv_def)
  ultimately show "lc_id lc = i \<and> row_of lc \<in> set (rows s)"
    using r(2) by (simp add: row_of_def deserialize_row_def)
next
  assume a: "lc_id lc = i \<and> row_of lc \<in> set (rows s)"
  have "find (\<lambda>r. row_id r = i) rs = Some (row_of lc)"
    if "row_of lc \<in> set rs" "conflict_free rs" for rs
    using that a by (induction rs) (auto simp: conflict_free_def row_conflict_def row_of_def)
  then have "find (\<lambda>r. row_id r = i) (rows s) = Some (row_of lc)"
    using a assms by (simp add: sql_inv_def)
  moreover have "sql_answers s q" for q using assms by (simp add: sql_inv_def sql_answers_def)
  ultimately show "sql_get s i = Some lc"
    by (simp add: sql_get_def query_row_def deserialize_row_def row_of_def)
qed

lemma sql_find_resolves:
  assumes "sql_inv s" "map_option row_id (query_row s q P) = Some i"
  shows "sql_get s i \<noteq> None"
proof -
  obtain r where "find P (rows s) = Some r" "row_id r = i"
    using assms(2) by (auto simp: query_row_def split: if_splits)
  then have "r \<in> set (rows s)" "row_id r = i" by (auto simp: find_Some_iff)
  moreover then obtain l where "r = row_of l" using assms(1) by (auto simp: sql_inv_def)
  ultimately have "lc_id l = i \<and> row_of l \<in> set (rows s)" by (simp add: row_of_def)
  then show ?thesis using sql_get_iff [OF assms(1)] by blast
qed

lemma sql_find_complete:
  assumes "sql_inv s" "sql_get s i = Some lc" "P (row_of lc)"
  shows "map_option row_id (query_row s q P) \<noteq> None"
  using assms sql_get_iff [OF assms(1), of i lc]
  by (auto simp: query_row_def sql_answers_def sql_inv_def find_None_iff)

lemma sql_inv_upsert: "sql_inv s \<Longrightarrow> sql_inv (sql_upsert lc s)"
  by (auto simp: sql_inv_def sql_upsert_quiet upserted_def conflict_free_insert)
    (auto simp: insert_or_replace_def)

lemma row_of_inject [simp]: "row_of a = row_of b \<longleftrightarrow> a = b"
proof
  assume "row_of a = row_of b"
  then have "lifecycle_of_json (lifecycle_to_json a) = lifecycle_of_json (lifecycle_to_json b)"
    by (simp add: row_of_def)
  then show "a = b" by simp
qed simp

lemma row_conflict_row_of: "row_conflict (row_of a) (row_of b) \<longleftrightarrow> lc_id a = lc_id b \<or> clash a b"
  by (auto simp: row_conflict_def row_of_def clash_def)

lemma sql_rows_upsert:
  assumes "sql_inv s"
  shows "row_of l \<in> set (rows (sql_upsert lc s)) \<longleftrightarrow>
     l = lc \<or> row_of l \<in> set (rows s) \<and> lc_id l \<noteq> lc_id lc \<and> \<not> clash lc l"
  using assms
  by (auto simp: sql_inv_def sql_upsert_quiet upserted_def insert_or_replace_def row_conflict_row_of)

lemma closure_open_str: "closure_str c = ''Open'' \<longleftrightarrow> c = Open"
  by (cases c) auto

lemma sql_all_open_eq:
  assumes "sql_inv s"
  shows "\<exists>ls. map row_of ls = sort_key (\<lambda>r. sint (row_started_at_ms r))
      (filter (\<lambda>r. row_closure r = ''Open'') (rows s)) \<and> sql_all_open s = ls"
proof -
  let ?rs = "sort_key (\<lambda>r. sint (row_started_at_ms r)) (filter (\<lambda>r. row_closure r = ''Open'') (rows s))"
  have "\<forall>r \<in> set ?rs. \<exists>lc. r = row_of lc" using assms by (auto simp: sql_inv_def)
  then obtain ls where ls: "map row_of ls = ?rs"
    unfolding ex_map_conv [symmetric] by metis
  have "List.map_filter (\<lambda>r. deserialize_row (body_json r)) (map row_of xs) = xs" for xs
    by (induction xs) (simp_all add: List.map_filter_simps deserialize_row_def row_of_def)
  moreover have "sql_all_open s = List.map_filter (\<lambda>r. deserialize_row (body_json r)) ?rs"
    using assms by (simp add: sql_all_open_def sql_inv_def sql_answers_def)
  ultimately have "sql_all_open s = ls" by (simp flip: ls)
  with ls show ?thesis by blast
qed

lemma sql_open_set:
  assumes "sql_inv s"
  shows "set (sql_all_open s) = {l. lc_closure l = Open \<and> (\<exists>i. sql_get s i = Some l)}"
    and "distinct (map lc_id (sql_all_open s))"
    and "length (sql_all_open s) = sql_count_open s"
proof -
  obtain ls where ls: "map row_of ls = sort_key (\<lambda>r. sint (row_started_at_ms r))
      (filter (\<lambda>r. row_closure r = ''Open'') (rows s))" "sql_all_open s = ls"
    using sql_all_open_eq [OF assms] by blast
  have m: "l \<in> set ls \<longleftrightarrow> row_of l \<in> set (rows s) \<and> lc_closure l = Open" for l
  proof -
    have "l \<in> set ls \<longleftrightarrow> row_of l \<in> set (map row_of ls)" by auto
    also have "\<dots> \<longleftrightarrow> row_of l \<in> set (rows s) \<and> lc_closure l = Open"
      unfolding ls(1) by (auto simp: row_of_def closure_open_str)
    finally show ?thesis .
  qed
  then show "set (sql_all_open s) = {l. lc_closure l = Open \<and> (\<exists>i. sql_get s i = Some l)}"
    using sql_get_iff [OF assms] ls(2) by auto
  have "distinct (map row_id rs)" if "conflict_free rs" for rs
    using that by (induction rs) (auto simp: conflict_free_def row_conflict_def)
  then have "distinct (map row_id (filter (\<lambda>r. row_closure r = ''Open'') (rows s)))"
    using assms by (simp add: sql_inv_def distinct_map_filter)
  then have "distinct (map row_id (map row_of ls))"
    unfolding ls(1) distinct_map by simp
  moreover have "map row_id (map row_of ls) = map lc_id ls" by (simp add: row_of_def)
  ultimately show "distinct (map lc_id (sql_all_open s))" using ls(2) by metis
  have "length ls = length (filter (\<lambda>r. row_closure r = ''Open'') (rows s))"
    using arg_cong [OF ls(1), of length] by simp
  then show "length (sql_all_open s) = sql_count_open s"
    using assms ls(2) by (simp add: sql_count_open_def sql_inv_def sql_answers_def)
qed

interpretation sql: lifecycle_store sql_ops sql_inv
proof
  fix s :: sqlite_store and lc l :: lifecycle and e i j r k :: string
  assume inv: "sql_inv s"
  note get = sql_get_iff [OF inv]
  note get' = sql_get_iff [OF sql_inv_upsert [OF inv]]
  show "sql_inv (st_upsert sql_ops lc s)"
    using sql_inv_upsert [OF inv] by (simp add: sql_ops_def)
  show "sql_inv (st_record_event sql_ops e i s)"
    using inv by (simp add: sql_ops_def sql_record_event_def sql_inv_def sql_next_def)
  show "st_get sql_ops s i = Some lc \<Longrightarrow> lc_id lc = i"
    using get by (simp add: sql_ops_def)
  show "st_get sql_ops (st_upsert sql_ops lc s) (lc_id lc) = Some lc"
    using get' sql_rows_upsert [OF inv] by (simp add: sql_ops_def)
  show "st_get sql_ops (st_upsert sql_ops lc s) i = st_get sql_ops s i"
    if "i \<noteq> lc_id lc" "\<And>l. st_get sql_ops s i = Some l \<Longrightarrow> \<not> clash lc l"
  proof -
    have "sql_get (sql_upsert lc s) i = Some l \<longleftrightarrow> sql_get s i = Some l" for l
      using that get get' sql_rows_upsert [OF inv] by (auto simp: sql_ops_def)
    then show ?thesis by (simp add: sql_ops_def) (metis option.exhaust)
  qed
  show "st_get sql_ops (st_record_event sql_ops e j s) i = st_get sql_ops s i"
    using inv by (simp add: sql_ops_def sql_get_def query_row_def sql_answers_def sql_record_event_def sql_ok_def
        sql_next_def sql_inv_def)
  show "st_get sql_ops s i = Some lc \<Longrightarrow> lc_resource_id lc = Some r \<Longrightarrow> find_by_resource sql_ops s r \<noteq> None"
    using sql_find_complete [OF inv, of i lc "\<lambda>q. row_resource_id q = Some r"]
    by (simp add: sql_ops_def sql_find_by_resource_def) (simp add: row_of_def)
  show "st_get sql_ops s i = Some lc \<Longrightarrow> business_key lc = Some k \<Longrightarrow> find_by_business_key sql_ops s k \<noteq> None"
    using sql_find_complete [OF inv, of i lc "\<lambda>q. row_business_key q = Some k"]
    by (simp add: sql_ops_def sql_find_by_business_key_def) (simp add: row_of_def)
  show "find_by_resource sql_ops s r = Some i \<Longrightarrow> st_get sql_ops s i \<noteq> None"
    using sql_find_resolves [OF inv] by (simp add: sql_ops_def sql_find_by_resource_def)
  show "find_by_business_key sql_ops s k = Some i \<Longrightarrow> st_get sql_ops s i \<noteq> None"
    using sql_find_resolves [OF inv] by (simp add: sql_ops_def sql_find_by_business_key_def)
  show "set (all_open sql_ops s) = {l. lc_closure l = Open \<and> (\<exists>i. st_get sql_ops s i = Some l)}"
    "distinct (map lc_id (all_open sql_ops s))"
    "count_open sql_ops s = length (all_open sql_ops s)"
    using sql_open_set [OF inv] by (simp_all add: sql_ops_def)
qed

section \<open>Atomicity of an upsert\<close>

text \<open>An upsert is atomic: whatever statement of the transaction fails, an upsert either leaves
  both tables as they were or has the row and every event binding in place.\<close>

theorem sql_upsert_atomic:
  "(rows (sql_upsert lc s) = rows s \<and> event_bindings (sql_upsert lc s) = event_bindings s) \<or>
   (rows (sql_upsert lc s) = insert_or_replace (row_of lc) (rows s) \<and>
    event_bindings (sql_upsert lc s) =
      fold (\<lambda>e m. al_upd e (lc_id lc) m) (event_ids lc) (event_bindings s))"
proof -
  let ?s2 = "sql_next (sql_next s)"
  obtain o1 scr where b: "bind_events (lc_id lc) (event_ids lc)
      (?s2\<lparr>rows := insert_or_replace (row_of lc) (rows ?s2)\<rparr>) = (o1, scr)" by (meson surj_pair)
  show ?thesis
  proof (cases o1)
    case None
    with b show ?thesis by (auto simp: sql_upsert_def Let_def sql_next_def)
  next
    case (Some s3)
    with b have "rows s3 = insert_or_replace (row_of lc) (rows s)"
      "event_bindings s3 = fold (\<lambda>e m. al_upd e (lc_id lc) m) (event_ids lc) (event_bindings s)"
      using bind_events_effect [of "lc_id lc" "event_ids lc" _ s3 scr] by (auto simp: sql_next_def)
    with b Some show ?thesis by (auto simp: sql_upsert_def Let_def sql_next_def)
  qed
qed

end
