(* ===== verification/Lifecycle_Engine.thy ===== *)
theory Lifecycle_Engine
  imports Lifecycle_Store
begin

text \<open>
  \<^verbatim>\<open>engine.rs\<close> and \<^verbatim>\<open>scanner.rs\<close> of \<^verbatim>\<open>athar-lifecycle\<close>: correlation of an event with a lifecycle,
  its application, and the staleness sweep, over any implementation of the store.  \<open>apply\<close>
  holds one mutex from the first read to the last write, so it is one step.
\<close>

section \<open>Correlation\<close>

datatype corr =
    Match string inference_tier
  | New lifecycle_type "string option" "string option"
  | NoCorr

definition business_id :: "event \<Rightarrow> string option" where
  "business_id e = customer_correlation_ids (ev_causality e) ''business_id''"

definition operation_id_of :: "event \<Rightarrow> string option" where
  "operation_id_of e = opt_bind (operation e) operation_id"

definition parent_of :: "event \<Rightarrow> string option" where
  "parent_of e = option_or (parent_event_id (ev_causality e)) (causation_id (ev_causality e))"

definition resource_id_of :: "event \<Rightarrow> string option" where
  "resource_id_of e = opt_bind (resource e) rr_id"

definition correlate :: "'s store_ops \<Rightarrow> 's \<Rightarrow> event \<Rightarrow> corr" where
  "correlate ops s e =
     (case opt_bind (operation_id_of e) (find_by_business_key ops s) of
        Some i \<Rightarrow> Match i TierExplicit
      | None \<Rightarrow>
     (case opt_bind (business_id e) (find_by_business_key ops s) of
        Some i \<Rightarrow> Match i TierBusinessId
      | None \<Rightarrow>
     (case opt_bind (parent_of e) (find_by_event ops s) of
        Some i \<Rightarrow> Match i TierCausation
      | None \<Rightarrow>
     (case opt_bind (resource_id_of e) (find_by_resource ops s) of
        Some i \<Rightarrow> Match i TierResourceId
      | None \<Rightarrow>
     (case from_event_type (event_type e) of
        None \<Rightarrow> NoCorr
      | Some t \<Rightarrow>
         (case resource_id_of e of
            Some r \<Rightarrow> New t (Some r) (option_or (business_id e) (operation_id_of e))
          | None \<Rightarrow>
             (case business_id e of
                Some b \<Rightarrow> New t None (Some b)
              | None \<Rightarrow> NoCorr)))))))"

section \<open>Transitions\<close>

fun transition_for :: "lifecycle_type \<Rightarrow> event \<Rightarrow> (state \<times> closure) option" where
  "transition_for Payment e =
     (let t = event_type e in
      if t = ''payment.create'' then Some (Started, Open)
      else if t = ''payment.process'' \<or> t = ''payment.processing'' then Some (Processing, Open)
      else if t = ''payment.pending'' then Some (Pending, Open)
      else if t = ''payment.retry'' then Some (Processing, Open)
      else if t = ''payment.settle'' \<or> t = ''payment.success'' \<or> t = ''payment.completed''
      then Some (Success, ClClosed)
      else if t = ''payment.fail'' \<or> t = ''payment.failed'' \<or> t = ''payment.error''
      then Some (Failed, ClosedWithException)
      else if t = ''payment.cancel'' \<or> t = ''payment.cancelled'' then Some (Cancelled, ClClosed)
      else if t = ''payment.reverse'' \<or> t = ''payment.reversed''
      then Some (Reversed, ClosedWithException)
      else None)"

definition classify_late_event :: "lifecycle \<Rightarrow> event \<Rightarrow> late_event_class" where
  "classify_late_event lc e =
     (if event_id e \<in> set (event_ids lc) then Duplicate
      else case transition_for (lc_type lc) e of
             Some (new_state, _) \<Rightarrow>
               if is_terminal new_state \<and> new_state \<noteq> lc_state lc then LateConflict else Amendment
           | None \<Rightarrow> LateInformation)"

section \<open>Applying an event\<close>

datatype apply_outcome =
    Created string lifecycle_type state closure
  | Updated string inference_tier state closure
  | LateEvent string inference_tier late_event_class
  | Unbound

definition or_else :: "'a option \<Rightarrow> 'a \<Rightarrow> 'a" where
  "or_else x d = (case x of None \<Rightarrow> d | Some a \<Rightarrow> a)"

definition late_version :: "lifecycle \<Rightarrow> event \<Rightarrow> u64 \<Rightarrow> lifecycle" where
  "late_version lc e now = lc\<lparr>late_events := late_events lc @
     [\<lparr>le_event_id = event_id e, le_event_type = event_type e, arrived_at_ms = now,
       late_class = classify_late_event lc e\<rparr>]\<rparr>"

definition updated_version :: "lifecycle \<Rightarrow> event \<Rightarrow> inference_tier \<Rightarrow> u64 \<Rightarrow> lifecycle" where
  "updated_version lc e tier now =
     (let (st, cl) = or_else (transition_for (lc_type lc) e) (lc_state lc, lc_closure lc);
          lc' = lc\<lparr>event_ids := event_ids lc @ [event_id e], tiers := tiers lc @ [tier],
                   last_event_at_ms := now, lc_state := st, lc_closure := cl\<rparr>
      in if is_closed cl then lc'\<lparr>closed_at_ms := Some now\<rparr> else lc')"

definition created_lifecycle :: "event \<Rightarrow> lifecycle_type \<Rightarrow> string option \<Rightarrow> string option \<Rightarrow> u64 \<Rightarrow> lifecycle" where
  "created_lifecycle e t r k now =
     (let (st, cl) = or_else (transition_for t e) (Started, Open) in
      \<lparr>lc_id = ''lc_'' @ event_id e, lc_tenant_id = tenant_id e, lc_type = t, business_key = k,
       lc_resource_id = r, lc_state = st, lc_closure = cl, started_at_ms = now,
       last_event_at_ms = now, closed_at_ms = (if is_closed cl then Some now else None),
       event_ids = [event_id e], late_events = [], staleness_ms = staleness_for t,
       tiers = [TierResourceId]\<rparr>)"

definition apply_event :: "'s store_ops \<Rightarrow> event \<Rightarrow> u64 \<Rightarrow> 's \<Rightarrow> apply_outcome \<times> 's" where
  "apply_event ops e now s =
     (case correlate ops s e of
        Match i tier \<Rightarrow>
          (case st_get ops s i of
             None \<Rightarrow> (Unbound, s)
           | Some lc \<Rightarrow>
               if is_closed (lc_closure lc)
               then (LateEvent i tier (classify_late_event lc e),
                     st_upsert ops (late_version lc e now) s)
               else let lc' = updated_version lc e tier now in
                    (Updated i tier (lc_state lc') (lc_closure lc'),
                     st_record_event ops (event_id e) i (st_upsert ops lc' s)))
      | New t r k \<Rightarrow>
          let lc = created_lifecycle e t r k now in
          (Created (lc_id lc) t (lc_state lc) (lc_closure lc),
           st_record_event ops (event_id e) (lc_id lc) (st_upsert ops lc s))
      | NoCorr \<Rightarrow> (Unbound, s))"

section \<open>The staleness sweep\<close>

record staleness_result =
  sr_lifecycle_id :: string
  sr_at_ms :: u64
  was_state :: state
  new_state :: state

fun timeout_state_for :: "state \<Rightarrow> state" where
  "timeout_state_for Started = Abandoned"
| "timeout_state_for Processing = Timeout"
| "timeout_state_for Pending = Timeout"
| "timeout_state_for StUnknown = Timeout"
| "timeout_state_for other = other"

definition stale :: "u64 \<Rightarrow> lifecycle \<Rightarrow> bool" where
  "stale now lc \<longleftrightarrow> staleness_ms lc \<le> sat_sub now (last_event_at_ms lc)"

definition timed_out :: "u64 \<Rightarrow> lifecycle \<Rightarrow> lifecycle" where
  "timed_out now lc = lc\<lparr>lc_state := timeout_state_for (lc_state lc),
     lc_closure := ClosedWithUncertainty, closed_at_ms := Some now\<rparr>"

fun sweep_loop :: "'s store_ops \<Rightarrow> u64 \<Rightarrow> lifecycle list \<Rightarrow> 's \<Rightarrow> staleness_result list \<times> 's" where
  "sweep_loop ops now [] s = ([], s)"
| "sweep_loop ops now (lc # ls) s =
     (if stale now lc
      then (case sweep_loop ops now ls (st_upsert ops (timed_out now lc) s) of
              (rs, s') \<Rightarrow> (\<lparr>sr_lifecycle_id = lc_id lc, sr_at_ms = now, was_state = lc_state lc,
                            new_state = timeout_state_for (lc_state lc)\<rparr> # rs, s'))
      else sweep_loop ops now ls s)"

definition sweep :: "'s store_ops \<Rightarrow> u64 \<Rightarrow> 's \<Rightarrow> staleness_result list \<times> 's" where
  "sweep ops now s = sweep_loop ops now (all_open ops s) s"

end
