(* ===== verification/Lifecycle_Proofs.thy ===== *)
theory Lifecycle_Proofs
  imports Lifecycle_Engine
begin

text \<open>
  Correctness of the lifecycle engine and the staleness scanner, proved once against the
  contract of the store and read off for both implementations.  The abstract state of a store
  is the map from identifiers to lifecycles that \<open>st_get\<close> gives.
\<close>

section \<open>The abstract graph\<close>

type_synonym graph = "string \<rightharpoonup> lifecycle"

text \<open>No two lifecycles of a tenant claim the same resource or key.\<close>

definition unclashed :: "graph \<Rightarrow> bool" where
  "unclashed g \<longleftrightarrow> (\<forall>i j a b. g i = Some a \<and> g j = Some b \<and> i \<noteq> j \<longrightarrow> \<not> clash a b)"

definition same_keys :: "lifecycle \<Rightarrow> lifecycle \<Rightarrow> bool" where
  "same_keys a b \<longleftrightarrow> lc_id a = lc_id b \<and> lc_tenant_id a = lc_tenant_id b \<and>
     lc_resource_id a = lc_resource_id b \<and> business_key a = business_key b"

text \<open>Events and tiers go together, a closing time exists exactly when the lifecycle is closed, a
  closed lifecycle is in a terminal state, an open one in a live state without late events.\<close>

definition lifecycle_ok :: "lifecycle \<Rightarrow> bool" where
  "lifecycle_ok lc \<longleftrightarrow> event_ids lc \<noteq> [] \<and> length (tiers lc) = length (event_ids lc) \<and>
     (is_closed (lc_closure lc) \<longleftrightarrow> closed_at_ms lc \<noteq> None) \<and>
     (is_closed (lc_closure lc) \<longrightarrow> is_terminal (lc_state lc)) \<and>
     (\<not> is_closed (lc_closure lc) \<longrightarrow> lc_state lc \<in> {Started, Processing, Pending} \<and> late_events lc = [])"

definition graph_ok :: "graph \<Rightarrow> bool" where
  "graph_ok g \<longleftrightarrow> unclashed g \<and> (\<forall>i lc. g i = Some lc \<longrightarrow> lifecycle_ok lc)"

text \<open>The effect of an event, given what it was correlated with.\<close>

fun apply_spec :: "corr \<Rightarrow> event \<Rightarrow> u64 \<Rightarrow> graph \<Rightarrow> graph" where
  "apply_spec (Match i tier) e now g =
     (case g i of
        None \<Rightarrow> g
      | Some lc \<Rightarrow> g(i \<mapsto> if is_closed (lc_closure lc) then late_version lc e now
                          else updated_version lc e tier now))"
| "apply_spec (New t r k) e now g =
     g(''lc_'' @ event_id e \<mapsto> created_lifecycle e t r k now)"
| "apply_spec NoCorr e now g = g"

definition sweep_spec :: "u64 \<Rightarrow> graph \<Rightarrow> graph" where
  "sweep_spec now g i = (case g i of
      None \<Rightarrow> None
    | Some lc \<Rightarrow> Some (if lc_closure lc = Open \<and> stale now lc then timed_out now lc else lc))"

text \<open>The loop over a list of lifecycles, and its report.\<close>

definition swept :: "u64 \<Rightarrow> lifecycle list \<Rightarrow> graph \<Rightarrow> graph" where
  "swept now ls g i = (case g i of
      None \<Rightarrow> None
    | Some lc \<Rightarrow> Some (if lc \<in> set ls \<and> stale now lc then timed_out now lc else lc))"

definition report :: "u64 \<Rightarrow> lifecycle \<Rightarrow> staleness_result" where
  "report now lc = \<lparr>sr_lifecycle_id = lc_id lc, sr_at_ms = now, was_state = lc_state lc,
     new_state = timeout_state_for (lc_state lc)\<rparr>"

lemma swept_Cons:
  assumes "g (lc_id lc) = Some lc" "stale now lc" "timed_out now lc \<notin> set ls"
    and "\<And>i l. g i = Some l \<Longrightarrow> lc_id l = i"
  shows "swept now ls (g(lc_id lc \<mapsto> timed_out now lc)) = swept now (lc # ls) g"
proof
  fix i
  show "swept now ls (g(lc_id lc \<mapsto> timed_out now lc)) i = swept now (lc # ls) g i"
  proof (cases "i = lc_id lc")
    case True
    with assms(1-3) show ?thesis by (simp add: swept_def)
  next
    case False
    then have "l \<noteq> lc" if "g i = Some l" for l using that assms(4) by blast
    with False show ?thesis by (auto simp: swept_def split: option.split)
  qed
qed

lemma versions_same_keys [simp]:
  "same_keys (late_version lc e now) lc" "same_keys (updated_version lc e tier now) lc"
  "same_keys (timed_out now lc) lc"
  by (simp_all add: same_keys_def late_version_def updated_version_def timed_out_def Let_def
      split: prod.split)

lemma created_keys [simp]:
  "lc_id (created_lifecycle e t r k now) = ''lc_'' @ event_id e"
  "lc_tenant_id (created_lifecycle e t r k now) = tenant_id e"
  "lc_resource_id (created_lifecycle e t r k now) = r"
  "business_key (created_lifecycle e t r k now) = k"
  by (simp_all add: created_lifecycle_def split: prod.split)

lemma clash_same_keys: "same_keys a b \<Longrightarrow> clash a l \<longleftrightarrow> clash b l"
  by (simp add: same_keys_def clash_def)

lemma clash_iff: "clash a b \<longleftrightarrow> lc_tenant_id a = lc_tenant_id b \<and>
    ((\<exists>r. lc_resource_id a = Some r \<and> lc_resource_id b = Some r) \<or>
     (\<exists>k. business_key a = Some k \<and> business_key b = Some k))"
  by (auto simp: clash_def)

lemma clash_sym: "clash a b \<longleftrightarrow> clash b a"
  unfolding clash_def by metis

lemma unclashed_replace:
  assumes "unclashed g" "g i = Some lc" "same_keys lc' lc"
  shows "unclashed (g(i \<mapsto> lc'))"
  using assms unfolding unclashed_def
  by (auto simp: clash_same_keys [OF assms(3)] clash_sym [of _ lc'])

lemma unclashed_add:
  assumes "unclashed g" "\<And>j b. g j = Some b \<Longrightarrow> \<not> clash lc b"
  shows "unclashed (g(i \<mapsto> lc))"
  using assms unfolding unclashed_def by (auto simp: clash_sym [of _ lc])

lemma transition_shape:
  assumes "transition_for t e = Some (st, cl)"
  shows "is_closed cl \<Longrightarrow> is_terminal st" and "\<not> is_closed cl \<Longrightarrow> st \<in> {Started, Processing, Pending}"
  using assms by (cases t; auto simp: Let_def is_closed_def is_terminal_def split: if_splits)+

lemma lifecycle_ok_versions:
  assumes "lifecycle_ok lc"
  shows "is_closed (lc_closure lc) \<Longrightarrow> lifecycle_ok (late_version lc e now)"
    and "\<not> is_closed (lc_closure lc) \<Longrightarrow> lifecycle_ok (updated_version lc e tier now)"
    and "lc_closure lc = Open \<Longrightarrow> lifecycle_ok (timed_out now lc)"
proof -
  show "lifecycle_ok (late_version lc e now)" if "is_closed (lc_closure lc)"
    using assms that by (simp add: lifecycle_ok_def late_version_def)
  show "lifecycle_ok (updated_version lc e tier now)" if "\<not> is_closed (lc_closure lc)"
  proof (cases "transition_for (lc_type lc) e")
    case None
    with assms that show ?thesis by (simp add: lifecycle_ok_def updated_version_def or_else_def)
  next
    case (Some p)
    then obtain st cl where "transition_for (lc_type lc) e = Some (st, cl)" by (cases p) auto
    with assms that transition_shape [OF this] show ?thesis
      by (auto simp: lifecycle_ok_def updated_version_def or_else_def Let_def)
  qed
  show "lifecycle_ok (timed_out now lc)" if "lc_closure lc = Open"
    using assms that by (auto simp: lifecycle_ok_def timed_out_def is_closed_def is_terminal_def)
qed

lemma lifecycle_ok_created: "lifecycle_ok (created_lifecycle e t r k now)"
proof (cases "transition_for t e")
  case None
  then show ?thesis by (simp add: lifecycle_ok_def created_lifecycle_def or_else_def is_closed_def)
next
  case (Some p)
  then obtain st cl where "transition_for t e = Some (st, cl)" by (cases p) auto
  with transition_shape [OF this] show ?thesis
    by (auto simp: lifecycle_ok_def created_lifecycle_def or_else_def)
qed

section \<open>The engine against the contract\<close>

context lifecycle_store begin

lemma get_upsert_replace:
  assumes "inv s" "unclashed (st_get ops s)" "st_get ops s i = Some lc" "same_keys lc' lc"
  shows "st_get ops (st_upsert ops lc' s) = (st_get ops s)(i \<mapsto> lc')"
proof
  fix j
  have id: "lc_id lc' = i" using assms(4) get_id [OF assms(1,3)] by (simp add: same_keys_def)
  show "st_get ops (st_upsert ops lc' s) j = ((st_get ops s)(i \<mapsto> lc')) j"
  proof (cases "j = i")
    case True
    with get_upsert [OF assms(1), of lc'] id show ?thesis by simp
  next
    case False
    have "\<not> clash lc' l" if "st_get ops s j = Some l" for l
      using assms(2,3) that False clash_same_keys [OF assms(4)] by (auto simp: unclashed_def)
    with False get_upsert_other [OF assms(1), of j lc'] id show ?thesis by simp
  qed
qed

lemma get_upsert_add:
  assumes "inv s" "\<And>j b. st_get ops s j = Some b \<Longrightarrow> \<not> clash lc b"
  shows "st_get ops (st_upsert ops lc s) = (st_get ops s)(lc_id lc \<mapsto> lc)"
proof
  fix j
  show "st_get ops (st_upsert ops lc s) j = ((st_get ops s)(lc_id lc \<mapsto> lc)) j"
    using get_upsert [OF assms(1), of lc] get_upsert_other [OF assms(1), of j lc] assms(2)
    by (cases "j = lc_id lc") auto
qed

text \<open>A new lifecycle is only made when nothing in the store has its resource or key.\<close>

lemma new_is_unclaimed:
  assumes "inv s" "correlate ops s e = New t r k" "st_get ops s j = Some b"
  shows "\<not> clash (created_lifecycle e t r k now) b"
proof -
  have "r = None \<or> (\<exists>x. r = Some x \<and> find_by_resource ops s x = None)"
    and "k = None \<or> (\<exists>x. k = Some x \<and> find_by_business_key ops s x = None)"
    using assms(2) by (auto simp: correlate_def opt_bind_def split: option.splits)
  then show ?thesis
    using resource_found [OF assms(1,3)] key_found [OF assms(1,3)] by (auto simp: clash_iff)
qed

lemma apply_get:
  assumes "inv s" "unclashed (st_get ops s)"
  shows "inv (snd (apply_event ops e now s))"
    and "st_get ops (snd (apply_event ops e now s)) = apply_spec (correlate ops s e) e now (st_get ops s)"
proof -
  show "inv (snd (apply_event ops e now s))"
    using assms(1) by (auto simp: apply_event_def Let_def inv_upsert inv_record
        split: corr.split option.split)
  show "st_get ops (snd (apply_event ops e now s)) = apply_spec (correlate ops s e) e now (st_get ops s)"
  proof (cases "correlate ops s e")
    case (Match i tier)
    then show ?thesis
      using get_upsert_replace [OF assms] get_record [OF inv_upsert [OF assms(1)]]
      by (auto simp: apply_event_def Let_def split: option.split)
  next
    case (New t r k)
    then show ?thesis
      using get_upsert_add [OF assms(1) new_is_unclaimed [OF assms(1) New, of _ _ now]]
        get_record [OF inv_upsert [OF assms(1)]]
      by (auto simp: apply_event_def Let_def)
  next
    case NoCorr
    then show ?thesis by (simp add: apply_event_def)
  qed
qed

lemma apply_unclashed:
  assumes "inv s" "unclashed (st_get ops s)"
  shows "unclashed (st_get ops (snd (apply_event ops e now s)))"
proof -
  have "unclashed (apply_spec (correlate ops s e) e now (st_get ops s))"
    using assms(2) unclashed_replace [OF assms(2)]
      unclashed_add [OF assms(2) new_is_unclaimed [OF assms(1), of e]]
    by (cases "correlate ops s e") (auto split: option.split)
  then show ?thesis by (simp add: apply_get [OF assms])
qed

lemma apply_graph_ok:
  assumes "inv s" "graph_ok (st_get ops s)"
  shows "graph_ok (st_get ops (snd (apply_event ops e now s)))"
proof -
  have u: "unclashed (st_get ops s)" using assms(2) by (simp add: graph_ok_def)
  have "lifecycle_ok lc"
    if "apply_spec (correlate ops s e) e now (st_get ops s) i = Some lc" for i lc
    using that assms(2) lifecycle_ok_versions lifecycle_ok_created
    by (cases "correlate ops s e") (auto simp: graph_ok_def split: option.splits if_splits)
  then show ?thesis
    using apply_unclashed [OF assms(1) u, of e now] by (simp add: graph_ok_def apply_get [OF assms(1) u])
qed

lemma sweep_loop_get:
  assumes "inv s" "unclashed (st_get ops s)" "distinct (map lc_id ls)"
    and "\<And>lc. lc \<in> set ls \<Longrightarrow> st_get ops s (lc_id lc) = Some lc"
  shows "inv (snd (sweep_loop ops now ls s)) \<and>
    st_get ops (snd (sweep_loop ops now ls s)) = swept now ls (st_get ops s) \<and>
    fst (sweep_loop ops now ls s) = map (report now) (filter (stale now) ls)"
  using assms
proof (induction ls arbitrary: s)
  case Nil
  then show ?case by (auto simp: swept_def split: option.split)
next
  case (Cons lc ls)
  show ?case
  proof (cases "stale now lc")
    case True
    let ?s = "st_upsert ops (timed_out now lc) s"
    have g: "st_get ops s (lc_id lc) = Some lc" using Cons.prems(4) by simp
    have st: "st_get ops ?s = (st_get ops s)(lc_id lc \<mapsto> timed_out now lc)"
      by (rule get_upsert_replace [OF Cons.prems(1,2) g]) simp
    have "unclashed (st_get ops ?s)"
      unfolding st by (rule unclashed_replace [OF Cons.prems(2) g]) simp
    moreover have "st_get ops ?s (lc_id l) = Some l" if "l \<in> set ls" for l
    proof -
      have "lc_id l \<in> lc_id ` set ls" using that by (rule imageI)
      then have "lc_id l \<noteq> lc_id lc" using Cons.prems(3) by auto
      with that Cons.prems(4) show ?thesis by (simp add: st)
    qed
    ultimately have ih: "inv (snd (sweep_loop ops now ls ?s))"
      "st_get ops (snd (sweep_loop ops now ls ?s)) = swept now ls (st_get ops ?s)"
      "fst (sweep_loop ops now ls ?s) = map (report now) (filter (stale now) ls)"
      using Cons.IH [of ?s] Cons.prems(3) inv_upsert [OF Cons.prems(1)] by auto
    have notin: "timed_out now lc \<notin> set ls"
      using Cons.prems(3) imageI [of "timed_out now lc" "set ls" lc_id]
      by (auto simp: timed_out_def)
    have "swept now ls (st_get ops ?s) = swept now (lc # ls) (st_get ops s)"
      unfolding st by (rule swept_Cons [where g = "st_get ops s", OF g True notin]) (rule get_id [OF Cons.prems(1)])
    moreover have "sweep_loop ops now (lc # ls) s =
        (report now lc # fst (sweep_loop ops now ls ?s), snd (sweep_loop ops now ls ?s))"
      using True by (simp add: split_beta report_def)
    ultimately show ?thesis using ih True by simp
  next
    case False
    then have "swept now (lc # ls) g = swept now ls g" for g
      by (auto simp: swept_def split: option.split)
    with False show ?thesis
      using Cons.IH [OF Cons.prems(1,2)] Cons.prems(3,4) by simp
  qed
qed

lemma sweep_get:
  assumes "inv s" "unclashed (st_get ops s)"
  shows "inv (snd (sweep ops now s))"
    and "st_get ops (snd (sweep ops now s)) = sweep_spec now (st_get ops s)"
    and "fst (sweep ops now s) = map (report now) (filter (stale now) (all_open ops s))"
proof -
  have "st_get ops s (lc_id lc) = Some lc" if "lc \<in> set (all_open ops s)" for lc
    using that open_listed [OF assms(1)] get_id [OF assms(1)] by auto
  note l = sweep_loop_get [OF assms open_distinct [OF assms(1)] this, of now]
  show "inv (snd (sweep ops now s))"
    "fst (sweep ops now s) = map (report now) (filter (stale now) (all_open ops s))"
    using l by (simp_all add: sweep_def)
  have "lc \<in> set (all_open ops s) \<longleftrightarrow> lc_closure lc = Open" if "st_get ops s i = Some lc" for i lc
    using that open_listed [OF assms(1)] by auto
  then have "swept now (all_open ops s) (st_get ops s) = sweep_spec now (st_get ops s)"
    by (auto simp: swept_def sweep_spec_def split: option.split)
  with l show "st_get ops (snd (sweep ops now s)) = sweep_spec now (st_get ops s)"
    by (simp add: sweep_def)
qed

lemma sweep_graph_ok:
  assumes "inv s" "graph_ok (st_get ops s)"
  shows "graph_ok (st_get ops (snd (sweep ops now s)))"
proof -
  have u: "unclashed (st_get ops s)" using assms(2) by (simp add: graph_ok_def)
  have "clash (timed_out now a) b = clash a b" "clash a (timed_out now b) = clash a b" for a b
    by (simp_all add: clash_def timed_out_def)
  then have "unclashed (sweep_spec now (st_get ops s))"
    using u unfolding unclashed_def sweep_spec_def
    by (auto split: option.splits if_splits)
  moreover have "lifecycle_ok lc" if "sweep_spec now (st_get ops s) i = Some lc" for i lc
    using that assms(2) lifecycle_ok_versions(3)
    by (auto simp: graph_ok_def sweep_spec_def split: option.splits if_splits)
  ultimately show ?thesis by (simp add: graph_ok_def sweep_get(2) [OF assms(1) u])
qed

end

section \<open>Histories\<close>

text \<open>The operations of the daemon on a store: events, with identifiers that have not created a
  lifecycle before, and sweeps.\<close>

inductive lifecycle_step :: "'s store_ops \<Rightarrow> 's \<Rightarrow> 's \<Rightarrow> bool" for ops where
  apply_step: "st_get ops s (''lc_'' @ event_id e) = None \<or> (\<forall>t r k. correlate ops s e \<noteq> New t r k) \<Longrightarrow>
     lifecycle_step ops s (snd (apply_event ops e now s))"
| sweep_step: "lifecycle_step ops s (snd (sweep ops now s))"

inductive_cases lifecycle_stepE: "lifecycle_step ops s s'"

definition closed_in :: "graph \<Rightarrow> string \<Rightarrow> lifecycle \<Rightarrow> bool" where
  "closed_in g i lc \<longleftrightarrow> g i = Some lc \<and> is_closed (lc_closure lc)"

lemma apply_spec_closed:
  assumes "closed_in g i lc" "\<And>t r k. corr = New t r k \<Longrightarrow> g (''lc_'' @ event_id e) = None"
  shows "\<exists>late. closed_in (apply_spec corr e now g) i (lc\<lparr>late_events := late_events lc @ late\<rparr>)"
proof (cases corr)
  case (Match j tier)
  show ?thesis
  proof (cases "j = i")
    case True
    with Match assms(1) show ?thesis by (auto simp: closed_in_def late_version_def)
  next
    case False
    with Match assms(1) show ?thesis
      by (auto simp: closed_in_def split: option.split intro!: exI [of _ "[]"])
  qed
next
  case (New t r k)
  with assms show ?thesis by (auto simp: closed_in_def intro!: exI [of _ "[]"])
next
  case NoCorr
  with assms(1) show ?thesis by (auto intro!: exI [of _ "[]"])
qed

lemma sweep_spec_closed:
  "closed_in g i lc \<Longrightarrow> closed_in (sweep_spec now g) i lc"
  by (auto simp: closed_in_def sweep_spec_def is_closed_def)

context lifecycle_store begin

lemma step_ok:
  assumes "lifecycle_step ops s s'" "inv s" "graph_ok (st_get ops s)"
  shows "inv s' \<and> graph_ok (st_get ops s')"
  using assms(1)
proof cases
  case (apply_step e now)
  have "unclashed (st_get ops s)" using assms(3) by (simp add: graph_ok_def)
  with apply_step show ?thesis
    using apply_get(1) [OF assms(2)] apply_graph_ok [OF assms(2,3)] by simp
next
  case (sweep_step now)
  have "unclashed (st_get ops s)" using assms(3) by (simp add: graph_ok_def)
  with sweep_step show ?thesis
    using sweep_get(1) [OF assms(2)] sweep_graph_ok [OF assms(2,3)] by simp
qed

lemma run_ok:
  assumes "(lifecycle_step ops)\<^sup>*\<^sup>* s s'" "inv s" "graph_ok (st_get ops s)"
  shows "inv s' \<and> graph_ok (st_get ops s')"
  using assms by (induction rule: rtranclp_induct) (auto dest: step_ok)

lemma step_closed:
  assumes "lifecycle_step ops s s'" "inv s" "graph_ok (st_get ops s)" "closed_in (st_get ops s) i lc"
  shows "\<exists>late. closed_in (st_get ops s') i (lc\<lparr>late_events := late_events lc @ late\<rparr>)"
proof -
  have u: "unclashed (st_get ops s)" using assms(3) by (simp add: graph_ok_def)
  from assms(1) show ?thesis
  proof cases
    case (apply_step e now)
    then show ?thesis
      using apply_spec_closed [OF assms(4), of "correlate ops s e" e now]
      by (auto simp: apply_get(2) [OF assms(2) u])
  next
    case (sweep_step now)
    then show ?thesis
      using sweep_spec_closed [OF assms(4), of now]
      by (auto simp: sweep_get(2) [OF assms(2) u] intro!: exI [of _ "[]"])
  qed
qed

lemma run_closed:
  assumes "(lifecycle_step ops)\<^sup>*\<^sup>* s s'" "inv s" "graph_ok (st_get ops s)" "closed_in (st_get ops s) i lc"
  shows "\<exists>late. closed_in (st_get ops s') i (lc\<lparr>late_events := late_events lc @ late\<rparr>)"
  using assms(1)
proof (induction rule: rtranclp_induct)
  case base
  then show ?case using assms(4) by (auto intro!: exI [of _ "[]"])
next
  case (step y z)
  then obtain late where c: "closed_in (st_get ops y) i (lc\<lparr>late_events := late_events lc @ late\<rparr>)" by blast
  from run_ok [OF step.hyps(1) assms(2,3)] have "inv y" "graph_ok (st_get ops y)" by simp_all
  from step_closed [OF step.hyps(2) this c] show ?case by auto
qed

end

lemma graph_ok_empty: "graph_ok (\<lambda>i. None)"
  by (simp add: graph_ok_def unclashed_def)

lemma empty_stores:
  "st_get sql_ops sql_open_in_memory = (\<lambda>i. None)" "st_get mem_ops mem_new = (\<lambda>i. None)"
  by (auto simp: sql_ops_def sql_get_def query_row_def sql_open_in_memory_def opt_bind_def
      mem_ops_def mem_get_def mem_new_def)

end
