(* ===== verification/Lifecycle_Props.thy ===== *)
theory Lifecycle_Props
  imports Lifecycle_Proofs
begin

text \<open>
  What the engine and the scanner guarantee on the two stores of the code, read off the
  interpretations of the store contract, and the two ways in which the graph goes wrong:
  correlation across tenants and a reused event identifier.
\<close>

section \<open>Late events never reopen a lifecycle\<close>

definition payment_event :: "string \<Rightarrow> string \<Rightarrow> string \<Rightarrow> string \<Rightarrow> event" where
  "payment_event eid ety tn r = (demo_event eid ety tn)
     \<lparr>resource := Some \<lparr>rr_id = Some r, rr_type = ''payment'', rr_namespace = None\<rparr>\<rparr>"

lemma payment_event_simps [simp]:
  "event_id (payment_event eid ety tn r) = eid" "event_type (payment_event eid ety tn r) = ety"
  "tenant_id (payment_event eid ety tn r) = tn" "resource_id_of (payment_event eid ety tn r) = Some r"
  "business_id (payment_event eid ety tn r) = None" "operation_id_of (payment_event eid ety tn r) = None"
  "parent_of (payment_event eid ety tn r) = None"
  by (simp_all add: payment_event_def demo_event_def resource_id_of_def business_id_def
      operation_id_of_def parent_of_def opt_bind_def)

lemma correlate_payment:
  "correlate ops s (payment_event eid ety tn r) =
     (case find_by_resource ops s r of
        Some i \<Rightarrow> Match i TierResourceId
      | None \<Rightarrow> (case from_event_type ety of None \<Rightarrow> NoCorr | Some t \<Rightarrow> New t (Some r) None))"
  by (simp add: correlate_def opt_bind_def split: option.split)

text \<open>Closed stays closed: in every history of events and sweeps of the SQLite store, a
  lifecycle that is closed at some point has at every later point the same state, closure,
  events and times; at most its list of late events has grown.\<close>

theorem closed_stays_closed:
  assumes "(lifecycle_step sql_ops)\<^sup>*\<^sup>* sql_open_in_memory s" "(lifecycle_step sql_ops)\<^sup>*\<^sup>* s s'"
    and "sql_get s i = Some lc" "is_closed (lc_closure lc)"
  shows "\<exists>late. sql_get s' i = Some (lc\<lparr>late_events := late_events lc @ late\<rparr>)"
proof -
  have "sql_inv s \<and> graph_ok (st_get sql_ops s)"
    by (rule sql.run_ok [OF assms(1) sql_inv_new]) (simp add: empty_stores graph_ok_empty)
  with sql.run_closed [OF assms(2), of i lc] assms(3,4) show ?thesis
    by (auto simp: closed_in_def sql_ops_def)
qed

definition settled :: sqlite_store where
  "settled = snd (apply_event sql_ops (payment_event ''e1'' ''payment.settle'' ''t'' ''r1'') 1 sql_open_in_memory)"

lemma settled_step: "(lifecycle_step sql_ops)\<^sup>*\<^sup>* sql_open_in_memory settled"
  unfolding settled_def by (rule r_into_rtranclp, rule apply_step) (simp add: empty_stores)

lemma settled_get:
  "sql_get settled = [''lc_e1'' \<mapsto>
     created_lifecycle (payment_event ''e1'' ''payment.settle'' ''t'' ''r1'') Payment (Some ''r1'') None 1]"
proof -
  have "find_by_resource sql_ops sql_open_in_memory ''r1'' = None"
    by (simp add: sql_ops_def sql_find_by_resource_def query_row_def sql_open_in_memory_def)
  then have "correlate sql_ops sql_open_in_memory (payment_event ''e1'' ''payment.settle'' ''t'' ''r1'') =
      New Payment (Some ''r1'') None"
    by (simp add: correlate_payment from_event_type_def starts_with_def)
  moreover have "unclashed (st_get sql_ops sql_open_in_memory)"
    using graph_ok_empty by (simp add: empty_stores graph_ok_def)
  ultimately have "st_get sql_ops settled = [''lc_e1'' \<mapsto>
     created_lifecycle (payment_event ''e1'' ''payment.settle'' ''t'' ''r1'') Payment (Some ''r1'') None 1]"
    unfolding settled_def by (simp add: sql.apply_get(2) [OF sql_inv_new] empty_stores)
  then show ?thesis by (simp add: sql_ops_def)
qed

theorem closed_stays_closed_witness:
  "\<exists>lc late. is_closed (lc_closure lc) \<and>
     sql_get (snd (apply_event sql_ops (payment_event ''e2'' ''payment.retry'' ''t'' ''r1'') 2 settled)) ''lc_e1'' =
       Some (lc\<lparr>late_events := late_events lc @ late\<rparr>)"
proof -
  let ?lc = "created_lifecycle (payment_event ''e1'' ''payment.settle'' ''t'' ''r1'') Payment (Some ''r1'') None 1"
  have c: "is_closed (lc_closure ?lc)"
    by (simp add: created_lifecycle_def or_else_def is_closed_def)
  have "(lifecycle_step sql_ops)\<^sup>*\<^sup>* settled
      (snd (apply_event sql_ops (payment_event ''e2'' ''payment.retry'' ''t'' ''r1'') 2 settled))"
    by (rule r_into_rtranclp, rule apply_step) (use settled_get in \<open>simp add: sql_ops_def\<close>)
  from closed_stays_closed [OF settled_step this _ c] settled_get c show ?thesis by auto
qed

section \<open>Every history keeps the graph consistent\<close>

text \<open>Consistent graph: in every history of the SQLite store every lifecycle has one tier
  per event and at least one event, a closing time exactly when it is closed, a terminal
  state when closed, and a live state without late events when open; and no two lifecycles of
  a tenant have the same resource or business key.\<close>

theorem history_keeps_graph_ok:
  assumes "(lifecycle_step sql_ops)\<^sup>*\<^sup>* sql_open_in_memory s"
  shows "(\<forall>i lc. sql_get s i = Some lc \<longrightarrow> lc_id lc = i \<and> lifecycle_ok lc) \<and>
     (\<forall>i j a b. sql_get s i = Some a \<and> sql_get s j = Some b \<and> i \<noteq> j \<longrightarrow> \<not> clash a b)"
proof -
  have "sql_inv s \<and> graph_ok (st_get sql_ops s)"
    by (rule sql.run_ok [OF assms sql_inv_new]) (simp add: empty_stores graph_ok_empty)
  with sql.get_id [of s] show ?thesis
    by (auto simp: graph_ok_def unclashed_def sql_ops_def)
qed

theorem history_keeps_graph_ok_witness:
  "\<exists>lc. sql_get settled ''lc_e1'' = Some lc \<and> lifecycle_ok lc"
  using history_keeps_graph_ok [OF settled_step] settled_get by auto

section \<open>The effect of one event\<close>

text \<open>What an event must do, written down anew: the transition table of payments, the first lookup that is
  answered, the version of a lifecycle that is met and the one that is begun.\<close>

definition payment_table :: "(string \<times> state \<times> closure) list" where
  "payment_table =
     [(''payment.create'', Started, Open),
      (''payment.process'', Processing, Open), (''payment.processing'', Processing, Open), (''payment.retry'', Processing, Open),
      (''payment.pending'', Pending, Open),
      (''payment.settle'', Success, ClClosed), (''payment.success'', Success, ClClosed), (''payment.completed'', Success, ClClosed),
      (''payment.cancel'', Cancelled, ClClosed), (''payment.cancelled'', Cancelled, ClClosed),
      (''payment.fail'', Failed, ClosedWithException), (''payment.failed'', Failed, ClosedWithException),
      (''payment.error'', Failed, ClosedWithException),
      (''payment.reverse'', Reversed, ClosedWithException), (''payment.reversed'', Reversed, ClosedWithException)]"

definition first_hit :: "sqlite_store \<Rightarrow> event \<Rightarrow> (inference_tier \<times> string) option" where
  "first_hit s e = (case List.map_filter (\<lambda>(tier, hit). map_option (Pair tier) hit)
       [(TierExplicit, opt_bind (operation_id_of e) (sql_find_by_business_key s)),
        (TierBusinessId, opt_bind (business_id e) (sql_find_by_business_key s)),
        (TierCausation, opt_bind (parent_of e) (sql_find_by_event s)),
        (TierResourceId, opt_bind (resource_id_of e) (sql_find_by_resource s))] of
     [] \<Rightarrow> None | hit # _ \<Rightarrow> Some hit)"

definition met_by :: "event \<Rightarrow> inference_tier \<Rightarrow> u64 \<Rightarrow> lifecycle \<Rightarrow> apply_outcome \<times> lifecycle" where
  "met_by e tier now lc =
     (let row = map_of payment_table (event_type e) in
      if lc_closure lc \<noteq> Open
      then let cls = (if event_id e \<in> set (event_ids lc) then Duplicate
                      else case row of None \<Rightarrow> LateInformation
                        | Some (st, cl) \<Rightarrow> if cl \<noteq> Open \<and> st \<noteq> lc_state lc then LateConflict else Amendment)
           in (LateEvent (lc_id lc) tier cls,
               lc\<lparr>late_events := late_events lc @
                 [\<lparr>le_event_id = event_id e, le_event_type = event_type e, arrived_at_ms = now, late_class = cls\<rparr>]\<rparr>)
      else let (st, cl) = (case row of None \<Rightarrow> (lc_state lc, Open) | Some x \<Rightarrow> x)
           in (Updated (lc_id lc) tier st cl,
               lc\<lparr>lc_state := st, lc_closure := cl, last_event_at_ms := now,
                 closed_at_ms := (if cl = Open then closed_at_ms lc else Some now),
                 event_ids := event_ids lc @ [event_id e], tiers := tiers lc @ [tier]\<rparr>))"

definition begun_by :: "event \<Rightarrow> u64 \<Rightarrow> apply_outcome \<times> lifecycle" where
  "begun_by e now =
     (let (st, cl) = (case map_of payment_table (event_type e) of None \<Rightarrow> (Started, Open) | Some x \<Rightarrow> x)
      in (Created (''lc_'' @ event_id e) Payment st cl,
          \<lparr>lc_id = ''lc_'' @ event_id e, lc_tenant_id = tenant_id e, lc_type = Payment,
            business_key = (case business_id e of Some b \<Rightarrow> Some b | None \<Rightarrow> operation_id_of e),
            lc_resource_id = resource_id_of e, lc_state = st, lc_closure = cl, started_at_ms = now,
            last_event_at_ms = now, closed_at_ms = (if cl = Open then None else Some now),
            event_ids = [event_id e], late_events = [], staleness_ms = 3600000, tiers = [TierResourceId]\<rparr>))"

definition event_effect :: "(inference_tier \<times> string) option \<Rightarrow> event \<Rightarrow> u64 \<Rightarrow> graph \<Rightarrow> apply_outcome \<times> graph" where
  "event_effect hit e now g =
     (case hit of
        Some (tier, i) \<Rightarrow>
          (case g i of None \<Rightarrow> (Unbound, g) | Some lc \<Rightarrow> (case met_by e tier now lc of (out, lc') \<Rightarrow> (out, g(i \<mapsto> lc'))))
      | None \<Rightarrow>
          if starts_with (event_type e) ''payment.'' \<and> (resource_id_of e \<noteq> None \<or> business_id e \<noteq> None)
          then (case begun_by e now of (out, lc) \<Rightarrow> (out, g(lc_id lc \<mapsto> lc)))
          else (Unbound, g))"

lemma transition_table: "transition_for t e = map_of payment_table (event_type e)"
  by (cases t) (simp add: payment_table_def Let_def)

lemma table_closed:
  assumes "map_of payment_table ty = Some (st, cl)"
  shows "is_terminal st \<longleftrightarrow> cl \<noteq> Open"
proof -
  have "(st, cl) \<in> set (map snd payment_table)" using map_of_SomeD [OF assms] by force
  then show ?thesis by (auto simp: payment_table_def is_terminal_def)
qed

lemma met_by_version:
  "snd (met_by e tier now lc) = (if is_closed (lc_closure lc) then late_version lc e now else updated_version lc e tier now)"
  "fst (met_by e tier now lc) =
     (if is_closed (lc_closure lc) then LateEvent (lc_id lc) tier (classify_late_event lc e)
      else Updated (lc_id lc) tier (lc_state (updated_version lc e tier now)) (lc_closure (updated_version lc e tier now)))"
proof -
  have "classify_late_event lc e = (if event_id e \<in> set (event_ids lc) then Duplicate
      else case map_of payment_table (event_type e) of None \<Rightarrow> LateInformation
        | Some (st, cl) \<Rightarrow> if cl \<noteq> Open \<and> st \<noteq> lc_state lc then LateConflict else Amendment)"
    using table_closed by (auto simp: classify_late_event_def transition_table split: option.split)
  then show "snd (met_by e tier now lc) = (if is_closed (lc_closure lc) then late_version lc e now else updated_version lc e tier now)"
    "fst (met_by e tier now lc) =
     (if is_closed (lc_closure lc) then LateEvent (lc_id lc) tier (classify_late_event lc e)
      else Updated (lc_id lc) tier (lc_state (updated_version lc e tier now)) (lc_closure (updated_version lc e tier now)))"
    by (cases lc; auto simp: met_by_def late_version_def updated_version_def transition_table is_closed_def or_else_def Let_def
        split: option.split prod.split)+
qed

lemma option_or_case: "option_or a b = (case a of None \<Rightarrow> b | Some x \<Rightarrow> Some x)"
  by (cases a) simp_all

lemma begun_by_version:
  assumes "r = resource_id_of e" "k = option_or (business_id e) (operation_id_of e)"
  shows "snd (begun_by e now) = created_lifecycle e Payment r k now"
    "fst (begun_by e now) = Created (''lc_'' @ event_id e) Payment (lc_state (created_lifecycle e Payment r k now))
       (lc_closure (created_lifecycle e Payment r k now))"
  using assms
  by (auto simp: begun_by_def created_lifecycle_def transition_table is_closed_def or_else_def option_or_case
      split: option.split prod.split)

lemma correlate_hit:
  "correlate sql_ops s e = (case first_hit s e of
     Some (tier, i) \<Rightarrow> Match i tier
   | None \<Rightarrow> if starts_with (event_type e) ''payment.'' \<and> (resource_id_of e \<noteq> None \<or> business_id e \<noteq> None)
       then New Payment (resource_id_of e) (option_or (business_id e) (operation_id_of e)) else NoCorr)"
  by (auto simp: correlate_def first_hit_def sql_ops_def map_filter_simps from_event_type_def option_or_case split: option.split)

text \<open>Claim C15 (effect of an event): on a consistent SQLite store, whose database answers, applying an event has exactly this
  effect.  The first of the four lookups that hits names the lifecycle: an open one takes the event, its tier and the
  row of the transition table, a closed one a classified late event; without a hit an initiating event begins a
  lifecycle; every other lifecycle is untouched, and the reported outcome says what happened.\<close>

theorem apply_event_effect:
  assumes "sql_inv s" "unclashed (sql_get s)"
  shows "case apply_event sql_ops e now s of (out, s') \<Rightarrow>
     sql_inv s' \<and> unclashed (sql_get s') \<and> (out, sql_get s') = event_effect (first_hit s e) e now (sql_get s)"
proof -
  have get: "st_get sql_ops = sql_get" by (simp add: sql_ops_def)
  have u: "unclashed (st_get sql_ops s)" using assms(2) by (simp add: get)
  note g = sql.apply_get [OF assms(1) u, of e now]
  have inv: "sql_inv (snd (apply_event sql_ops e now s))" "unclashed (sql_get (snd (apply_event sql_ops e now s)))"
    using g(1) sql.apply_unclashed [OF assms(1) u, of e now] by (simp_all add: get)
  have id: "lc_id lc = i" if "sql_get s i = Some lc" for i lc using sql.get_id [OF assms(1)] that by (simp add: get)
  have "(fst (apply_event sql_ops e now s), apply_spec (correlate sql_ops s e) e now (sql_get s)) =
      event_effect (first_hit s e) e now (sql_get s)"
  proof (cases "first_hit s e")
    case None
    then show ?thesis
      using begun_by_version [OF refl refl, of e now]
      by (simp add: correlate_hit event_effect_def apply_event_def Let_def split_beta)
  next
    case (Some hit)
    then show ?thesis
      using id [of "snd hit"] met_by_version [of e "fst hit" now]
      by (cases hit) (auto simp: correlate_hit event_effect_def apply_event_def get Let_def split_beta split: option.split)
  qed
  then show ?thesis using inv g(2) by (simp add: get split_beta)
qed

lemma settled_ok: "sql_inv settled" "unclashed (sql_get settled)" "graph_ok (sql_get settled)"
proof -
  have "sql_inv settled \<and> graph_ok (st_get sql_ops settled)"
    by (rule sql.run_ok [OF settled_step sql_inv_new]) (simp add: empty_stores graph_ok_empty)
  then show "sql_inv settled" "unclashed (sql_get settled)" "graph_ok (sql_get settled)"
    by (simp_all add: sql_ops_def graph_ok_def)
qed

text \<open>With one lifecycle in the store, its resource leads to it, and no other resource to anything.\<close>

lemma single_find:
  assumes "sql_inv s" "sql_get s = [i \<mapsto> lc]" "lc_resource_id lc = Some r"
  shows "find_by_resource sql_ops s r = Some i"
    and "r' \<noteq> r \<Longrightarrow> find_by_resource sql_ops s r' = None"
proof -
  have get: "st_get sql_ops s = [i \<mapsto> lc]" using assms(2) by (simp add: sql_ops_def)
  obtain j where j: "find_by_resource sql_ops s r = Some j"
    using sql.resource_found [OF assms(1), of i lc r] assms(3) by (auto simp: get)
  with sql.resource_resolves [OF assms(1) j] show "find_by_resource sql_ops s r = Some i"
    by (auto simp: get split: if_splits)
  have "row_resource_id q = Some r" if q: "q \<in> set (rows s)" for q
  proof -
    obtain l where l: "q = row_of l" using q assms(1) by (auto simp: sql_inv_def)
    with q have "sql_get s (lc_id l) = Some l" by (simp add: sql_get_iff [OF assms(1)])
    with l assms(2,3) show ?thesis by (auto simp: row_of_def split: if_splits)
  qed
  then show "find_by_resource sql_ops s r' = None" if "r' \<noteq> r"
    using that by (auto simp: sql_ops_def sql_find_by_resource_def query_row_def find_None_iff)
qed

lemma settled_find: "find_by_resource sql_ops settled ''r1'' = Some ''lc_e1''"
  by (rule single_find(1) [OF settled_ok(1) settled_get]) simp

lemma settled_hit: "first_hit settled (payment_event eid ety tn ''r1'') = Some (TierResourceId, ''lc_e1'')"
  using settled_find by (simp add: first_hit_def map_filter_simps sql_ops_def opt_bind_def)

theorem apply_event_effect_witness:
  "\<exists>lc lc'. sql_get settled ''lc_e1'' = Some lc \<and>
     fst (apply_event sql_ops (payment_event ''e2'' ''payment.failed'' ''t'' ''r1'') 2 settled) =
       LateEvent ''lc_e1'' TierResourceId LateConflict \<and>
     sql_get (snd (apply_event sql_ops (payment_event ''e2'' ''payment.failed'' ''t'' ''r1'') 2 settled)) ''lc_e1'' = Some lc' \<and>
     late_events lc' = late_events lc @ [\<lparr>le_event_id = ''e2'', le_event_type = ''payment.failed'', arrived_at_ms = 2,
       late_class = LateConflict\<rparr>]"
proof -
  let ?e = "payment_event ''e2'' ''payment.failed'' ''t'' ''r1''"
  let ?lc = "created_lifecycle (payment_event ''e1'' ''payment.settle'' ''t'' ''r1'') Payment (Some ''r1'') None 1"
  have lc: "lc_closure ?lc = ClClosed" "lc_state ?lc = Success" "event_ids ?lc = [''e1'']" "late_events ?lc = []" "lc_id ?lc = ''lc_e1''"
    by (simp_all add: created_lifecycle_def or_else_def)
  have "event_effect (first_hit settled ?e) ?e 2 (sql_get settled) =
      (LateEvent ''lc_e1'' TierResourceId LateConflict, [''lc_e1'' \<mapsto> ?lc\<lparr>late_events :=
        [\<lparr>le_event_id = ''e2'', le_event_type = ''payment.failed'', arrived_at_ms = 2, late_class = LateConflict\<rparr>]\<rparr>])"
    unfolding settled_hit settled_get event_effect_def by (simp add: met_by_def lc payment_table_def)
  with apply_event_effect [OF settled_ok(1,2), of ?e 2] show ?thesis
    by (auto simp: settled_get lc split: prod.splits)
qed

section \<open>The sweep\<close>

text \<open>What a sweep must do, written down anew: an open lifecycle is overdue when nothing has happened to it for its
  threshold; the state it times out to.\<close>

definition overdue :: "u64 \<Rightarrow> lifecycle \<Rightarrow> bool" where
  "overdue now lc \<longleftrightarrow> lc_closure lc = Open \<and> unat (staleness_ms lc) \<le> unat now - unat (last_event_at_ms lc)"

definition timeout_table :: "(state \<times> state) list" where
  "timeout_table = [(Started, Abandoned), (Processing, Timeout), (Pending, Timeout), (StUnknown, Timeout)]"

definition run_out :: "u64 \<Rightarrow> lifecycle \<Rightarrow> lifecycle" where
  "run_out now lc = lc\<lparr>lc_state := (case map_of timeout_table (lc_state lc) of None \<Rightarrow> lc_state lc | Some st \<Rightarrow> st),
     lc_closure := ClosedWithUncertainty, closed_at_ms := Some now\<rparr>"

lemma timeout_table_state: "timeout_state_for st = (case map_of timeout_table st of None \<Rightarrow> st | Some st' \<Rightarrow> st')"
  by (cases st) (simp_all add: timeout_table_def)

lemma run_out_timed_out: "timed_out now lc = run_out now lc"
  by (simp add: timed_out_def run_out_def timeout_table_state)

lemma overdue_stale: "lc_closure lc = Open \<Longrightarrow> stale now lc \<longleftrightarrow> overdue now lc"
  by (simp add: stale_def overdue_def word_le_nat_alt unat_sat_sub)

text \<open>Claim C14 (staleness sweep): on a consistent SQLite store, whose database answers, a sweep closes exactly the open
  lifecycles whose last event is at least their staleness threshold ago, each with
  uncertainty, the timeout state of its state and the time of the sweep, changes nothing
  else, and reports each of them exactly once, with its state before and after.\<close>

theorem sweep_exact:
  assumes "sql_inv s" "unclashed (sql_get s)"
  shows "case sweep sql_ops now s of (rs, s') \<Rightarrow>
     sql_inv s' \<and> sql_get s' = (\<lambda>i. map_option (\<lambda>lc. if overdue now lc then run_out now lc else lc) (sql_get s i)) \<and>
     distinct (map sr_lifecycle_id rs) \<and>
     set rs = {\<lparr>sr_lifecycle_id = i, sr_at_ms = now, was_state = lc_state lc, new_state = lc_state (run_out now lc)\<rparr> | i lc.
       sql_get s i = Some lc \<and> overdue now lc}"
proof -
  have get: "st_get sql_ops = sql_get" by (simp add: sql_ops_def)
  note g = sql.sweep_get [unfolded get, OF assms, of now]
  obtain rs s' where sw: "sweep sql_ops now s = (rs, s')" by (cases "sweep sql_ops now s")
  have open_iff: "lc \<in> set (all_open sql_ops s) \<longleftrightarrow>
      lc_closure lc = Open \<and> sql_get s (lc_id lc) = Some lc" for lc
    using sql.open_listed [OF assms(1)] sql.get_id [OF assms(1)] unfolding get by auto
  have id: "lc_id lc = i" if "sql_get s i = Some lc" for i lc using sql.get_id [OF assms(1)] that by (simp add: get)
  have rs: "rs = map (report now) (filter (stale now) (all_open sql_ops s))"
    and s': "sql_inv s'" "sql_get s' = sweep_spec now (sql_get s)"
    using g sw by simp_all
  have due: "stale now lc \<and> lc_closure lc = Open \<longleftrightarrow> overdue now lc" for lc
    using overdue_stale [of lc now] by (auto simp: overdue_def)
  have graph: "sweep_spec now (sql_get s) = (\<lambda>i. map_option (\<lambda>lc. if overdue now lc then run_out now lc else lc) (sql_get s i))"
  proof
    fix i show "sweep_spec now (sql_get s) i = map_option (\<lambda>lc. if overdue now lc then run_out now lc else lc) (sql_get s i)"
      using due by (cases "sql_get s i") (auto simp: sweep_spec_def run_out_timed_out)
  qed
  have "map sr_lifecycle_id rs = map lc_id (filter (stale now) (all_open sql_ops s))" by (simp add: rs report_def)
  then have once: "distinct (map sr_lifecycle_id rs)"
    using sql.open_distinct [OF assms(1)] by (simp add: distinct_map_filter)
  have "report now lc = \<lparr>sr_lifecycle_id = lc_id lc, sr_at_ms = now, was_state = lc_state lc, new_state = lc_state (run_out now lc)\<rparr>" for lc
    by (simp add: report_def run_out_def timeout_table_state)
  then have "set rs = (\<lambda>lc. \<lparr>sr_lifecycle_id = lc_id lc, sr_at_ms = now, was_state = lc_state lc, new_state = lc_state (run_out now lc)\<rparr>) `
      {lc. sql_get s (lc_id lc) = Some lc \<and> overdue now lc}"
    using due open_iff by (auto simp: rs)
  moreover have "\<dots> = {\<lparr>sr_lifecycle_id = i, sr_at_ms = now, was_state = lc_state lc, new_state = lc_state (run_out now lc)\<rparr> | i lc.
       sql_get s i = Some lc \<and> overdue now lc}"
    using id by (blast 5)
  ultimately have "set rs = {\<lparr>sr_lifecycle_id = i, sr_at_ms = now, was_state = lc_state lc, new_state = lc_state (run_out now lc)\<rparr> | i lc.
       sql_get s i = Some lc \<and> overdue now lc}" by simp
  then show ?thesis using sw s' graph once by simp
qed

definition pending_store :: sqlite_store where
  "pending_store = sql_upsert (created_lifecycle
     (payment_event ''e1'' ''payment.pending'' ''t'' ''r1'') Payment (Some ''r1'') None 1) sql_open_in_memory"

lemma pending_get: "sql_get pending_store = [''lc_e1'' \<mapsto> created_lifecycle
    (payment_event ''e1'' ''payment.pending'' ''t'' ''r1'') Payment (Some ''r1'') None 1]"
proof -
  let ?lc = "created_lifecycle (payment_event ''e1'' ''payment.pending'' ''t'' ''r1'') Payment (Some ''r1'') None 1"
  have "st_get sql_ops (st_upsert sql_ops ?lc sql_open_in_memory) = (st_get sql_ops sql_open_in_memory)(lc_id ?lc \<mapsto> ?lc)"
    by (rule sql.get_upsert_add [OF sql_inv_new]) (simp add: empty_stores)
  then show ?thesis by (simp add: empty_stores) (simp add: pending_store_def sql_ops_def)
qed

lemma pending_ok: "sql_inv pending_store" "unclashed (sql_get pending_store)"
  using sql_inv_upsert [OF sql_inv_new] by (simp_all add: pending_store_def [symmetric] pending_get unclashed_def)
    (simp add: pending_store_def)

theorem sweep_exact_witness:
  "fst (sweep sql_ops 3600001 pending_store) =
     [\<lparr>sr_lifecycle_id = ''lc_e1'', sr_at_ms = 3600001, was_state = Pending, new_state = Timeout\<rparr>] \<and>
   fst (sweep sql_ops 3600000 pending_store) = []"
proof -
  let ?r = "\<lparr>sr_lifecycle_id = ''lc_e1'', sr_at_ms = 3600001, was_state = Pending, new_state = Timeout\<rparr>"
  have due: "overdue 3600001 (created_lifecycle (payment_event ''e1'' ''payment.pending'' ''t'' ''r1'') Payment (Some ''r1'') None 1)"
    "\<not> overdue 3600000 (created_lifecycle (payment_event ''e1'' ''payment.pending'' ''t'' ''r1'') Payment (Some ''r1'') None 1)"
    "lc_state (created_lifecycle (payment_event ''e1'' ''payment.pending'' ''t'' ''r1'') Payment (Some ''r1'') None 1) = Pending"
    by (simp_all add: overdue_def created_lifecycle_def or_else_def)
  obtain rs s' rs0 s0 where sw: "sweep sql_ops 3600001 pending_store = (rs, s')" "sweep sql_ops 3600000 pending_store = (rs0, s0)"
    by (cases "sweep sql_ops 3600001 pending_store"; cases "sweep sql_ops 3600000 pending_store")
  from sweep_exact [OF pending_ok, of 3600001] have rs: "set rs = {?r}" "distinct (map sr_lifecycle_id rs)"
    using due unfolding sw pending_get by (auto simp: run_out_def timeout_table_def split: if_splits)
  from sweep_exact [OF pending_ok, of 3600000] have "rs0 = []"
    using due unfolding sw pending_get by (auto split: if_splits)
  moreover have "rs = [?r]" using rs by (cases rs; cases "tl rs") auto
  ultimately show ?thesis by (simp add: sw)
qed

section \<open>Two ways in which the graph goes wrong\<close>

text \<open>\<open>correlate\<close> never looks at the tenant, although the tables are keyed by it: an event of one
  tenant settles another tenant's payment when the resource identifiers coincide.\<close>

lemma correlation_crosses_tenants:
  "fst (apply_event sql_ops (payment_event ''e2'' ''payment.settle'' ''other'' ''r1'') 2 pending_store) =
     Updated ''lc_e1'' TierResourceId Success ClClosed"
  "map_option lc_tenant_id (sql_get pending_store ''lc_e1'') = Some ''t''"
proof -
  have "find_by_resource sql_ops pending_store ''r1'' = Some ''lc_e1''"
    by (rule single_find(1) [OF pending_ok(1) pending_get]) simp
  then have "correlate sql_ops pending_store (payment_event ''e2'' ''payment.settle'' ''other'' ''r1'') =
      Match ''lc_e1'' TierResourceId"
    by (simp add: correlate_payment)
  then show "fst (apply_event sql_ops (payment_event ''e2'' ''payment.settle'' ''other'' ''r1'') 2 pending_store) =
     Updated ''lc_e1'' TierResourceId Success ClClosed"
    by (simp add: apply_event_def sql_ops_def pending_get)
      (simp add: created_lifecycle_def updated_version_def or_else_def is_closed_def Let_def)
  show "map_option lc_tenant_id (sql_get pending_store ''lc_e1'') = Some ''t''"
    by (simp add: pending_get)
qed

text \<open>A lifecycle's identifier is made from the identifier of its first event: a second initiating
  event with that identifier and another resource overwrites the lifecycle, closed or not.\<close>

lemma reused_event_id_erases_lifecycle:
  "sql_get (snd (apply_event sql_ops (payment_event ''e1'' ''payment.create'' ''t'' ''r2'') 2 settled)) =
     [''lc_e1'' \<mapsto> created_lifecycle (payment_event ''e1'' ''payment.create'' ''t'' ''r2'') Payment (Some ''r2'') None 2]"
proof -
  let ?e = "payment_event ''e1'' ''payment.create'' ''t'' ''r2''"
  have u: "unclashed (st_get sql_ops settled)" using settled_ok(2) by (simp add: sql_ops_def)
  have "find_by_resource sql_ops settled ''r2'' = None"
    by (rule single_find(2) [where r = "''r1''", OF settled_ok(1) settled_get]) simp_all
  then have "correlate sql_ops settled ?e = New Payment (Some ''r2'') None"
    by (simp add: correlate_payment from_event_type_def starts_with_def)
  then show ?thesis
    using sql.apply_get(2) [OF settled_ok(1) u, of ?e 2] settled_get by (simp add: sql_ops_def)
qed

section \<open>The in-memory store\<close>

text \<open>Closed stays closed, in memory: the same guarantee holds for every history of the
  in-memory store, and its lifecycles are as consistent.\<close>

theorem closed_stays_closed_in_memory:
  assumes "(lifecycle_step mem_ops)\<^sup>*\<^sup>* mem_new s" "(lifecycle_step mem_ops)\<^sup>*\<^sup>* s s'"
    and "mem_get s i = Some lc" "is_closed (lc_closure lc)"
  shows "lifecycle_ok lc \<and> (\<exists>late. mem_get s' i = Some (lc\<lparr>late_events := late_events lc @ late\<rparr>))"
proof -
  have ok: "mem_inv s \<and> graph_ok (st_get mem_ops s)"
    by (rule mem.run_ok [OF assms(1) mem_inv_new]) (simp add: empty_stores graph_ok_empty)
  with mem.run_closed [OF assms(2), of i lc] assms(3,4) show ?thesis
    by (auto simp: closed_in_def mem_ops_def graph_ok_def)
qed

definition settled_mem :: in_memory_store where
  "settled_mem = snd (apply_event mem_ops (payment_event ''e1'' ''payment.settle'' ''t'' ''r1'') 1 mem_new)"

theorem closed_stays_closed_in_memory_witness:
  "\<exists>lc late. is_closed (lc_closure lc) \<and> mem_get settled_mem ''lc_e1'' = Some lc \<and>
     mem_get (snd (sweep mem_ops 9 settled_mem)) ''lc_e1'' = Some (lc\<lparr>late_events := late_events lc @ late\<rparr>)"
proof -
  let ?e = "payment_event ''e1'' ''payment.settle'' ''t'' ''r1''"
  let ?lc = "created_lifecycle ?e Payment (Some ''r1'') None 1"
  have c: "is_closed (lc_closure ?lc)" by (simp add: created_lifecycle_def or_else_def is_closed_def)
  have "find_by_resource mem_ops mem_new ''r1'' = None"
    by (simp add: mem_ops_def mem_find_by_resource_def mem_new_def)
  then have "correlate mem_ops mem_new ?e = New Payment (Some ''r1'') None"
    by (simp add: correlate_payment from_event_type_def starts_with_def)
  moreover have "unclashed (st_get mem_ops mem_new)"
    using graph_ok_empty by (simp add: empty_stores graph_ok_def)
  ultimately have "st_get mem_ops settled_mem ''lc_e1'' = Some ?lc"
    unfolding settled_mem_def by (simp add: mem.apply_get(2) [OF mem_inv_new])
  then have g: "mem_get settled_mem ''lc_e1'' = Some ?lc" by (simp add: mem_ops_def)
  have 1: "(lifecycle_step mem_ops)\<^sup>*\<^sup>* mem_new settled_mem"
    unfolding settled_mem_def by (rule r_into_rtranclp, rule apply_step) (simp add: empty_stores)
  have 2: "(lifecycle_step mem_ops)\<^sup>*\<^sup>* settled_mem (snd (sweep mem_ops 9 settled_mem))"
    by (rule r_into_rtranclp, rule sweep_step)
  from closed_stays_closed_in_memory [OF 1 2 g c] g c show ?thesis by blast
qed

end
