(* ===== verification/Lifecycle_Race.thy ===== *)
theory Lifecycle_Race
  imports Lifecycle_Props
begin

text \<open>
  The engine and the staleness scanner at the grain of their calls to the store.  \<open>apply\<close> (\<^verbatim>\<open>engine.rs\<close>) holds
  \<open>apply_lock\<close> from its first read to its last write, so two events never overlap; \<open>sweep\<close>
  (\<^verbatim>\<open>scanner.rs\<close>) takes no lock and writes back the lifecycles it read when it began.
\<close>

section \<open>The calls of the two tasks\<close>

text \<open>Where an event is: after its lookups, after reading the lifecycle, before binding its identifier.  The
  lookups are one step; they read identifiers, keys and bindings, which a scan leaves as they are.\<close>

datatype apply_phase =
    Idle
  | Correlated event u64 corr
  | Holding event u64 string inference_tier lifecycle
  | Binding string string

definition apply_begin :: "'s store_ops \<Rightarrow> event \<Rightarrow> u64 \<Rightarrow> 's \<Rightarrow> apply_phase" where
  "apply_begin ops e now s = Correlated e now (correlate ops s e)"

fun apply_next :: "'s store_ops \<Rightarrow> apply_phase \<Rightarrow> 's \<Rightarrow> apply_phase \<times> 's" where
  "apply_next ops Idle s = (Idle, s)"
| "apply_next ops (Correlated e now (Match i tier)) s =
     (case st_get ops s i of None \<Rightarrow> (Idle, s) | Some lc \<Rightarrow> (Holding e now i tier lc, s))"
| "apply_next ops (Correlated e now (New t r k)) s =
     (let lc = created_lifecycle e t r k now in (Binding (event_id e) (lc_id lc), st_upsert ops lc s))"
| "apply_next ops (Correlated e now NoCorr) s = (Idle, s)"
| "apply_next ops (Holding e now i tier lc) s =
     (if is_closed (lc_closure lc) then (Idle, st_upsert ops (late_version lc e now) s)
      else (Binding (event_id e) i, st_upsert ops (updated_version lc e tier now) s))"
| "apply_next ops (Binding e i) s = (Idle, st_record_event ops e i s)"

type_synonym scan = "(u64 \<times> lifecycle list) option"

definition scan_begin :: "'s store_ops \<Rightarrow> u64 \<Rightarrow> 's \<Rightarrow> scan" where
  "scan_begin ops now s = Some (now, all_open ops s)"

fun scan_next :: "'s store_ops \<Rightarrow> scan \<Rightarrow> 's \<Rightarrow> scan \<times> 's" where
  "scan_next ops None s = (None, s)"
| "scan_next ops (Some (now, [])) s = (None, s)"
| "scan_next ops (Some (now, lc # ls)) s =
     (Some (now, ls), if stale now lc then st_upsert ops (timed_out now lc) s else s)"

text \<open>Undisturbed, the calls are the operations.\<close>

lemma apply_undisturbed:
  "\<exists>n. ((\<lambda>(a, s). apply_next ops a s) ^^ n) (apply_begin ops e now s, s) = (Idle, snd (apply_event ops e now s))"
proof (cases "correlate ops s e")
  case (Match i tier)
  show ?thesis
  proof (cases "st_get ops s i")
    case None
    then show ?thesis using Match by (intro exI [of _ 1]) (simp add: apply_begin_def apply_event_def)
  next
    case (Some lc)
    then show ?thesis using Match
      by (intro exI [of _ 3]) (simp add: apply_begin_def apply_event_def Let_def eval_nat_numeral)
  qed
next
  case (New t r k)
  then show ?thesis
    by (intro exI [of _ 2]) (simp add: apply_begin_def apply_event_def Let_def eval_nat_numeral)
next
  case NoCorr
  then show ?thesis by (intro exI [of _ 1]) (simp add: apply_begin_def apply_event_def)
qed

lemma scan_undisturbed:
  "((\<lambda>(a, s). scan_next ops a s) ^^ Suc (length ls)) (Some (now, ls), s) = (None, snd (sweep_loop ops now ls s))"
  by (induction ls arbitrary: s) (simp_all add: funpow_swap1 del: funpow.simps add: funpow_Suc_right split_def)

section \<open>Interleaving\<close>

record 's race =
  rc_store :: 's
  rc_apply :: apply_phase
  rc_scan :: scan

text \<open>\<open>adm\<close> restricts the events.\<close>

inductive race_step :: "'s store_ops \<Rightarrow> ('s \<Rightarrow> event \<Rightarrow> bool) \<Rightarrow> 's race \<Rightarrow> 's race \<Rightarrow> bool" for ops adm where
  race_event: "rc_apply x = Idle \<Longrightarrow> adm (rc_store x) e \<Longrightarrow>
     race_step ops adm x (x\<lparr>rc_apply := apply_begin ops e now (rc_store x)\<rparr>)"
| race_apply: "apply_next ops (rc_apply x) (rc_store x) = (a, s) \<Longrightarrow>
     race_step ops adm x (x\<lparr>rc_store := s, rc_apply := a\<rparr>)"
| race_tick: "rc_scan x = None \<Longrightarrow> race_step ops adm x (x\<lparr>rc_scan := scan_begin ops now (rc_store x)\<rparr>)"
| race_scan: "scan_next ops (rc_scan x) (rc_store x) = (c, s) \<Longrightarrow>
     race_step ops adm x (x\<lparr>rc_store := s, rc_scan := c\<rparr>)"

inductive_cases race_stepE: "race_step ops adm x y"

definition race_start :: "'s \<Rightarrow> 's race" where
  "race_start s = \<lparr>rc_store = s, rc_apply = Idle, rc_scan = None\<rparr>"

section \<open>What interleaving keeps\<close>

text \<open>The copies in flight are consistent and have the keys of what they are copies of.\<close>

definition copy_in :: "graph \<Rightarrow> string \<Rightarrow> lifecycle \<Rightarrow> bool" where
  "copy_in g i lc \<longleftrightarrow> lifecycle_ok lc \<and> (\<exists>l. g i = Some l \<and> same_keys lc l)"

fun apply_ok :: "graph \<Rightarrow> apply_phase \<Rightarrow> bool" where
  "apply_ok g (Correlated e now (New t r k)) \<longleftrightarrow> g (''lc_'' @ event_id e) = None \<and>
     (\<forall>j b. g j = Some b \<longrightarrow> \<not> clash (created_lifecycle e t r k now) b)"
| "apply_ok g (Holding e now i tier lc) \<longleftrightarrow> copy_in g i lc"
| "apply_ok g _ \<longleftrightarrow> True"

fun scan_ok :: "graph \<Rightarrow> scan \<Rightarrow> bool" where
  "scan_ok g (Some (now, ls)) \<longleftrightarrow> (\<forall>lc \<in> set ls. lc_closure lc = Open \<and> copy_in g (lc_id lc) lc)"
| "scan_ok g None \<longleftrightarrow> True"

lemma same_keys_trans: "same_keys a b \<Longrightarrow> same_keys b c \<Longrightarrow> same_keys a c"
  and same_keys_sym: "same_keys a b \<Longrightarrow> same_keys b a"
  and same_keys_refl [simp]: "same_keys a a"
  by (simp_all add: same_keys_def)

text \<open>A version written over a lifecycle with the same keys.\<close>

lemma copy_in_replaced:
  assumes "g j = Some l" "same_keys lc' l" "copy_in g i lc"
  shows "copy_in (g(j \<mapsto> lc')) i lc"
  using assms same_keys_trans [OF _ same_keys_sym [OF assms(2)], of lc] by (auto simp: copy_in_def)

lemma ok_replaced:
  assumes "g j = Some l" "same_keys lc' l"
  shows "apply_ok g a \<Longrightarrow> apply_ok (g(j \<mapsto> lc')) a" and "scan_ok g c \<Longrightarrow> scan_ok (g(j \<mapsto> lc')) c"
proof -
  have cl: "clash n lc' = clash n l" for n using clash_same_keys [OF assms(2)] by (simp add: clash_sym [of n])
  show "apply_ok g a \<Longrightarrow> apply_ok (g(j \<mapsto> lc')) a"
    using assms(1) copy_in_replaced [where g = g, OF assms] cl by (cases "(g, a)" rule: apply_ok.cases) auto
  show "scan_ok g c \<Longrightarrow> scan_ok (g(j \<mapsto> lc')) c"
    using copy_in_replaced [where g = g, OF assms] by (cases "(g, c)" rule: scan_ok.cases) auto
qed

lemma scan_ok_added: "g j = None \<Longrightarrow> scan_ok g c \<Longrightarrow> scan_ok (g(j \<mapsto> lc)) c"
  by (cases "(g, c)" rule: scan_ok.cases) (auto simp: copy_in_def)

lemma graph_ok_replaced:
  "graph_ok g \<Longrightarrow> g j = Some l \<Longrightarrow> same_keys lc' l \<Longrightarrow> lifecycle_ok lc' \<Longrightarrow> graph_ok (g(j \<mapsto> lc'))"
  using unclashed_replace [of g j l lc'] by (auto simp: graph_ok_def)

lemma graph_ok_added:
  "graph_ok g \<Longrightarrow> lifecycle_ok lc \<Longrightarrow> (\<And>j b. g j = Some b \<Longrightarrow> \<not> clash lc b) \<Longrightarrow> graph_ok (g(i \<mapsto> lc))"
  using unclashed_add [of g lc i] by (auto simp: graph_ok_def)

definition race_ok :: "'s store_ops \<Rightarrow> ('s \<Rightarrow> bool) \<Rightarrow> 's race \<Rightarrow> bool" where
  "race_ok ops good x \<longleftrightarrow> good (rc_store x) \<and> graph_ok (st_get ops (rc_store x)) \<and>
     apply_ok (st_get ops (rc_store x)) (rc_apply x) \<and> scan_ok (st_get ops (rc_store x)) (rc_scan x)"

text \<open>An event that creates a lifecycle has an identifier that did not.\<close>

definition fresh_for :: "'s store_ops \<Rightarrow> 's \<Rightarrow> event \<Rightarrow> bool" where
  "fresh_for ops s e \<longleftrightarrow> st_get ops s (''lc_'' @ event_id e) = None \<or> (\<forall>t r k. correlate ops s e \<noteq> New t r k)"

context lifecycle_store begin

lemma apply_next_ok:
  assumes n: "apply_next ops a s = (a', s')" and i: "inv s" "graph_ok (st_get ops s)"
    and a: "apply_ok (st_get ops s) a" and c: "scan_ok (st_get ops s) c"
  shows "inv s' \<and> graph_ok (st_get ops s') \<and> apply_ok (st_get ops s') a' \<and> scan_ok (st_get ops s') c"
proof -
  have u: "unclashed (st_get ops s)" using i(2) by (simp add: graph_ok_def)
  show ?thesis
  proof (cases "(ops, a, s)" rule: apply_next.cases)
    case (2 _ e now j tier)
    then show ?thesis using n i c by (auto simp: copy_in_def graph_ok_def split: option.splits)
  next
    case (3 _ e now t r k)
    let ?lc = "created_lifecycle e t r k now"
    have s': "s' = st_upsert ops ?lc s" "a' = Binding (event_id e) (lc_id ?lc)" using 3 n by (auto simp: Let_def)
    have new: "st_get ops s (''lc_'' @ event_id e) = None" "\<And>j b. st_get ops s j = Some b \<Longrightarrow> \<not> clash ?lc b"
      using 3 a by auto
    have g: "st_get ops s' = (st_get ops s)(''lc_'' @ event_id e \<mapsto> ?lc)"
      unfolding s' using get_upsert_add [OF i(1) new(2)] by simp
    show ?thesis
      using s' inv_upsert [OF i(1)] graph_ok_added [OF i(2) lifecycle_ok_created new(2)] scan_ok_added [OF new(1) c]
      unfolding g by simp
  next
    case (5 _ e now j tier lc)
    then obtain l where l: "st_get ops s j = Some l" "same_keys lc l" "lifecycle_ok lc"
      using a by (auto simp: copy_in_def)
    define v where "v = (if is_closed (lc_closure lc) then late_version lc e now else updated_version lc e tier now)"
    have s': "s' = st_upsert ops v s" "apply_ok g a'" for g using 5 n by (auto simp: v_def split: if_splits)
    have v: "same_keys v l" "lifecycle_ok v"
      using l(2) same_keys_trans [OF versions_same_keys(1)] same_keys_trans [OF versions_same_keys(2)]
        lifecycle_ok_versions [OF l(3)] by (auto simp: v_def)
    have g: "st_get ops s' = (st_get ops s)(j \<mapsto> v)" unfolding s' by (rule get_upsert_replace [OF i(1) u l(1) v(1)])
    show ?thesis
      using s' inv_upsert [OF i(1)] graph_ok_replaced [OF i(2) l(1) v] ok_replaced(2) [OF l(1) v(1) c] unfolding g by simp
  next
    case (6 _ e j)
    then have "s' = st_record_event ops e j s" "a' = Idle" using n by simp_all
    moreover have "st_get ops (st_record_event ops e j s) = st_get ops s" using get_record [OF i(1)] by auto
    ultimately show ?thesis using i c inv_record by simp
  qed (use n i c in simp_all)
qed

lemma scan_next_ok:
  assumes n: "scan_next ops c s = (c', s')" and i: "inv s" "graph_ok (st_get ops s)"
    and a: "apply_ok (st_get ops s) a" and c: "scan_ok (st_get ops s) c"
  shows "inv s' \<and> graph_ok (st_get ops s') \<and> apply_ok (st_get ops s') a \<and> scan_ok (st_get ops s') c'"
proof (cases "(ops, c, s)" rule: scan_next.cases)
  case (3 _ now lc ls)
  show ?thesis
  proof (cases "stale now lc")
    case True
    have u: "unclashed (st_get ops s)" using i(2) by (simp add: graph_ok_def)
    obtain l where l: "st_get ops s (lc_id lc) = Some l" "same_keys lc l" "lifecycle_ok lc" "lc_closure lc = Open"
      using c 3 by (auto simp: copy_in_def)
    have s': "s' = st_upsert ops (timed_out now lc) s" "c' = Some (now, ls)" using n 3 True by auto
    have v: "same_keys (timed_out now lc) l" "lifecycle_ok (timed_out now lc)"
      using same_keys_trans [OF versions_same_keys(3) l(2)] lifecycle_ok_versions(3) [OF l(3,4)] by simp_all
    have g: "st_get ops s' = (st_get ops s)(lc_id lc \<mapsto> timed_out now lc)"
      unfolding s' by (rule get_upsert_replace [OF i(1) u l(1) v(1)])
    have "scan_ok (st_get ops s) c'" using c 3 s'(2) by simp
    note rest = ok_replaced(1) [where g = "st_get ops s", OF l(1) v(1) a] ok_replaced(2) [where g = "st_get ops s", OF l(1) v(1) this]
    show ?thesis
      using s'(1) inv_upsert [OF i(1)] graph_ok_replaced [OF i(2) l(1) v] rest unfolding g by simp
  qed (use n i a c 3 in auto)
qed (use n i a in auto)

lemma race_step_ok:
  assumes "race_step ops (fresh_for ops) x y" "race_ok ops inv x"
  shows "race_ok ops inv y"
  using assms(1)
proof cases
  case (race_event e now)
  have i: "inv (rc_store x)" using assms(2) by (simp add: race_ok_def)
  have "apply_ok (st_get ops (rc_store x)) (apply_begin ops e now (rc_store x))"
    using race_event(3) new_is_unclaimed [OF i, of e]
    by (cases "correlate ops (rc_store x) e") (auto simp: apply_begin_def fresh_for_def)
  then show ?thesis using assms(2) race_event by (simp add: race_ok_def)
next
  case (race_apply a s)
  then show ?thesis using assms(2) apply_next_ok [OF race_apply(2)] by (auto simp: race_ok_def)
next
  case (race_tick now)
  have i: "inv (rc_store x)" "graph_ok (st_get ops (rc_store x))" using assms(2) by (simp_all add: race_ok_def)
  have "scan_ok (st_get ops (rc_store x)) (scan_begin ops now (rc_store x))"
    using open_listed [OF i(1)] get_id [OF i(1)] i(2) by (auto simp: scan_begin_def copy_in_def graph_ok_def)
  then show ?thesis using assms(2) race_tick by (simp add: race_ok_def)
next
  case (race_scan c s)
  then show ?thesis using assms(2) scan_next_ok [OF race_scan(2)] by (auto simp: race_ok_def)
qed

lemma race_run_ok:
  "(race_step ops (fresh_for ops))\<^sup>*\<^sup>* x y \<Longrightarrow> race_ok ops inv x \<Longrightarrow> race_ok ops inv y"
  by (induction rule: rtranclp_induct) (auto dest: race_step_ok)

end

section \<open>The SQLite store\<close>

abbreviation at_grain :: "sqlite_store \<Rightarrow> apply_phase \<Rightarrow> scan \<Rightarrow> sqlite_store race" where
  "at_grain s a c \<equiv> \<lparr>rc_store = s, rc_apply = a, rc_scan = c\<rparr>"

abbreviation sql_race :: "sqlite_store race \<Rightarrow> sqlite_store race \<Rightarrow> bool" where
  "sql_race \<equiv> race_step sql_ops (fresh_for sql_ops)"

lemma race_started: "race_ok sql_ops sql_inv (race_start sql_open_in_memory)"
  by (simp add: race_ok_def race_start_def sql_inv_new empty_stores graph_ok_empty)

text \<open>Single steps, on explicit states.\<close>

lemma grain_event: "fresh_for sql_ops s e \<Longrightarrow> sql_race (at_grain s Idle c) (at_grain s (apply_begin sql_ops e now s) c)"
  using race_event [of "at_grain s Idle c" "fresh_for sql_ops" e sql_ops now] by simp

lemma grain_apply: "apply_next sql_ops a s = (a', s') \<Longrightarrow> sql_race (at_grain s a c) (at_grain s' a' c)"
  using race_apply [of sql_ops "at_grain s a c" a' s'] by simp

lemma grain_tick: "sql_race (at_grain s a None) (at_grain s a (scan_begin sql_ops now s))"
  using race_tick [of "at_grain s a None" sql_ops _ now] by simp

lemma grain_scan: "scan_next sql_ops c s = (c', s') \<Longrightarrow> sql_race (at_grain s a c) (at_grain s' a c')"
  using race_scan [of sql_ops "at_grain s a c" c' s'] by simp

text \<open>An event that finds its lifecycle, up to the point where it holds a copy.\<close>

lemma grain_hold:
  assumes "find_by_resource sql_ops s r = Some i" "sql_get s i = Some lc"
  shows "sql_race\<^sup>*\<^sup>* (at_grain s Idle c) (at_grain s (Holding (payment_event ev ty tn r) now i TierResourceId lc) c)"
proof -
  let ?e = "payment_event ev ty tn r"
  have m: "correlate sql_ops s ?e = Match i TierResourceId" using assms(1) by (simp add: correlate_payment)
  have "sql_race (at_grain s Idle c) (at_grain s (apply_begin sql_ops ?e now s) c)"
    by (rule grain_event) (simp add: fresh_for_def m)
  moreover have "sql_race (at_grain s (apply_begin sql_ops ?e now s) c) (at_grain s (Holding ?e now i TierResourceId lc) c)"
    by (rule grain_apply) (simp add: apply_begin_def m, simp add: sql_ops_def assms(2))
  ultimately show ?thesis by simp
qed

text \<open>An event that creates its lifecycle, on the empty store.\<close>

lemma find_in_empty [simp]: "find_by_resource sql_ops sql_open_in_memory r = None"
  by (simp add: sql_ops_def sql_find_by_resource_def query_row_def sql_open_in_memory_def)

lemma grain_create:
  assumes "from_event_type ty = Some t"
  shows "sql_race\<^sup>*\<^sup>* (race_start sql_open_in_memory)
    (at_grain (snd (apply_event sql_ops (payment_event ev ty tn r) now sql_open_in_memory)) Idle None)"
proof -
  let ?e = "payment_event ev ty tn r" and ?s = sql_open_in_memory
  let ?lc = "created_lifecycle ?e t (Some r) None now"
  have m: "correlate sql_ops ?s ?e = New t (Some r) None"
    using assms by (simp add: correlate_payment)
  have 1: "sql_race (at_grain ?s Idle None) (at_grain ?s (Correlated ?e now (New t (Some r) None)) None)"
    using grain_event [of ?s ?e None now] by (simp add: fresh_for_def empty_stores apply_begin_def m)
  have 2: "sql_race (at_grain ?s (Correlated ?e now (New t (Some r) None)) None)
      (at_grain (st_upsert sql_ops ?lc ?s) (Binding ev (lc_id ?lc)) None)"
    by (rule grain_apply) (simp add: Let_def)
  have 3: "sql_race (at_grain (st_upsert sql_ops ?lc ?s) (Binding ev (lc_id ?lc)) None)
      (at_grain (st_record_event sql_ops ev (lc_id ?lc) (st_upsert sql_ops ?lc ?s)) Idle None)"
    by (rule grain_apply) simp
  have "snd (apply_event sql_ops ?e now ?s) = st_record_event sql_ops ev (lc_id ?lc) (st_upsert sql_ops ?lc ?s)"
    by (simp add: apply_event_def m Let_def)
  then show ?thesis using 1 2 3 unfolding race_start_def by (auto intro: rtranclp_trans)
qed

lemma settled_at_grain: "sql_race\<^sup>*\<^sup>* (race_start sql_open_in_memory) (at_grain settled Idle None)"
  unfolding settled_def by (rule grain_create [where t = Payment]) (simp add: from_event_type_def starts_with_def)

section \<open>The two lost updates\<close>

text \<open>A pending payment in the store, a scan that has just read it, and an event that holds it.\<close>

definition pending_bound :: sqlite_store where
  "pending_bound = snd (apply_event sql_ops (payment_event ''e1'' ''payment.pending'' ''t'' ''r1'') 1 sql_open_in_memory)"

abbreviation pending_lc :: lifecycle where
  "pending_lc \<equiv> created_lifecycle (payment_event ''e1'' ''payment.pending'' ''t'' ''r1'') Payment (Some ''r1'') None 1"

lemma pending_bound_get: "sql_inv pending_bound" "sql_get pending_bound = [''lc_e1'' \<mapsto> pending_lc]"
proof -
  have u: "unclashed (st_get sql_ops sql_open_in_memory)" using graph_ok_empty by (simp add: empty_stores graph_ok_def)
  have "correlate sql_ops sql_open_in_memory (payment_event ''e1'' ''payment.pending'' ''t'' ''r1'') = New Payment (Some ''r1'') None"
    by (simp add: correlate_payment from_event_type_def starts_with_def)
  then have "st_get sql_ops pending_bound = [''lc_e1'' \<mapsto> pending_lc]"
    unfolding pending_bound_def by (simp add: sql.apply_get(2) [OF sql_inv_new u] empty_stores)
  then show "sql_get pending_bound = [''lc_e1'' \<mapsto> pending_lc]" by (simp add: sql_ops_def)
  show "sql_inv pending_bound" unfolding pending_bound_def by (rule sql.apply_get(1) [OF sql_inv_new u])
qed

lemma singleton_list: "set xs = {a} \<Longrightarrow> distinct (map f xs) \<Longrightarrow> xs = [a]"
  by (cases xs; cases "tl xs") auto

lemma single_open:
  assumes "sql_inv s" "sql_get s = [i \<mapsto> lc]" "lc_closure lc = Open"
  shows "all_open sql_ops s = [lc]"
proof (rule singleton_list)
  have "st_get sql_ops s = [i \<mapsto> lc]" using assms(2) by (simp add: sql_ops_def)
  then show "set (all_open sql_ops s) = {lc}" using sql.open_listed [OF assms(1)] assms(3) by auto
  show "distinct (map lc_id (all_open sql_ops s))" by (rule sql.open_distinct [OF assms(1)])
qed

lemma pending_open: "all_open sql_ops pending_bound = [pending_lc]"
  by (rule single_open [OF pending_bound_get]) (simp add: created_lifecycle_def or_else_def)

abbreviation both_hold :: "string \<Rightarrow> sqlite_store race" where
  "both_hold ty \<equiv> at_grain pending_bound
     (Holding (payment_event ''e2'' ty ''t'' ''r1'') 3600001 ''lc_e1'' TierResourceId pending_lc) (Some (3600001, [pending_lc]))"

lemma both_hold_reached: "sql_race\<^sup>*\<^sup>* (race_start sql_open_in_memory) (both_hold ty)"
proof -
  have "sql_race\<^sup>*\<^sup>* (race_start sql_open_in_memory) (at_grain pending_bound Idle None)"
    unfolding pending_bound_def by (rule grain_create [where t = Payment]) (simp add: from_event_type_def starts_with_def)
  moreover have "sql_race (at_grain pending_bound Idle None) (at_grain pending_bound Idle (Some (3600001, [pending_lc])))"
    using grain_tick [of pending_bound Idle 3600001] by (simp add: scan_begin_def pending_open)
  moreover have "find_by_resource sql_ops pending_bound ''r1'' = Some ''lc_e1''"
    by (rule single_find(1) [OF pending_bound_get]) simp
  then have "sql_race\<^sup>*\<^sup>* (at_grain pending_bound Idle (Some (3600001, [pending_lc]))) (both_hold ty)"
    by (rule grain_hold) (simp add: pending_bound_get)
  ultimately show ?thesis by (meson rtranclp.rtrancl_into_rtrancl rtranclp_trans)
qed

text \<open>The write of one over the write of the other.\<close>

lemma pending_overwritten:
  assumes "same_keys a pending_lc" "same_keys b pending_lc"
  shows "sql_get (sql_upsert a pending_bound) = [''lc_e1'' \<mapsto> a]"
    and "sql_get (sql_upsert b (sql_upsert a pending_bound)) = [''lc_e1'' \<mapsto> b]"
proof -
  have u: "unclashed (st_get sql_ops pending_bound)" by (simp add: sql_ops_def pending_bound_get unclashed_def)
  have 1: "st_get sql_ops (st_upsert sql_ops a pending_bound) = (st_get sql_ops pending_bound)(''lc_e1'' \<mapsto> a)"
    by (rule sql.get_upsert_replace [OF pending_bound_get(1) u _ assms(1)]) (simp add: sql_ops_def pending_bound_get)
  then show one: "sql_get (sql_upsert a pending_bound) = [''lc_e1'' \<mapsto> a]" by (simp add: sql_ops_def pending_bound_get)
  have "unclashed (st_get sql_ops (st_upsert sql_ops a pending_bound))"
    using one by (simp add: sql_ops_def unclashed_def)
  then have "st_get sql_ops (st_upsert sql_ops b (st_upsert sql_ops a pending_bound)) =
      (st_get sql_ops (st_upsert sql_ops a pending_bound))(''lc_e1'' \<mapsto> b)"
    by (rule sql.get_upsert_replace [OF sql.inv_upsert [OF pending_bound_get(1)] _ _ same_keys_trans [OF assms(2) same_keys_sym [OF assms(1)]]])
      (use one in \<open>simp add: sql_ops_def\<close>)
  then show "sql_get (sql_upsert b (sql_upsert a pending_bound)) = [''lc_e1'' \<mapsto> b]"
    using one by (simp add: sql_ops_def)
qed

lemma pending_stale: "stale 3600001 pending_lc"
  by (simp add: created_lifecycle_def or_else_def stale_def sat_sub_def)

text \<open>The scan writes last: a payment that has settled is stored as timed out, without its settlement.\<close>

lemma scan_overwrites_settlement:
  "\<exists>x y a b. sql_race\<^sup>*\<^sup>* (race_start sql_open_in_memory) x \<and> sql_race\<^sup>*\<^sup>* x y \<and>
     sql_get (rc_store x) ''lc_e1'' = Some a \<and> lc_state a = Success \<and> lc_closure a = ClClosed \<and> event_ids a = [''e1'', ''e2''] \<and>
     sql_get (rc_store y) ''lc_e1'' = Some b \<and> lc_state b = Timeout \<and> lc_closure b = ClosedWithUncertainty \<and> event_ids b = [''e1'']"
proof -
  define a where "a = updated_version pending_lc (payment_event ''e2'' ''payment.settle'' ''t'' ''r1'') TierResourceId 3600001"
  define b where "b = timed_out 3600001 pending_lc"
  define x where "x = at_grain (sql_upsert a pending_bound) (Binding ''e2'' ''lc_e1'') (Some (3600001, [pending_lc]))"
  define y where "y = at_grain (sql_upsert b (sql_upsert a pending_bound)) (Binding ''e2'' ''lc_e1'') (Some (3600001, []))"
  have "\<not> is_closed (lc_closure pending_lc)" by (simp add: created_lifecycle_def or_else_def is_closed_def)
  then have "sql_race (both_hold ''payment.settle'') x"
    unfolding x_def a_def by (intro grain_apply) (simp add: sql_ops_def)
  with both_hold_reached have x: "sql_race\<^sup>*\<^sup>* (race_start sql_open_in_memory) x" by (rule rtranclp.rtrancl_into_rtrancl)
  have "sql_race x y"
    unfolding x_def y_def b_def by (rule grain_scan) (simp add: pending_stale, simp add: sql_ops_def)
  then have y: "sql_race\<^sup>*\<^sup>* x y" by (rule r_into_rtranclp)
  have "same_keys a pending_lc" "same_keys b pending_lc" by (simp_all add: a_def b_def)
  then have g: "sql_get (rc_store x) ''lc_e1'' = Some a" "sql_get (rc_store y) ''lc_e1'' = Some b"
    using pending_overwritten by (simp_all add: x_def y_def)
  have v: "lc_state a = Success" "lc_closure a = ClClosed" "event_ids a = [''e1'', ''e2'']"
    "lc_state b = Timeout" "lc_closure b = ClosedWithUncertainty" "event_ids b = [''e1'']"
    by (simp_all add: a_def b_def created_lifecycle_def updated_version_def timed_out_def or_else_def is_closed_def Let_def)
  from x y g v show ?thesis by blast
qed

text \<open>The event writes last: a payment that has timed out is open again.\<close>

lemma event_reopens_timed_out:
  "\<exists>x y a b. sql_race\<^sup>*\<^sup>* (race_start sql_open_in_memory) x \<and> sql_race\<^sup>*\<^sup>* x y \<and>
     sql_get (rc_store x) ''lc_e1'' = Some a \<and> lc_closure a = ClosedWithUncertainty \<and>
     sql_get (rc_store y) ''lc_e1'' = Some b \<and> lc_closure b = Open"
proof -
  define h where "h = Holding (payment_event ''e2'' ''payment.process'' ''t'' ''r1'') 3600001 ''lc_e1'' TierResourceId pending_lc"
  define a where "a = timed_out 3600001 pending_lc"
  define b where "b = updated_version pending_lc (payment_event ''e2'' ''payment.process'' ''t'' ''r1'') TierResourceId 3600001"
  define x where "x = at_grain (sql_upsert a pending_bound) h (Some (3600001, []))"
  define y where "y = at_grain (sql_upsert b (sql_upsert a pending_bound)) (Binding ''e2'' ''lc_e1'') (Some (3600001, []))"
  have "sql_race (both_hold ''payment.process'') x"
    unfolding x_def a_def h_def by (rule grain_scan) (simp add: pending_stale, simp add: sql_ops_def)
  with both_hold_reached have x: "sql_race\<^sup>*\<^sup>* (race_start sql_open_in_memory) x" by (rule rtranclp.rtrancl_into_rtrancl)
  have "\<not> is_closed (lc_closure pending_lc)" by (simp add: created_lifecycle_def or_else_def is_closed_def)
  then have "sql_race x y" unfolding x_def y_def b_def h_def by (intro grain_apply) (simp add: sql_ops_def)
  then have y: "sql_race\<^sup>*\<^sup>* x y" by (rule r_into_rtranclp)
  have "same_keys a pending_lc" "same_keys b pending_lc" by (simp_all add: a_def b_def)
  then have g: "sql_get (rc_store x) ''lc_e1'' = Some a" "sql_get (rc_store y) ''lc_e1'' = Some b"
    using pending_overwritten by (simp_all add: x_def y_def)
  have v: "lc_closure a = ClosedWithUncertainty" "lc_closure b = Open"
    by (simp_all add: a_def b_def created_lifecycle_def updated_version_def timed_out_def or_else_def is_closed_def Let_def)
  from x y g v show ?thesis by blast
qed

end
