(* ===== verification/Lifecycle_Faults.thy ===== *)
theory Lifecycle_Faults
  imports Lifecycle_Race
begin

text \<open>
  The lifecycle tables under a failing database: the engine and the sweep ignore the errors of
  \<^verbatim>\<open>sqlite_store.rs\<close> and go on.  What they may lose is an update; what they never leave behind is a
  row that does not parse, that says something other than its document, or that breaks an index.
\<close>

section \<open>Typed tables\<close>

definition row_typed :: "lifecycle_row \<Rightarrow> bool" where
  "row_typed r \<longleftrightarrow> (\<exists>lc. deserialize_row (body_json r) = Some lc \<and> r = row_of lc \<and> lifecycle_ok lc)"

definition table_typed :: "sqlite_store \<Rightarrow> bool" where
  "table_typed s \<longleftrightarrow> list_all row_typed (rows s) \<and> conflict_free (rows s)"

lemma row_typed_of [simp]: "row_typed (row_of lc) \<longleftrightarrow> lifecycle_ok lc"
proof
  assume "row_typed (row_of lc)"
  then obtain l where "row_of lc = row_of l" "lifecycle_ok l" unfolding row_typed_def by blast
  then show "lifecycle_ok lc" by simp
next
  assume ok: "lifecycle_ok lc"
  have "deserialize_row (body_json (row_of lc)) = Some lc" by (simp add: deserialize_row_def row_of_def)
  with ok show "row_typed (row_of lc)" unfolding row_typed_def by blast
qed

lemma row_typedE:
  assumes "row_typed r"
  obtains lc where "r = row_of lc" "lifecycle_ok lc"
  using assms by (auto simp: row_typed_def)

lemma table_typed_faults [simp]: "table_typed (s\<lparr>sql_script := scr, sql_lost := qs\<rparr>) = table_typed s"
  by (simp add: table_typed_def)

lemma table_typed_new: "table_typed sql_open_in_memory"
  by (simp add: table_typed_def sql_open_in_memory_def conflict_free_def)

text \<open>What is read from a typed table is typed.\<close>

lemma typed_get:
  assumes "table_typed s" "sql_get s i = Some lc"
  shows "lifecycle_ok lc"
proof -
  obtain r where r: "find (\<lambda>r. row_id r = i) (rows s) = Some r" "deserialize_row (body_json r) = Some lc"
    using assms(2) by (auto simp: sql_get_def query_row_def opt_bind_def split: if_splits option.splits)
  then have "row_typed r" using assms(1) by (auto simp: table_typed_def list_all_iff find_Some_iff)
  then show ?thesis using r(2) by (auto simp: row_typed_def)
qed

lemma typed_open:
  assumes "table_typed s" "lc \<in> set (sql_all_open s)"
  shows "lifecycle_ok lc \<and> lc_closure lc = Open"
proof -
  obtain r where r: "r \<in> set (rows s)" "row_closure r = ''Open''" "deserialize_row (body_json r) = Some lc"
    using assms(2) by (auto simp: sql_all_open_def List.map_filter_def split: if_splits)
  then have "row_typed r" using assms(1) by (simp add: table_typed_def list_all_iff)
  with r(2,3) show ?thesis by (auto simp: row_typed_def row_of_def closure_open_str)
qed

text \<open>A write keeps the table typed, whatever statement fails.\<close>

lemma upsert_rows: "rows (sql_upsert lc s) \<in> {rows s, insert_or_replace (row_of lc) (rows s)}"
  by (auto simp: sql_upsert_def Let_def sql_next_def dest: bind_events_effect split: prod.split option.split)

lemma typed_upsert:
  assumes "table_typed s" "lifecycle_ok lc"
  shows "table_typed (sql_upsert lc s)"
proof -
  have "list_all row_typed (insert_or_replace (row_of lc) (rows s))"
    using assms by (auto simp: table_typed_def insert_or_replace_def list_all_iff)
  moreover have "rows (sql_upsert lc s) = rows s \<or> rows (sql_upsert lc s) = insert_or_replace (row_of lc) (rows s)"
    using upsert_rows [of lc s] by simp
  ultimately show ?thesis using assms(1) conflict_free_insert by (auto simp: table_typed_def)
qed

lemma typed_record: "table_typed (sql_record_event e i s) = table_typed s"
  by (simp add: table_typed_def sql_record_event_def sql_next_def)

section \<open>Histories with failures\<close>

text \<open>Between any two calls the database decides which of its statements will fail and which queries it will not
  answer.  Events, with any identifiers, and scans interleave call by call.\<close>

inductive faulty_step :: "sqlite_store race \<Rightarrow> sqlite_store race \<Rightarrow> bool" where
  faulty_database: "faulty_step x (x\<lparr>rc_store := (rc_store x)\<lparr>sql_script := scr, sql_lost := qs\<rparr>\<rparr>)"
| faulty_call: "race_step sql_ops (\<lambda>_ _. True) x y \<Longrightarrow> faulty_step x y"

text \<open>What the two tasks hold is typed as well.\<close>

fun phase_typed :: "apply_phase \<Rightarrow> bool" where
  "phase_typed (Holding e now i tier lc) \<longleftrightarrow> lifecycle_ok lc"
| "phase_typed _ \<longleftrightarrow> True"

fun scan_typed :: "scan \<Rightarrow> bool" where
  "scan_typed (Some (now, ls)) \<longleftrightarrow> (\<forall>lc \<in> set ls. lifecycle_ok lc \<and> lc_closure lc = Open)"
| "scan_typed None \<longleftrightarrow> True"

definition race_typed :: "sqlite_store race \<Rightarrow> bool" where
  "race_typed x \<longleftrightarrow> table_typed (rc_store x) \<and> phase_typed (rc_apply x) \<and> scan_typed (rc_scan x)"

lemma typed_apply_next:
  assumes "apply_next sql_ops a s = (a', s')" "table_typed s" "phase_typed a"
  shows "table_typed s' \<and> phase_typed a'"
proof (cases "(sql_ops, a, s)" rule: apply_next.cases)
  case (2 _ e now i tier)
  then show ?thesis using assms typed_get [OF assms(2), of i] by (auto simp: sql_ops_def split: option.splits)
next
  case (3 _ e now t r k)
  then show ?thesis using assms typed_upsert [OF assms(2) lifecycle_ok_created] by (auto simp: sql_ops_def Let_def)
next
  case (5 _ e now i tier lc)
  then show ?thesis using assms typed_upsert [OF assms(2)] lifecycle_ok_versions(1,2) [of lc]
    by (auto simp: sql_ops_def split: if_splits)
next
  case (6 _ e i)
  then show ?thesis using assms by (auto simp: sql_ops_def typed_record)
qed (use assms in simp_all)

lemma typed_scan_next:
  assumes "scan_next sql_ops c s = (c', s')" "table_typed s" "scan_typed c"
  shows "table_typed s' \<and> scan_typed c'"
proof (cases "(sql_ops, c, s)" rule: scan_next.cases)
  case (3 _ now lc ls)
  then show ?thesis using assms typed_upsert [OF assms(2)] lifecycle_ok_versions(3) [of lc]
    by (auto simp: sql_ops_def)
qed (use assms in simp_all)

lemma typed_step: "faulty_step x y \<Longrightarrow> race_typed x \<Longrightarrow> race_typed y"
proof (induction rule: faulty_step.induct)
  case (faulty_call x y)
  from faulty_call(1) show ?case
  proof cases
    case (race_tick now)
    then show ?thesis using faulty_call(2) typed_open [of "rc_store x"]
      by (auto simp: race_typed_def scan_begin_def sql_ops_def)
  qed (use faulty_call(2) in \<open>auto simp: race_typed_def apply_begin_def dest: typed_apply_next typed_scan_next\<close>)
qed (simp add: race_typed_def)

lemma typed_run: "faulty_step\<^sup>*\<^sup>* x y \<Longrightarrow> race_typed x \<Longrightarrow> race_typed y"
  by (induction rule: rtranclp_induct) (auto intro: typed_step)

lemma typed_quiet_inv: "table_typed s \<Longrightarrow> sql_script s = [] \<Longrightarrow> sql_lost s = [] \<Longrightarrow> sql_inv s"
  by (auto simp: table_typed_def sql_inv_def list_all_iff elim: row_typedE)

text \<open>Claim C22 (typed tables): however the calls of events and scans interleave and whichever of their statements and
  queries fail, every row of the lifecycle table parses to a consistent lifecycle whose columns it
  repeats, and the primary key and the unique indexes hold; so as soon as the queries succeed again a scan of
  the open lifecycles drops none, and every identifier found by an index resolves.\<close>

theorem lifecycle_table_typed:
  assumes "faulty_step\<^sup>*\<^sup>* (race_start sql_open_in_memory) x" "rc_store x = s" "sql_script s = []" "sql_lost s = []"
  shows "(\<forall>r \<in> set (rows s). \<exists>lc. deserialize_row (body_json r) = Some lc \<and> r = row_of lc \<and> lifecycle_ok lc) \<and>
     sorted_wrt (\<lambda>r q. \<not> row_conflict r q) (rows s) \<and>
     length (sql_all_open s) = sql_count_open s \<and>
     (\<forall>i x. sql_find_by_resource s x = Some i \<or> sql_find_by_business_key s x = Some i \<longrightarrow>
        (\<exists>lc. sql_get s i = Some lc \<and> lifecycle_ok lc))"
proof -
  have "race_typed (race_start sql_open_in_memory)" by (simp add: race_typed_def race_start_def table_typed_new)
  from typed_run [OF assms(1) this] have t: "table_typed s" using assms(2) by (simp add: race_typed_def)
  have inv: "sql_inv s" by (rule typed_quiet_inv [OF t assms(3,4)])
  have "\<exists>lc. sql_get s i = Some lc \<and> lifecycle_ok lc"
    if "sql_find_by_resource s x = Some i \<or> sql_find_by_business_key s x = Some i" for i x
    using that sql_find_resolves [OF inv, of _ _ i] typed_get [OF t, of i]
    unfolding sql_find_by_resource_def sql_find_by_business_key_def by blast
  with t sql_open_set(3) [OF inv] show ?thesis
    by (auto simp: table_typed_def list_all_iff row_typed_def conflict_free_def)
qed

text \<open>A history in which the second event's transaction fails at its last statement.\<close>

lemma faulty_race: "sql_race x y \<Longrightarrow> faulty_step x y"
  by (rule faulty_call) (auto elim!: race_stepE intro: race_step.intros)

lemma faulty_races: "sql_race\<^sup>*\<^sup>* x y \<Longrightarrow> faulty_step\<^sup>*\<^sup>* x y"
  using faulty_race by (metis mono_rtranclp)

lemma settled_other: "find_by_resource sql_ops (settled\<lparr>sql_script := scr\<rparr>) ''r2'' = None"
proof -
  have "find_by_resource sql_ops settled ''r2'' = None"
    by (rule single_find(2) [OF settled_ok(1) settled_get, where r = "''r1''"]) simp_all
  then show ?thesis by (simp add: sql_ops_def sql_find_by_resource_def query_row_def sql_answers_def split: if_splits)
qed

lemma created_events: "event_ids (created_lifecycle e t r k now) = [event_id e]"
  by (simp add: created_lifecycle_def split: prod.split)

lemma commit_fails:
  "event_ids lc = [e] \<Longrightarrow> sql_upsert lc (s\<lparr>sql_script := [True, True, True, False]\<rparr>) = s\<lparr>sql_script := []\<rparr>"
  by (simp add: sql_upsert_def sql_next_def sql_ok_def Let_def)

lemma settled_quiet: "sql_script settled = []" "sql_lost settled = []" "rows settled \<noteq> []"
proof -
  show "sql_script settled = []" "sql_lost settled = []" using settled_ok(1) by (simp_all add: sql_inv_def)
  show "rows settled \<noteq> []"
  proof
    assume none: "rows settled = []"
    have "sql_get settled ''lc_e1'' \<noteq> None" by (simp add: settled_get)
    with none show False by (simp add: sql_get_def query_row_def opt_bind_def split: if_splits)
  qed
qed

theorem lifecycle_table_typed_witness:
  "\<exists>s. rows s \<noteq> [] \<and> length (sql_all_open s) = sql_count_open s \<and>
     (\<forall>r \<in> set (rows s). \<exists>lc. deserialize_row (body_json r) = Some lc \<and> r = row_of lc \<and> lifecycle_ok lc)"
proof -
  let ?e = "payment_event ''e2'' ''payment.create'' ''t'' ''r2''" and ?scr = "[True, True, True, False]"
  let ?s = "settled\<lparr>sql_script := ?scr\<rparr>" and ?lc = "created_lifecycle ?e Payment (Some ''r2'') None 2"
  let ?x = "at_grain (settled\<lparr>sql_script := []\<rparr>) (Binding ''e2'' ''lc_e2'') None"
  have m: "correlate sql_ops ?s ?e = New Payment (Some ''r2'') None"
    using settled_other by (simp add: correlate_payment from_event_type_def starts_with_def)
  have "?s = settled\<lparr>sql_script := ?scr, sql_lost := []\<rparr>" using settled_quiet(2) by simp
  then have 1: "faulty_step (at_grain settled Idle None) (at_grain ?s Idle None)"
    using faulty_database [where x = "at_grain settled Idle None" and scr = ?scr and qs = "[]"] by simp
  have "race_step sql_ops (\<lambda>_ _. True) (at_grain ?s Idle None) (at_grain ?s (apply_begin sql_ops ?e 2 ?s) None)"
    using race_event [of "at_grain ?s Idle None" "\<lambda>_ _. True"] by simp
  then have 2: "faulty_step (at_grain ?s Idle None) (at_grain ?s (apply_begin sql_ops ?e 2 ?s) None)" by (rule faulty_call)
  have "apply_next sql_ops (apply_begin sql_ops ?e 2 ?s) ?s = (Binding ''e2'' ''lc_e2'', sql_upsert ?lc ?s)"
    by (simp add: apply_begin_def m Let_def) (simp add: sql_ops_def)
  then have "apply_next sql_ops (apply_begin sql_ops ?e 2 ?s) ?s = (Binding ''e2'' ''lc_e2'', settled\<lparr>sql_script := []\<rparr>)"
    by (simp only: commit_fails [OF created_events])
  then have 3: "faulty_step (at_grain ?s (apply_begin sql_ops ?e 2 ?s) None) ?x" by (rule faulty_race [OF grain_apply])
  have run: "faulty_step\<^sup>*\<^sup>* (race_start sql_open_in_memory) ?x"
    using faulty_races [OF settled_at_grain] 1 2 3 by (meson rtranclp.rtrancl_into_rtrancl)
  have "rc_store ?x = settled" using settled_quiet(1) by simp
  from lifecycle_table_typed [OF run this settled_quiet(1,2)] settled_quiet(3) show ?thesis
    by (intro exI [of _ settled]) (elim conjE, intro conjI)
qed

section \<open>An unanswered query\<close>

text \<open>The methods of the store answer a failed query like an empty one.  When the lookup of a resource is not
  answered, an event of a settled payment creates a second lifecycle, and the insertion of its row
  replaces the first: the settled lifecycle is gone.\<close>

lemma upsert_clashing:
  assumes "sql_inv s" "sql_get s = [j \<mapsto> l1]" "clash lc l1"
  shows "sql_get (sql_upsert lc s) = [lc_id lc \<mapsto> lc]"
proof
  fix i
  have only: "row_of l \<in> set (rows s) \<Longrightarrow> l = l1" for l
    using sql_get_iff [OF assms(1), of "lc_id l" l] assms(2) by (auto split: if_splits)
  have "sql_get (sql_upsert lc s) i = Some l \<longleftrightarrow> i = lc_id lc \<and> l = lc" for l
    using sql_get_iff [OF sql_inv_upsert [OF assms(1)], of lc i l] sql_rows_upsert [OF assms(1), of l lc] only [of l] assms(3)
    by auto
  then show "sql_get (sql_upsert lc s) i = [lc_id lc \<mapsto> lc] i" by (cases "sql_get (sql_upsert lc s) i") auto
qed

lemma upsert_lost: "sql_script s = [] \<Longrightarrow> sql_upsert lc (s\<lparr>sql_lost := qs\<rparr>) = (sql_upsert lc s)\<lparr>sql_lost := qs\<rparr>"
  by (simp add: sql_upsert_quiet upserted_def)

lemma lost_query_erases_lifecycle:
  defines "lc2 \<equiv> created_lifecycle (payment_event ''e2'' ''payment.create'' ''t'' ''r1'') Payment (Some ''r1'') None 2"
  defines "s \<equiv> snd (apply_event sql_ops (payment_event ''e2'' ''payment.create'' ''t'' ''r1'') 2
    (settled\<lparr>sql_lost := [QResource ''r1'']\<rparr>))"
  shows "is_closed (lc_closure (the (sql_get settled ''lc_e1'')))" "sql_get (s\<lparr>sql_lost := []\<rparr>) = [''lc_e2'' \<mapsto> lc2]"
proof -
  show "is_closed (lc_closure (the (sql_get settled ''lc_e1'')))"
    by (simp add: settled_get created_lifecycle_def or_else_def is_closed_def)
  have "find_by_resource sql_ops (settled\<lparr>sql_lost := [QResource ''r1'']\<rparr>) ''r1'' = None"
    by (simp add: sql_ops_def sql_find_by_resource_def query_row_def sql_answers_def)
  then have "correlate sql_ops (settled\<lparr>sql_lost := [QResource ''r1'']\<rparr>) (payment_event ''e2'' ''payment.create'' ''t'' ''r1'') =
      New Payment (Some ''r1'') None"
    by (simp add: correlate_payment from_event_type_def starts_with_def)
  then have s: "s = sql_record_event ''e2'' ''lc_e2'' (sql_upsert lc2 (settled\<lparr>sql_lost := [QResource ''r1'']\<rparr>))"
    unfolding s_def lc2_def by (simp add: apply_event_def Let_def) (simp add: sql_ops_def)
  let ?t = "sql_upsert lc2 settled"
  have inv: "sql_inv ?t" using sql_inv_upsert [OF settled_ok(1)] .
  then have "sql_script ?t = []" "sql_lost ?t = []" by (simp_all add: sql_inv_def)
  then have "rows (s\<lparr>sql_lost := []\<rparr>) = rows ?t"
    using settled_quiet(1) by (simp add: s upsert_lost sql_record_event_def sql_next_def)
  then have get: "sql_get (s\<lparr>sql_lost := []\<rparr>) = sql_get ?t"
    using \<open>sql_lost ?t = []\<close> by (simp add: fun_eq_iff sql_get_def query_row_def sql_answers_def)
  have "clash lc2 (created_lifecycle (payment_event ''e1'' ''payment.settle'' ''t'' ''r1'') Payment (Some ''r1'') None 1)"
    by (simp add: clash_def lc2_def)
  from upsert_clashing [OF settled_ok(1) settled_get this]
  show "sql_get (s\<lparr>sql_lost := []\<rparr>) = [''lc_e2'' \<mapsto> lc2]" unfolding get by (simp add: lc2_def)
qed

end
