(* ===== verification/Lifecycle_Flaky.thy ===== *)
theory Lifecycle_Flaky
  imports Lifecycle_Faults
begin

text \<open>
  Closed lifecycles under failures and interleaving at once: a write that fails leaves the store as it was,
  a query that is not answered makes a task give up or create; and the process may die.  What a closed lifecycle
  has to fear are copies of it from before it closed, and events that create a lifecycle under its identifier or
  its keys, because a lookup was not answered (\<open>lost_query_erases_lifecycle\<close>) or the client used an
  identifier twice (\<open>reused_event_id_erases_lifecycle\<close>).  Without these it is safe.
\<close>

section \<open>Failures and interleaving\<close>

text \<open>The store without its failures.\<close>

definition calm :: "sqlite_store \<Rightarrow> sqlite_store" where
  "calm s = s\<lparr>sql_script := [], sql_lost := []\<rparr>"

lemma calm_eq: "calm s = calm s' \<longleftrightarrow> rows s = rows s' \<and> event_bindings s = event_bindings s'"
  by (cases s; cases s') (simp add: calm_def)

lemma calm_simps [simp]:
  "rows (calm s) = rows s" "event_bindings (calm s) = event_bindings s" "sql_script (calm s) = []" "sql_lost (calm s) = []"
  "calm (calm s) = calm s" "calm (s\<lparr>sql_script := scr, sql_lost := qs\<rparr>) = calm s"
  by (simp_all add: calm_def)

lemma calm_upsert: "calm (sql_upsert lc s) \<in> {calm s, sql_upsert lc (calm s)}"
proof -
  have "sql_upsert lc (calm s) = calm (upserted lc s)"
    by (cases s) (simp add: sql_upsert_quiet upserted_def calm_def)
  then show ?thesis using sql_upsert_atomic [of lc s] by (auto simp: calm_eq upserted_def)
qed

lemma calm_record: "calm (sql_record_event e i s) \<in> {calm s, sql_record_event e i (calm s)}"
  by (cases s) (simp add: calm_def sql_record_event_def sql_next_def sql_ok_def)

text \<open>An answered query is that of the calm store.\<close>

lemma query_row_calm: "query_row s q P \<in> {None, query_row (calm s) q P}"
  by (simp add: query_row_def sql_answers_def)

lemma get_calm: "sql_get s i \<in> {None, sql_get (calm s) i}"
  using query_row_calm [of s "QGet i" "\<lambda>r. row_id r = i"] by (auto simp: sql_get_def opt_bind_def split: option.splits)

lemma open_calm: "sql_all_open s \<in> {[], sql_all_open (calm s)}"
  by (simp add: sql_all_open_def sql_answers_def)

lemma answered_calm:
  assumes "sql_lost s = []"
  shows "st_get sql_ops (calm s) = st_get sql_ops s" "find_by_business_key sql_ops (calm s) = find_by_business_key sql_ops s"
    "find_by_resource sql_ops (calm s) = find_by_resource sql_ops s" "find_by_event sql_ops (calm s) = find_by_event sql_ops s"
  using assms
  by (simp_all add: fun_eq_iff sql_ops_def sql_get_def sql_find_by_business_key_def sql_find_by_resource_def
      sql_find_by_event_def query_row_def sql_answers_def)

lemma correlate_calm: "sql_lost s = [] \<Longrightarrow> correlate sql_ops (calm s) e = correlate sql_ops s e"
  unfolding correlate_def by (simp only: answered_calm)

text \<open>Everything may fail at any call, and the process may die.  \<open>adm\<close> restricts the events.\<close>

inductive flaky_step :: "(sqlite_store \<Rightarrow> event \<Rightarrow> bool) \<Rightarrow> sqlite_store race \<Rightarrow> sqlite_store race \<Rightarrow> bool" for adm where
  flaky_database: "flaky_step adm x (x\<lparr>rc_store := (rc_store x)\<lparr>sql_script := scr, sql_lost := qs\<rparr>\<rparr>)"
| flaky_call: "race_step sql_ops adm x y \<Longrightarrow> flaky_step adm x y"
| flaky_death: "flaky_step adm x (race_start (rc_store x))"

lemma flaky_relax: "flaky_step adm x y \<Longrightarrow> (\<And>s e. adm s e \<Longrightarrow> adm' s e) \<Longrightarrow> flaky_step adm' x y"
  by (induction rule: flaky_step.induct) (auto elim!: race_stepE intro: flaky_step.intros race_step.intros)

text \<open>With any events at all the table stays typed.\<close>

lemma flaky_typed: "flaky_step adm x y \<Longrightarrow> race_typed x \<Longrightarrow> race_typed y"
proof (induction rule: flaky_step.induct)
  case (flaky_call x y)
  then have "race_step sql_ops (\<lambda>_ _. True) x y" by (auto elim!: race_stepE intro: race_step.intros)
  then show ?case using flaky_call(2) by (rule typed_step [OF faulty_call])
qed (simp_all add: race_typed_def race_start_def)

lemma flaky_run_typed: "(flaky_step adm)\<^sup>*\<^sup>* x y \<Longrightarrow> race_typed x \<Longrightarrow> race_typed y"
  by (induction rule: rtranclp_induct) (auto intro: flaky_typed)

lemma typed_start: "race_typed (race_start sql_open_in_memory)"
  by (simp add: race_typed_def race_start_def table_typed_new)

section \<open>What is stored\<close>

lemma sql_inv_calm: "sql_inv s \<Longrightarrow> calm s = s"
  by (cases s) (simp add: sql_inv_def calm_def)

lemma typed_calm: "table_typed s \<Longrightarrow> sql_inv (calm s)"
  by (rule typed_quiet_inv) (simp_all add: table_typed_def)

lemma stored_iff: "table_typed s \<Longrightarrow> sql_get (calm s) i = Some lc \<longleftrightarrow> lc_id lc = i \<and> row_of lc \<in> set (rows s)"
  using sql_get_iff [OF typed_calm, of s i lc] by simp

text \<open>A lifecycle that is written displaces the one with its identifier and those with its keys.\<close>

definition displaces :: "lifecycle \<Rightarrow> lifecycle \<Rightarrow> bool" where
  "displaces v lc \<longleftrightarrow> lc_id v = lc_id lc \<or> clash v lc"

lemma displaces_same_keys: "same_keys a b \<Longrightarrow> displaces a l = displaces b l" "same_keys a b \<Longrightarrow> displaces l a = displaces l b"
  using clash_same_keys [of a b] clash_sym [of l] by (auto simp: displaces_def same_keys_def)

text \<open>The stored ones do not displace each other.\<close>

lemma stored_apart:
  assumes "table_typed s" "sql_get (calm s) i = Some lc" "sql_get (calm s) j = Some l" "l \<noteq> lc"
  shows "\<not> displaces l lc"
proof
  assume "displaces l lc"
  then have c: "row_conflict (row_of l) (row_of lc)" by (simp add: row_conflict_row_of displaces_def)
  have "row_of l \<in> set (rows s)" "row_of lc \<in> set (rows s)" "row_of l \<noteq> row_of lc" "conflict_free (rows s)"
    using assms stored_iff [OF assms(1)] by (simp_all add: table_typed_def)
  then obtain m n where "rows s ! m = row_of l" "rows s ! n = row_of lc" "m < length (rows s)" "n < length (rows s)" "m \<noteq> n"
    by (metis in_set_conv_nth)
  with \<open>conflict_free (rows s)\<close> c row_conflict_sym show False
    unfolding conflict_free_def sorted_wrt_iff_nth_less by (cases m n rule: linorder_cases) metis+
qed

lemma stored_upsert:
  assumes "table_typed s" "sql_get (calm s) i = Some lc"
  shows "\<not> displaces v lc \<Longrightarrow> sql_get (calm (sql_upsert v s)) i = Some lc"
    and "lc_id v = i \<Longrightarrow> sql_get (calm (sql_upsert v s)) i \<in> {Some lc, Some v}"
proof -
  have inv: "sql_inv (calm s)" by (rule typed_calm [OF assms(1)])
  note get = sql_get_iff [OF sql_inv_upsert [OF inv]] sql_rows_upsert [OF inv] sql_get_iff [OF inv]
  have "\<not> displaces v lc \<Longrightarrow> sql_get (sql_upsert v (calm s)) i = Some lc"
    using assms(2) by (auto simp: get displaces_def)
  then show "\<not> displaces v lc \<Longrightarrow> sql_get (calm (sql_upsert v s)) i = Some lc"
    using calm_upsert [of v s] assms(2) sql_inv_calm [OF sql_inv_upsert [OF inv], of v] by auto
  have "lc_id v = i \<Longrightarrow> sql_get (sql_upsert v (calm s)) i = Some v" by (simp add: get)
  then show "lc_id v = i \<Longrightarrow> sql_get (calm (sql_upsert v s)) i \<in> {Some lc, Some v}"
    using calm_upsert [of v s] assms(2) sql_inv_calm [OF sql_inv_upsert [OF inv], of v] by auto
qed

lemma stored_record: "sql_get (calm (sql_record_event e j s)) i = sql_get (calm s) i"
  by (simp add: sql_get_def query_row_def sql_answers_def sql_record_event_def sql_next_def calm_def)

section \<open>Closed lifecycles\<close>

text \<open>Somebody holds a copy that would displace the stored lifecycle and is not it, or is about to create one that
  would.\<close>

definition outdated_copy :: "lifecycle \<Rightarrow> lifecycle \<Rightarrow> bool" where
  "outdated_copy l lc \<longleftrightarrow> l \<noteq> lc \<and> displaces l lc"

fun apply_menaces :: "apply_phase \<Rightarrow> lifecycle \<Rightarrow> bool" where
  "apply_menaces (Holding e now i tier l) lc \<longleftrightarrow> outdated_copy l lc"
| "apply_menaces (Correlated e now (New t r k)) lc \<longleftrightarrow> displaces (created_lifecycle e t r k now) lc"
| "apply_menaces _ lc \<longleftrightarrow> False"

fun scan_menaces :: "scan \<Rightarrow> lifecycle \<Rightarrow> bool" where
  "scan_menaces (Some (now, ls)) lc \<longleftrightarrow> (\<exists>l \<in> set ls. outdated_copy l lc)"
| "scan_menaces None lc \<longleftrightarrow> False"

definition menaced :: "sqlite_store race \<Rightarrow> lifecycle \<Rightarrow> bool" where
  "menaced x lc \<longleftrightarrow> apply_menaces (rc_apply x) lc \<or> scan_menaces (rc_scan x) lc"

text \<open>An event spares a stored lifecycle unless it creates one that displaces it.\<close>

definition spares :: "string \<Rightarrow> sqlite_store \<Rightarrow> event \<Rightarrow> bool" where
  "spares i s e \<longleftrightarrow> (\<forall>t r k lc now. correlate sql_ops s e = New t r k \<longrightarrow> sql_get (calm s) i = Some lc \<longrightarrow>
     \<not> displaces (created_lifecycle e t r k now) lc)"

text \<open>An event whose lookups are answered, and which does not create a lifecycle under an identifier that has one,
  spares all of them.\<close>

definition fresh_answered :: "sqlite_store \<Rightarrow> event \<Rightarrow> bool" where
  "fresh_answered s e \<longleftrightarrow> sql_lost s = [] \<and> fresh_for sql_ops s e"

lemma fresh_answered_spares:
  assumes "fresh_answered s e" "sql_inv (calm s)"
  shows "spares i s e"
  unfolding spares_def
proof (intro allI impI)
  fix t r k lc now
  assume n: "correlate sql_ops s e = New t r k" and g: "sql_get (calm s) i = Some lc"
  have lost: "sql_lost s = []" and f: "fresh_for sql_ops s e" using assms(1) by (simp_all add: fresh_answered_def)
  have n': "correlate sql_ops (calm s) e = New t r k" using n by (simp add: correlate_calm [OF lost])
  have g': "st_get sql_ops (calm s) i = Some lc" using g by (simp add: sql_ops_def)
  have "st_get sql_ops s = st_get sql_ops (calm s)" using answered_calm(1) [OF lost] by simp
  then have "st_get sql_ops (calm s) (''lc_'' @ event_id e) = None" using f n by (simp add: fresh_for_def)
  then have "lc_id (created_lifecycle e t r k now) \<noteq> lc_id lc" using g' sql.get_id [OF assms(2) g'] by auto
  with sql.new_is_unclaimed [OF assms(2) n' g'] show "\<not> displaces (created_lifecycle e t r k now) lc"
    by (simp add: displaces_def)
qed

text \<open>The stored lifecycle, closed, and nobody about to displace it.\<close>

definition safe_at :: "string \<Rightarrow> lifecycle \<Rightarrow> sqlite_store race \<Rightarrow> bool" where
  "safe_at i lc x \<longleftrightarrow> sql_get (calm (rc_store x)) i = Some lc \<and> is_closed (lc_closure lc) \<and> \<not> menaced x lc"

lemma safe_atI:
  "sql_get (calm s) i = Some lc \<Longrightarrow> is_closed (lc_closure lc) \<Longrightarrow> \<not> apply_menaces a lc \<Longrightarrow> \<not> scan_menaces c lc \<Longrightarrow>
   safe_at i lc (at_grain s a c)"
  by (simp add: safe_at_def menaced_def)

lemma read_is_stored: "sql_get s j = Some l \<Longrightarrow> sql_get (calm s) j = Some l"
  using get_calm [of s j] by auto

lemma open_is_stored:
  assumes "table_typed s" "l \<in> set (sql_all_open s)"
  shows "\<exists>j. sql_get (calm s) j = Some l" "lc_closure l = Open"
proof -
  have "l \<in> set (sql_all_open (calm s))" using assms(2) open_calm [of s] by auto
  with sql_open_set(1) [OF typed_calm [OF assms(1)]] show "\<exists>j. sql_get (calm s) j = Some l" "lc_closure l = Open" by auto
qed

lemma closed_not_open: "is_closed (lc_closure lc) \<Longrightarrow> lc_closure l = Open \<Longrightarrow> l \<noteq> lc"
  by (auto simp: is_closed_def)

lemma safe_apply:
  assumes t: "table_typed s" "scan_typed c" and safe: "safe_at i lc (at_grain s a c)"
    and n: "apply_next sql_ops a s = (a', s')"
  shows "\<exists>late. safe_at i (lc\<lparr>late_events := late_events lc @ late\<rparr>) (at_grain s' a' c)"
proof -
  have g: "sql_get (calm s) i = Some lc" and cl: "is_closed (lc_closure lc)"
    and m: "\<not> apply_menaces a lc" "\<not> scan_menaces c lc" using safe by (simp_all add: safe_at_def menaced_def)
  have same: "\<exists>late. safe_at i (lc\<lparr>late_events := late_events lc @ late\<rparr>) (at_grain s' a' c)"
    if "sql_get (calm s') i = Some lc" "\<not> apply_menaces a' lc"
    using safe_atI [OF that(1) cl that(2) m(2)] by (intro exI [of _ "[]"]) simp
  show ?thesis
  proof (cases "(sql_ops, a, s)" rule: apply_next.cases)
    case (2 _ e now j tier)
    show ?thesis
    proof (cases "sql_get s j")
      case None
      then show ?thesis using 2 n g by (intro same) (auto simp: sql_ops_def)
    next
      case (Some l)
      then have "a' = Holding e now j tier l" "s' = s" using 2 n by (auto simp: sql_ops_def)
      moreover have "\<not> outdated_copy l lc"
        using stored_apart [OF t(1) g read_is_stored [OF Some]] by (auto simp: outdated_copy_def)
      ultimately show ?thesis using g by (intro same) simp_all
    qed
  next
    case (3 _ e now ty r k)
    then show ?thesis using n m(1) stored_upsert(1) [OF t(1) g] by (intro same) (auto simp: Let_def sql_ops_def)
  next
    case (5 _ e now j tier l)
    define v where "v = (if is_closed (lc_closure l) then late_version l e now else updated_version l e tier now)"
    have s': "s' = sql_upsert v s" "\<not> apply_menaces a' b" for b using 5 n by (auto simp: v_def sql_ops_def split: if_splits)
    have v: "same_keys v l" by (simp add: v_def)
    show ?thesis
    proof (cases "l = lc")
      case False
      then have "\<not> displaces v lc" using m(1) 5 displaces_same_keys(1) [OF v] by (simp add: outdated_copy_def)
      then show ?thesis using s' stored_upsert(1) [OF t(1) g] by (intro same) simp_all
    next
      case True
      then have v': "v = late_version lc e now" using cl by (simp add: v_def)
      have "lc_id v = i" using v True g stored_iff [OF t(1)] by (simp add: same_keys_def)
      from stored_upsert(2) [OF t(1) g this] show ?thesis
      proof (elim insertE emptyE)
        assume "sql_get (calm (sql_upsert v s)) i = Some lc"
        then show ?thesis using s' by (intro same) simp_all
      next
        assume g': "sql_get (calm (sql_upsert v s)) i = Some v"
        have "\<not> outdated_copy l' v" if c: "c = Some (u, ls)" and l': "l' \<in> set ls" for u ls l'
        proof -
          have "\<not> outdated_copy l' lc" "lc_closure l' = Open" using m(2) t(2) l' by (auto simp: c)
          then have "\<not> displaces l' lc" using closed_not_open [OF cl] by (auto simp: outdated_copy_def)
          then show ?thesis using displaces_same_keys(2) [OF v] True by (simp add: outdated_copy_def)
        qed
        then have "\<not> scan_menaces c v" by (cases "(c, v)" rule: scan_menaces.cases) auto
        moreover obtain late where late: "v = lc\<lparr>late_events := late_events lc @ late\<rparr>"
          by (auto simp: v' late_version_def)
        ultimately show ?thesis using g' s' cl by (intro exI [of _ late]) (simp add: safe_at_def menaced_def)
      qed
    qed
  next
    case (6 _ e j)
    then show ?thesis using n g by (intro same) (auto simp: sql_ops_def stored_record)
  qed (use n g in \<open>intro same; simp\<close>)+
qed

lemma safe_scan:
  assumes t: "table_typed s" "scan_typed c" and safe: "safe_at i lc (at_grain s a c)"
    and n: "scan_next sql_ops c s = (c', s')"
  shows "safe_at i lc (at_grain s' a c')"
proof -
  have g: "sql_get (calm s) i = Some lc" and cl: "is_closed (lc_closure lc)"
    and m: "\<not> apply_menaces a lc" "\<not> scan_menaces c lc" using safe by (simp_all add: safe_at_def menaced_def)
  show ?thesis
  proof (cases "(sql_ops, c, s)" rule: scan_next.cases)
    case (3 _ now l ls)
    have "\<not> displaces l lc" using m(2) 3 t(2) closed_not_open [OF cl] by (auto simp: outdated_copy_def)
    then have "\<not> displaces (timed_out now l) lc" using displaces_same_keys(1) [of "timed_out now l" l] by simp
    then have "sql_get (calm s') i = Some lc" using n 3 g stored_upsert(1) [OF t(1) g] by (auto simp: sql_ops_def)
    then show ?thesis using n 3 m cl by (intro safe_atI) auto
  qed (use n g cl m in \<open>intro safe_atI; simp\<close>)+
qed

lemma flaky_step_safe:
  assumes s: "flaky_step (spares i) x y" and t: "race_typed x" and safe: "safe_at i lc x"
  shows "\<exists>late. safe_at i (lc\<lparr>late_events := late_events lc @ late\<rparr>) y"
proof -
  have same: "\<exists>late. safe_at i (lc\<lparr>late_events := late_events lc @ late\<rparr>) y" if "safe_at i lc y"
    using that by (intro exI [of _ "[]"]) simp
  have t': "table_typed (rc_store x)" "scan_typed (rc_scan x)" using t by (simp_all add: race_typed_def)
  have safe': "safe_at i lc (at_grain (rc_store x) (rc_apply x) (rc_scan x))" using safe by (simp add: safe_at_def menaced_def)
  have g: "sql_get (calm (rc_store x)) i = Some lc" and cl: "is_closed (lc_closure lc)" and m: "\<not> menaced x lc"
    using safe by (simp_all add: safe_at_def)
  from s show ?thesis
  proof cases
    case (flaky_database scr qs)
    then show ?thesis using safe by (intro same) (simp add: safe_at_def menaced_def)
  next
    case flaky_death
    then show ?thesis using safe by (intro same) (simp add: safe_at_def menaced_def race_start_def)
  next
    case flaky_call
    then show ?thesis
    proof cases
      case (race_event e now)
      have "\<not> apply_menaces (apply_begin sql_ops e now (rc_store x)) lc"
        using race_event(3) g by (cases "correlate sql_ops (rc_store x) e") (auto simp: apply_begin_def spares_def)
      then show ?thesis using race_event(1) g cl m by (intro same) (simp add: safe_at_def menaced_def)
    next
      case (race_apply a s)
      from safe_apply [OF t' safe' race_apply(2)] show ?thesis using race_apply(1) by (simp add: safe_at_def menaced_def)
    next
      case (race_tick now)
      have "\<not> outdated_copy l lc" if "l \<in> set (sql_all_open (rc_store x))" for l
        using open_is_stored [OF t'(1) that] stored_apart [OF t'(1) g] by (auto simp: outdated_copy_def)
      then show ?thesis using race_tick(1) g cl m
        by (intro same) (auto simp: safe_at_def menaced_def scan_begin_def sql_ops_def)
    next
      case (race_scan c s)
      from safe_scan [OF t' safe' race_scan(2)] show ?thesis using race_scan(1) by (intro same) (simp add: safe_at_def menaced_def)
    qed
  qed
qed

lemma flaky_run_safe:
  assumes "(flaky_step (spares i))\<^sup>*\<^sup>* x y" "race_typed x" "safe_at i lc x"
  shows "\<exists>late. safe_at i (lc\<lparr>late_events := late_events lc @ late\<rparr>) y"
  using assms(1)
proof (induction rule: rtranclp_induct)
  case base
  then show ?case using assms(3) by (intro exI [of _ "[]"]) simp
next
  case (step y z)
  then obtain late where "safe_at i (lc\<lparr>late_events := late_events lc @ late\<rparr>) y" by blast
  from flaky_step_safe [OF step.hyps(2) flaky_run_typed [OF step.hyps(1) assms(2)] this] show ?case by auto
qed

text \<open>Claim C4 (closed unless menaced): however the calls of the engine and of the scanner interleave, whichever of
  their statements and queries fail, and whatever the events are, every stored lifecycle stays consistent.  A closed one stays as it is but
  for its late events from a moment on at which no task holds an outdated copy of it, as long as no event
  creates another lifecycle under its identifier or its keys; an event does that only when one of its lookups
  is not answered or when it reuses the identifier of an event (\<open>fresh_answered_spares\<close>).\<close>

theorem closed_unless_outdated:
  assumes "(flaky_step (\<lambda>_ _. True))\<^sup>*\<^sup>* (race_start sql_open_in_memory) x" "(flaky_step (spares i))\<^sup>*\<^sup>* x y"
    and "sql_get (calm (rc_store x)) i = Some lc" "is_closed (lc_closure lc)" "\<not> menaced x lc"
  shows "(\<forall>j l. sql_get (calm (rc_store y)) j = Some l \<longrightarrow> lifecycle_ok l) \<and>
    (\<exists>late. sql_get (calm (rc_store y)) i = Some (lc\<lparr>late_events := late_events lc @ late\<rparr>))"
proof -
  have x: "race_typed x" by (rule flaky_run_typed [OF assms(1) typed_start])
  have "table_typed (calm (rc_store y))"
    using flaky_run_typed [OF assms(2) x] by (simp add: race_typed_def table_typed_def)
  then have "\<forall>j l. sql_get (calm (rc_store y)) j = Some l \<longrightarrow> lifecycle_ok l" using typed_get by blast
  moreover have "safe_at i lc x" using assms(3-5) by (simp add: safe_at_def)
  ultimately show ?thesis using flaky_run_safe [OF assms(2) x, of lc] by (auto simp: safe_at_def)
qed

lemma flaky_races:
  assumes "sql_race\<^sup>*\<^sup>* x y" "sql_inv (rc_store x)"
  shows "(flaky_step fresh_answered)\<^sup>*\<^sup>* x y \<and> sql_inv (rc_store y)"
  using assms(1)
proof (induction rule: rtranclp_induct)
  case (step y z)
  have "sql_lost (rc_store y) = []" using step.IH by (simp add: sql_inv_def)
  with step.hyps(2) have "flaky_step fresh_answered y z"
    by (intro flaky_call) (auto elim!: race_stepE intro: race_step.intros simp: fresh_answered_def)
  moreover have "sql_inv (rc_store z)" using step.hyps(2)
  proof cases
    case (race_apply a s)
    have "sql_inv s" using race_apply(2) step.IH sql.inv_upsert sql.inv_record
      by (cases "(sql_ops, rc_apply y, rc_store y)" rule: apply_next.cases) (auto simp: Let_def split: option.splits if_splits)
    then show ?thesis using race_apply by simp
  next
    case (race_scan c s)
    have "sql_inv s" using race_scan(2) step.IH sql.inv_upsert
      by (cases "(sql_ops, rc_scan y, rc_store y)" rule: scan_next.cases) (auto split: if_splits)
    then show ?thesis using race_scan by simp
  qed (use step.IH in simp_all)
  ultimately show ?case using step.IH by auto
qed (use assms(2) in simp)

lemma flaky_run_relax:
  "(flaky_step adm)\<^sup>*\<^sup>* x y \<Longrightarrow> race_typed x \<Longrightarrow> (\<And>s e. table_typed s \<Longrightarrow> adm s e \<Longrightarrow> adm' s e) \<Longrightarrow> (flaky_step adm')\<^sup>*\<^sup>* x y"
proof (induction rule: rtranclp_induct)
  case (step y z)
  have "table_typed (rc_store y)" using flaky_run_typed [OF step.hyps(1) step.prems(1)] by (simp add: race_typed_def)
  with step.hyps(2) step.prems(2) have "flaky_step adm' y z"
    by (auto elim!: race_stepE flaky_step.cases intro: flaky_step.intros race_step.intros)
  with step.IH step.prems show ?case by (meson rtranclp.rtrancl_into_rtrancl)
qed simp

text \<open>A payment settles and is retried.\<close>

theorem closed_unless_outdated_witness:
  "\<exists>lc late. is_closed (lc_closure lc) \<and> sql_get settled ''lc_e1'' = Some lc \<and>
     sql_get (sql_upsert (late_version lc (payment_event ''e2'' ''payment.retry'' ''t'' ''r1'') 2) settled) ''lc_e1'' =
       Some (lc\<lparr>late_events := late_events lc @ late\<rparr>)"
proof -
  let ?lc = "created_lifecycle (payment_event ''e1'' ''payment.settle'' ''t'' ''r1'') Payment (Some ''r1'') None 1"
  let ?e = "payment_event ''e2'' ''payment.retry'' ''t'' ''r1''"
  let ?t = "sql_upsert (late_version ?lc ?e 2) settled"
  have lc: "sql_get settled ''lc_e1'' = Some ?lc" "is_closed (lc_closure ?lc)"
    by (simp_all add: settled_get created_lifecycle_def or_else_def is_closed_def)
  have "sql_race\<^sup>*\<^sup>* (at_grain settled Idle None) (at_grain settled (Holding ?e 2 ''lc_e1'' TierResourceId ?lc) None)"
    by (rule grain_hold [OF settled_find lc(1)])
  moreover have "sql_race (at_grain settled (Holding ?e 2 ''lc_e1'' TierResourceId ?lc) None) (at_grain ?t Idle None)"
    by (rule grain_apply) (use lc(2) in \<open>simp add: sql_ops_def\<close>)
  ultimately have late: "sql_race\<^sup>*\<^sup>* (at_grain settled Idle None) (at_grain ?t Idle None)" by simp
  have "(flaky_step fresh_answered)\<^sup>*\<^sup>* (race_start sql_open_in_memory) (at_grain settled Idle None)"
    using flaky_races [OF settled_at_grain] sql_inv_new by (simp add: race_start_def)
  then have 1: "(flaky_step (\<lambda>_ _. True))\<^sup>*\<^sup>* (race_start sql_open_in_memory) (at_grain settled Idle None)"
    by (rule flaky_run_relax [OF _ typed_start]) simp
  have typed: "race_typed (at_grain settled Idle None)" by (rule flaky_run_typed [OF 1 typed_start])
  have "(flaky_step fresh_answered)\<^sup>*\<^sup>* (at_grain settled Idle None) (at_grain ?t Idle None)" and inv: "sql_inv ?t"
    using flaky_races [OF late] settled_ok(1) by simp_all
  from flaky_run_relax [OF this(1) typed, of "spares ''lc_e1''"]
  have 2: "(flaky_step (spares ''lc_e1''))\<^sup>*\<^sup>* (at_grain settled Idle None) (at_grain ?t Idle None)"
    using fresh_answered_spares typed_calm by blast
  from closed_unless_outdated [OF 1 2, of ?lc] lc sql_inv_calm [OF settled_ok(1)] sql_inv_calm [OF inv]
  show ?thesis by (auto simp: menaced_def)
qed

section \<open>At the grain of calls\<close>

lemma flaky_faults: "flaky_step adm (at_grain s a c) (at_grain (s\<lparr>sql_script := scr, sql_lost := qs\<rparr>) a c)"
  using flaky_database [where x = "at_grain s a c" and scr = scr and qs = qs] by simp

lemma flaky_event: "adm s e \<Longrightarrow> flaky_step adm (at_grain s Idle c) (at_grain s (apply_begin sql_ops e now s) c)"
  using race_event [of "at_grain s Idle c" adm e sql_ops now] by (intro flaky_call) simp

lemma flaky_apply: "apply_next sql_ops a s = (a', s') \<Longrightarrow> flaky_step adm (at_grain s a c) (at_grain s' a' c)"
  using race_apply [of sql_ops "at_grain s a c" a' s'] by (intro flaky_call) simp

lemma flaky_tick: "flaky_step adm (at_grain s a None) (at_grain s a (scan_begin sql_ops now s))"
  using race_tick [of "at_grain s a None" sql_ops adm now] by (intro flaky_call) simp

lemma flaky_scan: "scan_next sql_ops c s = (c', s') \<Longrightarrow> flaky_step adm (at_grain s a c) (at_grain s' a c')"
  using race_scan [of sql_ops "at_grain s a c" c' s'] by (intro flaky_call) simp

end
