(* ===== verification/Trackers.thy ===== *)
theory Trackers
  imports Prelude "HOL-Library.List_Lexorder" "HOL-Library.Char_ord"
begin

text \<open>
  \<^verbatim>\<open>daemon/crates/athar-detection/src/trackers.rs\<close>: the rolling-window trackers, bounded in the
  number of subjects by evicting the least recently active one.  A \<open>HashMap\<close> is an
  association list whose order is not relied on, a \<open>BTreeMap\<close> one sorted by key, a \<open>VecDeque\<close>
  a list with its front first.  Both trackers share the table of subjects, \<open>subject_table\<close>.
\<close>

record velocity_config =
  v_window_ms :: u64
  v_threshold :: u32
  v_max_subjects :: nat

definition velocity_config_default :: velocity_config where
  "velocity_config_default = \<lparr>v_window_ms = 60000, v_threshold = 10, v_max_subjects = 10000\<rparr>"

record velocity_tracker =
  v_config :: velocity_config
  v_windows :: "(string \<times> u64 list) list"
  v_lru :: "string list"
  v_at_capacity_reported :: bool

definition velocity_new :: "velocity_config \<Rightarrow> velocity_tracker" where
  "velocity_new c = \<lparr>v_config = c, v_windows = [], v_lru = [], v_at_capacity_reported = False\<rparr>"

definition v_subject_count :: "velocity_tracker \<Rightarrow> nat" where
  "v_subject_count t = length (v_windows t)"

definition v_is_at_capacity :: "velocity_tracker \<Rightarrow> bool" where
  "v_is_at_capacity t \<longleftrightarrow> v_max_subjects (v_config t) \<le> length (v_windows t)"

text \<open>The eviction that makes room for a new subject.\<close>

definition v_evict :: "string \<Rightarrow> velocity_tracker \<Rightarrow> velocity_tracker" where
  "v_evict subject t =
     (if map_of (v_windows t) subject = None \<and> v_max_subjects (v_config t) \<le> length (v_windows t)
      then (case v_lru t of
              [] \<Rightarrow> t\<lparr>v_at_capacity_reported := True\<rparr>
            | e # r \<Rightarrow> t\<lparr>v_lru := r, v_windows := al_del e (v_windows t), v_at_capacity_reported := True\<rparr>)
      else t)"

definition v_observe :: "string \<Rightarrow> u64 \<Rightarrow> velocity_tracker \<Rightarrow> u32 option \<times> velocity_tracker" where
  "v_observe subject now t =
     (let t = v_evict subject t;
          window = (case map_of (v_windows t) subject of None \<Rightarrow> [] | Some w \<Rightarrow> w);
          cutoff = sat_sub now (v_window_ms (v_config t));
          window = dropWhile (\<lambda>x. x < cutoff) window @ [now];
          count = of_nat (length window) :: u32;
          t = t\<lparr>v_windows := al_upd subject window (v_windows t),
                v_lru := filter (\<lambda>s. s \<noteq> subject) (v_lru t) @ [subject]\<rparr>
      in (if v_threshold (v_config t) < count then Some count else None, t))"

section \<open>Distinct targets\<close>

record target_config =
  t_window_ms :: u64
  t_threshold :: u32
  t_max_subjects :: nat
  t_max_targets_per_subject :: nat

definition target_config_default :: target_config where
  "target_config_default = \<lparr>t_window_ms = 60 * 60 * 1000, t_threshold = 5, t_max_subjects = 10000,
     t_max_targets_per_subject = 1024\<rparr>"

record target_tracker =
  t_config :: target_config
  t_windows :: "(string \<times> (string \<times> u64) list) list"
  t_lru :: "string list"
  t_subject_at_capacity_reported :: bool
  t_target_at_capacity_reported :: bool

definition target_new :: "target_config \<Rightarrow> target_tracker" where
  "target_new c = \<lparr>t_config = c, t_windows = [], t_lru = [], t_subject_at_capacity_reported = False,
     t_target_at_capacity_reported = False\<rparr>"

definition t_subject_count :: "target_tracker \<Rightarrow> nat" where
  "t_subject_count t = length (t_windows t)"

text \<open>\<open>BTreeMap::insert\<close>, and \<open>iter().min_by_key(ts)\<close>: the first of the minimal entries.\<close>

fun bt_insert :: "string \<Rightarrow> u64 \<Rightarrow> (string \<times> u64) list \<Rightarrow> (string \<times> u64) list" where
  "bt_insert k v [] = [(k, v)]"
| "bt_insert k v ((a, b) # r) =
     (if k = a then (k, v) # r else if k < a then (k, v) # (a, b) # r else (a, b) # bt_insert k v r)"

fun min_by_ts :: "(string \<times> u64) list \<Rightarrow> (string \<times> u64) option" where
  "min_by_ts [] = None"
| "min_by_ts (x # r) = (case min_by_ts r of
      None \<Rightarrow> Some x | Some y \<Rightarrow> Some (if snd x \<le> snd y then x else y))"

definition t_evict :: "string \<Rightarrow> target_tracker \<Rightarrow> target_tracker" where
  "t_evict subject t =
     (if map_of (t_windows t) subject = None \<and> t_max_subjects (t_config t) \<le> length (t_windows t)
      then (case t_lru t of
              [] \<Rightarrow> t\<lparr>t_subject_at_capacity_reported := True\<rparr>
            | e # r \<Rightarrow> t\<lparr>t_lru := r, t_windows := al_del e (t_windows t),
                         t_subject_at_capacity_reported := True\<rparr>)
      else t)"

definition t_observe :: "string \<Rightarrow> string \<Rightarrow> u64 \<Rightarrow> target_tracker \<Rightarrow> u32 option \<times> target_tracker" where
  "t_observe subject target now t =
     (let t = t_evict subject t;
          cutoff = sat_sub now (t_window_ms (t_config t));
          entry = filter (\<lambda>(_, ts). cutoff \<le> ts)
            (case map_of (t_windows t) subject of None \<Rightarrow> [] | Some m \<Rightarrow> m);
          full = t_max_targets_per_subject (t_config t) \<le> length entry \<and> map_of entry target = None;
          entry = (if full then (case min_by_ts entry of None \<Rightarrow> entry | Some (k, _) \<Rightarrow> al_del k entry) else entry);
          entry = bt_insert target now entry;
          count = of_nat (length entry) :: u32;
          t = t\<lparr>t_target_at_capacity_reported := (t_target_at_capacity_reported t \<or> full),
                t_windows := al_upd subject entry (t_windows t),
                t_lru := filter (\<lambda>s. s \<noteq> subject) (t_lru t) @ [subject]\<rparr>
      in (if t_threshold (t_config t) < count then Some count else None, t))"

section \<open>The table of subjects\<close>

text \<open>What both trackers promise of the subjects they hold: an observation makes room if the
  subject is new and the table full, and puts the subject last in the order of activity.\<close>

definition make_room :: "nat \<Rightarrow> string \<Rightarrow> string list \<Rightarrow> string list" where
  "make_room cap x l = (if x \<notin> set l \<and> cap \<le> length l then tl l else l)"

definition touch :: "nat \<Rightarrow> string \<Rightarrow> string list \<Rightarrow> string list" where
  "touch cap x l = filter (\<lambda>s. s \<noteq> x) (make_room cap x l) @ [x]"

locale subject_table =
  fixes subjects :: "'t \<Rightarrow> string list" and held :: "'t \<Rightarrow> string set" and cap :: "'t \<Rightarrow> nat"
    and observe :: "string \<Rightarrow> 'i \<Rightarrow> 't \<Rightarrow> 't" and ok :: "'t \<Rightarrow> bool"
  assumes ok_observe: "ok t \<Longrightarrow> ok (observe x i t)"
    and held_subjects: "ok t \<Longrightarrow> held t = set (subjects t)"
    and distinct_subjects: "ok t \<Longrightarrow> distinct (subjects t)"
    and cap_observe: "cap (observe x i t) = cap t"
    and subjects_observe: "ok t \<Longrightarrow> subjects (observe x i t) = touch (cap t) x (subjects t)"

text \<open>The subjects of a history in the order of their last activity.\<close>

definition recency :: "string list \<Rightarrow> string list" where
  "recency xs = remdups xs"

definition last_n :: "nat \<Rightarrow> 'a list \<Rightarrow> 'a list" where
  "last_n n xs = drop (length xs - n) xs"

lemma recency_snoc: "recency (xs @ [x]) = filter (\<lambda>s. s \<noteq> x) (recency xs) @ [x]"
  by (induction xs) (auto simp: recency_def)

lemma recency_Nil [simp]: "recency [] = []"
  by (simp add: recency_def)

lemma distinct_recency [simp]: "distinct (recency xs)" "set (recency xs) = set xs"
  by (simp_all add: recency_def)

lemma last_n_snoc: "0 < n \<Longrightarrow> last_n n (xs @ [x]) = last_n (n - 1) xs @ [x]"
  by (simp add: last_n_def)

text \<open>Dropping an element that is not among the last \<open>n\<close> does not change the last \<open>n\<close>.\<close>

lemma last_n_filter_notin:
  assumes "x \<notin> set (last_n n xs)"
  shows "last_n n (filter (\<lambda>s. s \<noteq> x) xs) = last_n n xs"
proof -
  let ?a = "take (length xs - n) xs" and ?b = "last_n n xs"
  have xs: "xs = ?a @ ?b" by (simp add: last_n_def)
  have "filter (\<lambda>s. s \<noteq> x) ?b = ?b" using assms by (auto intro!: filter_True)
  then have "filter (\<lambda>s. s \<noteq> x) xs = filter (\<lambda>s. s \<noteq> x) ?a @ ?b" by (subst xs) simp
  moreover have "length ?b = min n (length xs)" by (simp add: last_n_def)
  moreover have "length xs < n \<Longrightarrow> ?a = []" by simp
  ultimately show ?thesis by (cases "length xs < n") (auto simp: last_n_def)
qed

lemma touch_recency:
  assumes "k = max 1 cap" "l = last_n k (recency xs)"
  shows "touch cap x l = last_n k (recency (xs @ [x]))"
proof -
  let ?r = "recency xs"
  have k: "0 < k" using assms(1) by simp
  have goal: "last_n k (recency (xs @ [x])) = last_n (k - 1) (filter (\<lambda>s. s \<noteq> x) ?r) @ [x]"
    using k by (simp add: recency_snoc last_n_snoc)
  have len: "length l = min k (length ?r)" using assms(2) by (simp add: last_n_def)
  have split: "?r = take (length ?r - k) ?r @ l" using assms(2) by (simp add: last_n_def)
  have d: "distinct ?r" by simp
  show ?thesis
  proof (cases "x \<in> set l")
    case True
    then have nt: "x \<notin> set (take (length ?r - k) ?r)"
      using d by (subst (asm) split) auto
    have one: "length (filter (\<lambda>s. s \<noteq> x) l) = length l - 1"
    proof -
      have "distinct l" using d by (subst (asm) split) simp
      then have "length (filter (\<lambda>s. s \<noteq> x) l) = card (set l - {x})"
        by (metis distinct_card distinct_filter set_minus_filter_out)
      with True \<open>distinct l\<close> show ?thesis by (simp add: distinct_card)
    qed
    have "filter (\<lambda>s. s \<noteq> x) ?r = take (length ?r - k) ?r @ filter (\<lambda>s. s \<noteq> x) l"
      using nt by (subst split) (auto intro!: filter_True)
    then have "last_n (k - 1) (filter (\<lambda>s. s \<noteq> x) ?r) = filter (\<lambda>s. s \<noteq> x) l"
      using one len True k by (cases "k \<le> length ?r") (auto simp: last_n_def)
    with True show ?thesis by (simp add: touch_def make_room_def goal)
  next
    case False
    have fl: "filter (\<lambda>s. s \<noteq> x) l = l" "filter (\<lambda>s. s \<noteq> x) (tl l) = tl l"
      using False by (cases l; auto intro!: filter_True)+
    show ?thesis
    proof (cases "cap \<le> length l")
      case True
      have "x \<notin> set (last_n (k - 1) ?r)"
      proof -
        have "set (last_n (k - 1) ?r) \<subseteq> set l"
          using assms(2) by (auto simp: last_n_def intro: set_drop_subset_set_drop [THEN subsetD, rotated])
        with False show ?thesis by blast
      qed
      from last_n_filter_notin [OF this]
      have "last_n (k - 1) (filter (\<lambda>s. s \<noteq> x) ?r) = last_n (k - 1) ?r" .
      moreover have "tl l = last_n (k - 1) ?r"
      proof (cases "k \<le> length ?r")
        case True
        then have "Suc (length ?r - k) = length ?r - (k - 1)" using k by simp
        then show ?thesis using assms(2) by (simp add: last_n_def drop_Suc [symmetric] tl_drop)
      next
        case False
        then have "?r = []" using True len assms(1) by (auto simp: min_def max_def Suc_le_eq split: if_splits)
        then show ?thesis using assms(2) by (simp add: last_n_def)
      qed
      ultimately show ?thesis using True False fl by (simp add: touch_def make_room_def goal)
    next
      case small: False
      then have "length ?r < k" using len assms(1) by simp
      then have "l = ?r" "last_n (k - 1) (filter (\<lambda>s. s \<noteq> x) ?r) = filter (\<lambda>s. s \<noteq> x) ?r"
        using assms(2) le_trans [OF length_filter_le, of ?r "k - 1"] by (auto simp: last_n_def)
      then show ?thesis using small False fl by (simp add: touch_def make_room_def goal)
    qed
  qed
qed

context subject_table begin

definition run :: "(string \<times> 'i) list \<Rightarrow> 't \<Rightarrow> 't" where
  "run hs t = fold (\<lambda>(x, i). observe x i) hs t"

lemma run_snoc: "run (hs @ [(x, i)]) t = observe x i (run hs t)"
  by (simp add: run_def)

lemma run_ok: "ok t \<Longrightarrow> ok (run hs t) \<and> cap (run hs t) = cap t"
  by (induction hs rule: rev_induct) (auto simp: run_snoc ok_observe cap_observe run_def)

text \<open>The table holds the most recently active subjects, as many as fit and at least one.\<close>

lemma run_subjects:
  assumes "ok t" "subjects t = []"
  shows "subjects (run hs t) = last_n (max 1 (cap t)) (recency (map fst hs))"
proof (induction hs rule: rev_induct)
  case Nil
  then show ?case using assms by (simp add: run_def last_n_def)
next
  case (snoc h hs)
  obtain x i where h: "h = (x, i)" by (cases h)
  have "subjects (run (hs @ [h]) t) = touch (cap t) x (subjects (run hs t))"
    using run_ok [OF assms(1), of hs] by (simp add: h run_snoc subjects_observe)
  also have "\<dots> = last_n (max 1 (cap t)) (recency (map fst hs @ [x]))"
    by (rule touch_recency [OF refl snoc])
  finally show ?case by (simp add: h)
qed

lemma run_bounded:
  assumes "ok t" "subjects t = []"
  shows "finite (held (run hs t)) \<and> card (held (run hs t)) \<le> max 1 (cap t)"
proof -
  have "held (run hs t) = set (subjects (run hs t))"
    using run_ok [OF assms(1)] held_subjects by blast
  moreover have "length (subjects (run hs t)) \<le> max 1 (cap t)"
    unfolding run_subjects [OF assms] by (simp add: last_n_def)
  ultimately show ?thesis using card_length le_trans by fastforce
qed

text \<open>As long as the subjects fit, an observation evicts nobody.\<close>

lemma run_all_held:
  assumes "ok t" "subjects t = []" "card (set (map fst hs)) \<le> cap t"
  shows "held (run hs t) = set (map fst hs)"
proof -
  have "length (recency (map fst hs)) = card (set (map fst hs))"
    using distinct_card [OF distinct_recency(1), of "map fst hs"] by simp
  then have "subjects (run hs t) = recency (map fst hs)"
    using assms(3) by (simp add: run_subjects [OF assms(1,2)] last_n_def)
  then show ?thesis using run_ok [OF assms(1), of hs] held_subjects by simp
qed

end

section \<open>Both trackers are such tables\<close>

definition table_ok :: "string list \<Rightarrow> string list \<Rightarrow> bool" where
  "table_ok ks l \<longleftrightarrow> distinct ks \<and> distinct l \<and> set ks = set l"

lemma table_ok_iff: "table_ok (map fst m) l \<longleftrightarrow> distinct (map fst m) \<and> distinct l \<and> fst ` set m = set l"
  by (simp add: table_ok_def)

lemma table_ok_touch:
  "table_ok (map fst m) l \<Longrightarrow> table_ok (map fst (al_upd x w m)) (filter (\<lambda>s. s \<noteq> x) l @ [x])"
  by (auto simp: table_ok_iff keys_al_upd)

lemma table_ok_length: "table_ok ks l \<Longrightarrow> length ks = length l"
  unfolding table_ok_def by (metis distinct_card)

definition v_ok :: "velocity_tracker \<Rightarrow> bool" where
  "v_ok t \<longleftrightarrow> table_ok (map fst (v_windows t)) (v_lru t)"

lemma in_keys: "map_of m x = None \<longleftrightarrow> x \<notin> set (map fst m)"
  by (simp add: map_of_eq_None_iff)

lemma v_evict_table:
  assumes "v_ok t"
  shows "v_ok (v_evict x t)" "v_lru (v_evict x t) = make_room (v_max_subjects (v_config t)) x (v_lru t)"
    "v_config (v_evict x t) = v_config t"
proof -
  have k: "set (map fst (v_windows t)) = set (v_lru t)" "length (v_windows t) = length (v_lru t)"
    using assms table_ok_length [of "map fst (v_windows t)" "v_lru t"] by (auto simp: v_ok_def table_ok_def)
  show "v_ok (v_evict x t)"
    using assms by (auto simp: v_ok_def table_ok_iff v_evict_def keys_al_del split: list.split)
  show "v_lru (v_evict x t) = make_room (v_max_subjects (v_config t)) x (v_lru t)"
    using k by (auto simp: v_evict_def make_room_def in_keys simp del: set_map split: list.split)
  show "v_config (v_evict x t) = v_config t" by (auto simp: v_evict_def split: list.split)
qed

lemma v_observe_table:
  assumes "v_ok t"
  shows "v_ok (snd (v_observe x i t))"
    "v_lru (snd (v_observe x i t)) = touch (v_max_subjects (v_config t)) x (v_lru t)"
  using v_evict_table [OF assms, of x]
  by (simp_all add: v_observe_def Let_def touch_def v_ok_def table_ok_touch)

lemma v_observe_config: "v_config (snd (v_observe x i t)) = v_config t"
  by (auto simp: v_observe_def Let_def v_evict_def split: list.split)

lemma v_okD: "v_ok t \<Longrightarrow> fst ` set (v_windows t) = set (v_lru t)" "v_ok t \<Longrightarrow> distinct (v_lru t)"
  by (simp_all add: v_ok_def table_ok_iff)

interpretation velocity: subject_table v_lru "\<lambda>t. fst ` set (v_windows t)"
  "\<lambda>t. v_max_subjects (v_config t)" "\<lambda>x i t. snd (v_observe x i t)" v_ok
  by unfold_locales
    (simp_all add: v_observe_table v_observe_config v_okD split: prod.splits)

definition t_ok :: "target_tracker \<Rightarrow> bool" where
  "t_ok t \<longleftrightarrow> table_ok (map fst (t_windows t)) (t_lru t)"

lemma t_evict_table:
  assumes "t_ok t"
  shows "t_ok (t_evict x t)" "t_lru (t_evict x t) = make_room (t_max_subjects (t_config t)) x (t_lru t)"
    "t_config (t_evict x t) = t_config t"
proof -
  have k: "set (map fst (t_windows t)) = set (t_lru t)" "length (t_windows t) = length (t_lru t)"
    using assms table_ok_length [of "map fst (t_windows t)" "t_lru t"] by (auto simp: t_ok_def table_ok_def)
  show "t_ok (t_evict x t)"
    using assms by (auto simp: t_ok_def table_ok_iff t_evict_def keys_al_del split: list.split)
  show "t_lru (t_evict x t) = make_room (t_max_subjects (t_config t)) x (t_lru t)"
    using k by (auto simp: t_evict_def make_room_def in_keys simp del: set_map split: list.split)
  show "t_config (t_evict x t) = t_config t" by (auto simp: t_evict_def split: list.split)
qed

lemma t_observe_table:
  assumes "t_ok t"
  shows "t_ok (snd (t_observe x y i t))"
    "t_lru (snd (t_observe x y i t)) = touch (t_max_subjects (t_config t)) x (t_lru t)"
  using t_evict_table [OF assms, of x]
  by (simp_all add: t_observe_def Let_def touch_def t_ok_def table_ok_touch)

lemma t_observe_config: "t_config (snd (t_observe x y i t)) = t_config t"
  by (auto simp: t_observe_def Let_def t_evict_def split: list.split)

lemma t_okD: "t_ok t \<Longrightarrow> fst ` set (t_windows t) = set (t_lru t)" "t_ok t \<Longrightarrow> distinct (t_lru t)"
  by (simp_all add: t_ok_def table_ok_iff)

interpretation targets: subject_table t_lru "\<lambda>t. fst ` set (t_windows t)"
  "\<lambda>t. t_max_subjects (t_config t)" "\<lambda>x (y, i) t. snd (t_observe x y i t)" t_ok
  by unfold_locales
    (simp_all add: t_observe_table t_observe_config t_okD split: prod.splits)

end
