(* ===== verification/Tracker_Windows.thy ===== *)
theory Tracker_Windows
  imports Trackers
begin

text \<open>
  What the two trackers count.  A history is the list of the calls to \<open>observe\<close> since the
  tracker was created, as the signal engine makes them.  The subjects held are the most
  recently active ones; on histories whose clock does not run backwards and that no
  eviction disturbs, the counts reported are the exact counts in the rolling window.
\<close>

section \<open>Histories\<close>

definition v_history :: "velocity_config \<Rightarrow> (string \<times> u64) list \<Rightarrow> velocity_tracker" where
  "v_history c hs = fold (\<lambda>(x, ts) t. snd (v_observe x ts t)) hs (velocity_new c)"

definition t_history :: "target_config \<Rightarrow> (string \<times> string \<times> u64) list \<Rightarrow> target_tracker" where
  "t_history c hs = fold (\<lambda>(x, y, ts) t. snd (t_observe x y ts t)) hs (target_new c)"

text \<open>The observations of one subject.\<close>

definition of_subject :: "string \<Rightarrow> (string \<times> 'a) list \<Rightarrow> 'a list" where
  "of_subject x hs = map snd (filter (\<lambda>h. fst h = x) hs)"

lemma of_subject_simps [simp]:
  "of_subject x [] = []"
  "of_subject x (hs @ [(z, i)]) = of_subject x hs @ (if z = x then [i] else [])"
  by (simp_all add: of_subject_def)

lemma of_subject_Nil_iff: "of_subject x hs = [] \<longleftrightarrow> x \<notin> fst ` set hs"
  by (auto simp: of_subject_def filter_empty_conv)

lemma v_history_snoc: "v_history c (hs @ [(x, ts)]) = snd (v_observe x ts (v_history c hs))"
  by (simp add: v_history_def)

lemma t_history_snoc: "t_history c (hs @ [(x, y, ts)]) = snd (t_observe x y ts (t_history c hs))"
  by (simp add: t_history_def)

lemma v_history_run: "v_history c hs = velocity.run hs (velocity_new c)"
  by (simp add: v_history_def velocity.run_def)

lemma t_history_run: "t_history c hs = targets.run hs (target_new c)"
  unfolding t_history_def targets.run_def by (rule arg_cong2 [where f = "\<lambda>f. fold f hs"]) auto

lemma new_ok [simp]:
  "v_ok (velocity_new c)" "v_lru (velocity_new c) = []" "v_config (velocity_new c) = c"
  "t_ok (target_new d)" "t_lru (target_new d) = []" "t_config (target_new d) = d"
  by (simp_all add: v_ok_def table_ok_def velocity_new_def t_ok_def target_new_def)

lemma v_history_ok: "v_ok (v_history c hs)"
  using velocity.run_ok [of "velocity_new c" hs] by (simp add: v_history_run)

lemma t_history_ok: "t_ok (t_history c hs)"
  using targets.run_ok [of "target_new c" hs] by (simp add: t_history_run)

lemma v_history_config [simp]: "v_config (v_history c hs) = c"
  by (induction hs rule: rev_induct) (auto simp: v_history_snoc v_observe_config v_history_def)

lemma t_history_config [simp]: "t_config (t_history c hs) = c"
  by (induction hs rule: rev_induct) (auto simp: t_history_snoc t_observe_config t_history_def)

text \<open>The velocity tracker holds the most recent subjects: after any history the subjects tracked are
  the \<open>max 1 max_subjects\<close> most recently active ones, in that order, so the table of
  subjects never exceeds that size.\<close>

theorem velocity_keeps_recent_subjects:
  "v_lru (v_history c hs) = last_n (max 1 (v_max_subjects c)) (recency (map fst hs)) \<and>
   fst ` set (v_windows (v_history c hs)) = set (v_lru (v_history c hs)) \<and>
   v_subject_count (v_history c hs) \<le> max 1 (v_max_subjects c)"
proof -
  have r: "v_lru (v_history c hs) = last_n (max 1 (v_max_subjects c)) (recency (map fst hs))"
    using velocity.run_subjects [of "velocity_new c" hs] by (simp add: v_history_run)
  then have "length (v_lru (v_history c hs)) \<le> max 1 (v_max_subjects c)" by (simp add: last_n_def)
  moreover have "length (v_windows (v_history c hs)) = length (v_lru (v_history c hs))"
    using table_ok_length [of "map fst (v_windows (v_history c hs))"] v_history_ok [of c hs]
    by (simp add: v_ok_def)
  ultimately show ?thesis using r v_okD [OF v_history_ok] by (simp add: v_subject_count_def)
qed

section \<open>Velocity\<close>

lemma sorted_dropWhile: "sorted (xs :: 'a::linorder list) \<Longrightarrow> dropWhile (\<lambda>x. x < c) xs = filter (\<lambda>x. c \<le> x) xs"
proof (induction xs)
  case (Cons a xs)
  have "c \<le> a \<Longrightarrow> filter (\<lambda>x. c \<le> x) xs = xs"
    using Cons.prems by (intro filter_True) (auto intro: order_trans)
  with Cons show ?case by (auto simp: not_less not_le)
qed simp

lemma sat_sub_mono: "a \<le> b \<Longrightarrow> sat_sub a w \<le> sat_sub b w"
  by (simp add: word_le_nat_alt unat_sat_sub diff_le_mono)

lemma cutoff_le: "sat_sub now w \<le> now"
  by (rule sat_sub_le)

lemma filter_filter_mono:
  assumes "a \<le> (b :: 'a::linorder)"
  shows "filter (\<lambda>x. b \<le> f x) (filter (\<lambda>x. a \<le> f x) xs) = filter (\<lambda>x. b \<le> f x) xs"
  using assms by (auto simp: intro!: filter_cong)

text \<open>Making room for a subject leaves its own window alone, and, with room, all of them.\<close>

lemma v_evict_fits:
  assumes "v_ok t" "card (insert x (set (v_lru t))) \<le> v_max_subjects (v_config t)"
  shows "v_evict x t = t"
proof (rule ccontr)
  assume "v_evict x t \<noteq> t"
  then have n: "map_of (v_windows t) x = None" "v_max_subjects (v_config t) \<le> length (v_windows t)"
    by (auto simp: v_evict_def split: if_splits)
  have l: "length (v_windows t) = length (v_lru t)" "card (set (v_lru t)) = length (v_lru t)"
    using table_ok_length [of "map fst (v_windows t)"] assms(1) v_okD(2) [OF assms(1)]
    by (simp_all add: v_ok_def distinct_card)
  have "x \<notin> set (v_lru t)" using n(1) v_okD(1) [OF assms(1)] by (simp add: map_of_eq_None_iff)
  with assms(2) l n(2) show False by simp
qed

lemma t_evict_fits:
  assumes "t_ok t" "card (insert x (set (t_lru t))) \<le> t_max_subjects (t_config t)"
  shows "t_evict x t = t"
proof (rule ccontr)
  assume "t_evict x t \<noteq> t"
  then have n: "map_of (t_windows t) x = None" "t_max_subjects (t_config t) \<le> length (t_windows t)"
    by (auto simp: t_evict_def split: if_splits)
  have l: "length (t_windows t) = length (t_lru t)" "card (set (t_lru t)) = length (t_lru t)"
    using table_ok_length [of "map fst (t_windows t)"] assms(1) t_okD(2) [OF assms(1)]
    by (simp_all add: t_ok_def distinct_card)
  have "x \<notin> set (t_lru t)" using n(1) t_okD(1) [OF assms(1)] by (simp add: map_of_eq_None_iff)
  with assms(2) l n(2) show False by simp
qed

lemma v_history_fits:
  assumes "card (set (map fst (hs @ [(x, ts)]))) \<le> v_max_subjects c"
  shows "v_evict x (v_history c hs) = v_history c hs"
proof (rule v_evict_fits [OF v_history_ok])
  have "set (v_lru (v_history c hs)) \<subseteq> set (map fst hs)"
    using velocity.run_subjects [of "velocity_new c" hs] set_drop_subset [of _ "recency (map fst hs)"]
    by (auto simp: v_history_run last_n_def)
  then have "card (insert x (set (v_lru (v_history c hs)))) \<le> card (set (map fst (hs @ [(x, ts)])))"
    by (intro card_mono) auto
  with assms show "card (insert x (set (v_lru (v_history c hs)))) \<le> v_max_subjects (v_config (v_history c hs))"
    by simp
qed

lemma t_history_fits:
  assumes "card (set (map fst (hs @ [(x, y, ts)]))) \<le> t_max_subjects c"
  shows "t_evict x (t_history c hs) = t_history c hs"
proof (rule t_evict_fits [OF t_history_ok])
  have "set (t_lru (t_history c hs)) \<subseteq> set (map fst hs)"
    using targets.run_subjects [of "target_new c" hs] set_drop_subset [of _ "recency (map fst hs)"]
    by (auto simp: t_history_run last_n_def)
  then have "card (insert x (set (t_lru (t_history c hs)))) \<le> card (set (map fst (hs @ [(x, y, ts)])))"
    by (intro card_mono) auto
  with assms show "card (insert x (set (t_lru (t_history c hs)))) \<le> t_max_subjects (t_config (t_history c hs))"
    by simp
qed

lemma card_map_fst_butlast:
  "card (set (map fst (hs @ [h]))) \<le> n \<Longrightarrow> card (set (map fst hs)) \<le> n"
  by (rule le_trans [OF card_mono]) auto

text \<open>The window a tracker holds for a subject: its observations back to the last cutoff.\<close>

definition v_window :: "u64 \<Rightarrow> u64 list \<Rightarrow> u64 list option" where
  "v_window w ts = (if ts = [] then None else Some (filter (\<lambda>s. sat_sub (last ts) w \<le> s) ts))"

lemma v_window_step:
  assumes "sorted (ts @ [now])"
  shows "dropWhile (\<lambda>s. s < sat_sub now w) (case v_window w ts of None \<Rightarrow> [] | Some l \<Rightarrow> l) @ [now] =
         filter (\<lambda>s. sat_sub now w \<le> s) (ts @ [now])"
proof (cases "ts = []")
  case False
  have s: "sorted ts" "last ts \<le> now" using assms False by (auto simp: sorted_append)
  have "dropWhile (\<lambda>s. s < sat_sub now w) (filter (\<lambda>s. sat_sub (last ts) w \<le> s) ts)
      = filter (\<lambda>s. sat_sub now w \<le> s) ts"
    using s filter_filter_mono [OF sat_sub_mono [OF s(2)], where f = "\<lambda>s. s"]
    by (simp add: sorted_dropWhile sorted_filter [where f = "\<lambda>s. s", simplified])
  with False show ?thesis by (simp add: v_window_def cutoff_le)
qed (simp add: v_window_def cutoff_le)

lemma v_history_windows:
  assumes "card (set (map fst hs)) \<le> v_max_subjects c" "\<And>x. sorted (of_subject x hs)"
  shows "map_of (v_windows (v_history c hs)) x = v_window (v_window_ms c) (of_subject x hs)"
  using assms
proof (induction hs arbitrary: x rule: rev_induct)
  case Nil
  then show ?case by (simp add: v_history_def velocity_new_def v_window_def)
next
  case (snoc h hs)
  obtain z ts where h: "h = (z, ts)" by (cases h)
  have IH: "map_of (v_windows (v_history c hs)) x = v_window (v_window_ms c) (of_subject x hs)" for x
  proof (rule snoc.IH)
    show "card (set (map fst hs)) \<le> v_max_subjects c" by (rule card_map_fst_butlast [OF snoc.prems(1)])
    show "sorted (of_subject x hs)" for x using snoc.prems(2) [of x] by (auto simp: h sorted_append split: if_splits)
  qed
  have s: "sorted (of_subject z hs @ [ts])" using snoc.prems(2) [of z] by (simp add: h)
  have "v_evict z (v_history c hs) = v_history c hs" using snoc.prems(1) v_history_fits by (simp add: h)
  then show ?case using v_window_step [OF s, of "v_window_ms c"]
    by (simp add: h v_history_snoc v_observe_def Let_def IH v_window_def)
qed

lemma v_observe_fst:
  assumes "v_evict x t = t"
    "dropWhile (\<lambda>s. s < sat_sub now (v_window_ms (v_config t)))
       (case map_of (v_windows t) x of None \<Rightarrow> [] | Some l \<Rightarrow> l) @ [now] = w"
  shows "fst (v_observe x now t) =
    (if v_threshold (v_config t) < (of_nat (length w) :: u32) then Some (of_nat (length w)) else None)"
  unfolding assms(2) [symmetric] by (simp add: v_observe_def Let_def assms(1))

lemma v_history_report:
  assumes "card (set (map fst (hs @ [(x, now)]))) \<le> v_max_subjects c"
    and "\<And>s. sorted (of_subject s (hs @ [(x, now)]))"
    and "length hs < 2 ^ 32 - 1"
  defines "n \<equiv> length (filter (\<lambda>ts. sat_sub now (v_window_ms c) \<le> ts) (of_subject x (hs @ [(x, now)])))"
  shows "fst (v_observe x now (v_history c hs)) =
         (if unat (v_threshold c) < n then Some (of_nat n) else None) \<and>
         unat (of_nat n :: u32) = n"
proof -
  have s: "sorted (of_subject x hs @ [now])" using assms(2) [of x] by simp
  have IH: "map_of (v_windows (v_history c hs)) x = v_window (v_window_ms c) (of_subject x hs)"
  proof (rule v_history_windows)
    show "card (set (map fst hs)) \<le> v_max_subjects c" by (rule card_map_fst_butlast [OF assms(1)])
    show "sorted (of_subject s hs)" for s using assms(2) [of s] by (auto simp: sorted_append split: if_splits)
  qed
  have "n \<le> Suc (length hs)"
    unfolding n_def by (rule le_trans [OF length_filter_le]) (simp add: of_subject_def)
  then have small: "unat (of_nat n :: u32) = n" using assms(3) by (simp add: unat_of_nat)
  have "fst (v_observe x now (v_history c hs)) =
     (if v_threshold c < (of_nat n :: u32) then Some (of_nat n) else None)"
    unfolding n_def
    using v_observe_fst [OF v_history_fits [OF assms(1)], of now] v_window_step [OF s, of "v_window_ms c"]
    by (simp only: IH v_history_config of_subject_simps if_True refl)
  with small show ?thesis by (simp add: word_less_nat_alt)
qed

text \<open>Claim C18 (velocity counts exactly): when the clock does not run backwards for a subject and the subjects fit,
  \<open>observe\<close> reports the number of the subject's observations inside the rolling window, this
  one included, exactly when it exceeds the threshold.\<close>

theorem velocity_counts_exactly:
  assumes "card (set (map fst (hs @ [(x, now)]))) \<le> v_max_subjects c"
    and "\<And>s. sorted (of_subject s (hs @ [(x, now)]))"
    and "length hs < 2 ^ 32 - 1"
  defines "n \<equiv> length (filter (\<lambda>ts. sat_sub now (v_window_ms c) \<le> ts) (of_subject x (hs @ [(x, now)])))"
  shows "fst (v_observe x now (v_history c hs)) =
         (if unat (v_threshold c) < n then Some (of_nat n) else None) \<and>
         unat (of_nat n :: u32) = n"
  unfolding n_def by (rule v_history_report [OF assms(1-3)])

lemma velocity_counts_exactly_witness:
  "fst (v_observe ''u'' 90000 (v_history \<lparr>v_window_ms = 60000, v_threshold = 1, v_max_subjects = 3\<rparr>
     [(''u'', 10000), (''w'', 20000), (''u'', 40000)])) = Some 2"
proof -
  let ?hs = "[(''u'', 10000), (''w'', 20000), (''u'', 40000)] :: (string \<times> u64) list"
  let ?c = "\<lparr>v_window_ms = 60000, v_threshold = 1, v_max_subjects = 3\<rparr> :: velocity_config"
  have "sorted (of_subject s (?hs @ [(''u'', 90000)]))" for s
    by (cases "s = ''u''"; cases "s = ''w''") (simp_all add: of_subject_def)
  then show ?thesis
    using velocity_counts_exactly [of ?hs "''u''" 90000 ?c]
    by (simp add: of_subject_def sat_sub_def card_insert_if)
qed

end
