(* ===== verification/Tracker_Targets.thy ===== *)
theory Tracker_Targets
  imports Tracker_Windows
begin

text \<open>
  The target tracker: what one observation does to a subject's map of targets, the bound on
  that map, and the exact count of distinct targets inside the rolling window.
\<close>

section \<open>Ordered maps\<close>

definition key_sorted :: "(string \<times> u64) list \<Rightarrow> bool" where
  "key_sorted m \<longleftrightarrow> sorted_wrt (<) (map fst m)"

lemma key_sorted_distinct: "key_sorted m \<Longrightarrow> distinct (map fst m)"
  by (simp add: key_sorted_def strict_sorted_iff)

lemma map_of_bt_insert [simp]: "map_of (bt_insert k v m) = (map_of m)(k \<mapsto> v)"
  by (induction k v m rule: bt_insert.induct) (auto simp: fun_eq_iff)

lemma keys_bt_insert: "fst ` set (bt_insert k v m) = insert k (fst ` set m)"
  by (induction k v m rule: bt_insert.induct) auto

lemma key_sorted_filter: "key_sorted m \<Longrightarrow> key_sorted (filter P m)"
  by (induction m) (auto simp: key_sorted_def)

lemma key_sorted_bt_insert: "key_sorted m \<Longrightarrow> key_sorted (bt_insert k v m)"
proof (induction k v m rule: bt_insert.induct)
  case (2 k v a b r)
  have "sorted_wrt (<) (map fst r)" "\<forall>z \<in> fst ` set r. a < z" using 2(2) by (auto simp: key_sorted_def)
  then show ?case
  proof (cases k a rule: linorder_cases)
    case greater
    then have "key_sorted (bt_insert k v r)" using 2 by (simp add: key_sorted_def)
    moreover have "\<forall>z \<in> fst ` set (bt_insert k v r). a < z"
      unfolding keys_bt_insert using greater \<open>\<forall>z \<in> fst ` set r. a < z\<close> by simp
    ultimately show ?thesis using greater by (auto simp: key_sorted_def)
  qed (auto simp: key_sorted_def intro: less_trans)
qed (simp add: key_sorted_def)

lemma length_bt_insert:
  "key_sorted m \<Longrightarrow> length (bt_insert k v m) = (if map_of m k = None then Suc (length m) else length m)"
proof -
  assume m: "key_sorted m"
  have "length (bt_insert k v m) = card (insert k (fst ` set m))"
    using distinct_card [OF key_sorted_distinct [OF key_sorted_bt_insert [OF m, of k v]]]
    by (simp add: keys_bt_insert)
  moreover have "length m = card (fst ` set m)"
    using distinct_card [OF key_sorted_distinct [OF m]] by simp
  ultimately show ?thesis by (simp add: card_insert_if map_of_eq_None_iff)
qed

lemma length_card_dom: "key_sorted m \<Longrightarrow> length m = card (dom (map_of m))"
  using distinct_card [OF key_sorted_distinct, of m] by (simp add: dom_map_of_conv_image_fst)

lemma min_by_ts_in: "min_by_ts m = Some p \<Longrightarrow> p \<in> set m"
  by (induction m arbitrary: p) (auto split: option.splits if_splits)

lemma min_by_ts_None: "min_by_ts m = None \<longleftrightarrow> m = []"
  by (cases m) (auto split: option.splits)

lemma length_al_del_in:
  assumes "key_sorted m" "k \<in> fst ` set m"
  shows "length (al_del k m) = length m - 1" "key_sorted (al_del k m)"
proof -
  show s: "key_sorted (al_del k m)" unfolding al_del_def by (rule key_sorted_filter [OF assms(1)])
  have "length (al_del k m) = card (fst ` set m - {k})"
    using distinct_card [OF key_sorted_distinct [OF s]] by (simp add: keys_al_del)
  also have "\<dots> = length m - 1"
    using distinct_card [OF key_sorted_distinct [OF assms(1)]] assms(2) by simp
  finally show "length (al_del k m) = length m - 1" .
qed

section \<open>One observation\<close>

text \<open>The map of targets that \<open>observe\<close> stores for the subject.\<close>

definition live :: "u64 \<Rightarrow> (string \<times> u64) list option \<Rightarrow> (string \<times> u64) list" where
  "live cutoff m = filter (\<lambda>(_, ts). cutoff \<le> ts) (case m of None \<Rightarrow> [] | Some m \<Rightarrow> m)"

definition roomy :: "nat \<Rightarrow> string \<Rightarrow> (string \<times> u64) list \<Rightarrow> (string \<times> u64) list" where
  "roomy cap y e = (if cap \<le> length e \<and> map_of e y = None
     then (case min_by_ts e of None \<Rightarrow> e | Some (k, _) \<Rightarrow> al_del k e) else e)"

definition entry_after :: "target_config \<Rightarrow> (string \<times> u64) list option \<Rightarrow> string \<Rightarrow> u64 \<Rightarrow> (string \<times> u64) list" where
  "entry_after c m y now = bt_insert y now
     (roomy (t_max_targets_per_subject c) y (live (sat_sub now (t_window_ms c)) m))"

lemma t_observe_windows:
  "t_windows (snd (t_observe x y now t)) = al_upd x
     (entry_after (t_config (t_evict x t)) (map_of (t_windows (t_evict x t)) x) y now) (t_windows (t_evict x t))"
  by (simp add: t_observe_def Let_def entry_after_def roomy_def live_def cong: if_cong)

lemma t_observe_fst:
  assumes "t_evict x t = t" "entry_after (t_config t) (map_of (t_windows t) x) y now = e"
  shows "fst (t_observe x y now t) =
    (if t_threshold (t_config t) < (of_nat (length e) :: u32) then Some (of_nat (length e)) else None)"
  unfolding assms(2) [symmetric]
  by (simp add: t_observe_def Let_def entry_after_def roomy_def live_def assms(1) cong: if_cong)

definition good_entry :: "target_config \<Rightarrow> (string \<times> u64) list \<Rightarrow> bool" where
  "good_entry c e \<longleftrightarrow> key_sorted e \<and> length e \<le> max 1 (t_max_targets_per_subject c)"

lemma live_sorted:
  assumes "\<And>e. m = Some e \<Longrightarrow> good_entry c e"
  shows "key_sorted (live k m)" "length (live k m) \<le> max 1 (t_max_targets_per_subject c)"
proof -
  have "good_entry c (case m of None \<Rightarrow> [] | Some m \<Rightarrow> m)"
    using assms by (cases m) (auto simp: good_entry_def key_sorted_def)
  then show "key_sorted (live k m)" "length (live k m) \<le> max 1 (t_max_targets_per_subject c)"
    using le_trans [OF length_filter_le] unfolding live_def good_entry_def
    by (blast intro: key_sorted_filter)+
qed

lemma roomy_room:
  assumes "key_sorted e" "length e \<le> max 1 cap"
  shows "key_sorted (roomy cap y e)" "length (bt_insert y now (roomy cap y e)) \<le> max 1 cap"
proof -
  have "key_sorted (roomy cap y e) \<and> length (bt_insert y now (roomy cap y e)) \<le> max 1 cap"
  proof (cases "cap \<le> length e \<and> map_of e y = None")
    case False
    then show ?thesis using assms by (auto simp: roomy_def length_bt_insert)
  next
    case True
    show ?thesis
    proof (cases "min_by_ts e")
      case None
      with True assms show ?thesis by (simp add: roomy_def min_by_ts_None key_sorted_def)
    next
      case (Some p)
      obtain k ts where p: "p = (k, ts)" by (cases p)
      have "k \<in> fst ` set e" using min_by_ts_in [OF Some] p by force
      note d = length_al_del_in [OF assms(1) this]
      have "length (bt_insert y now (al_del k e)) \<le> Suc (length (al_del k e))"
        by (simp add: length_bt_insert d(2))
      moreover have "e \<noteq> []" using Some by auto
      ultimately have "length (bt_insert y now (al_del k e)) \<le> length e" using d(1) by (cases e) auto
      then show ?thesis using True assms(2) d(2) Some p by (simp add: roomy_def)
    qed
  qed
  then show "key_sorted (roomy cap y e)" "length (bt_insert y now (roomy cap y e)) \<le> max 1 cap" by blast+
qed

lemma entry_after_good:
  "(\<And>e. m = Some e \<Longrightarrow> good_entry c e) \<Longrightarrow> good_entry c (entry_after c m y now)"
  using live_sorted [of m c "sat_sub now (t_window_ms c)"]
    roomy_room [of "live (sat_sub now (t_window_ms c)) m" "t_max_targets_per_subject c"]
  by (simp add: good_entry_def entry_after_def key_sorted_bt_insert)

lemma t_evict_windows: "map_of (t_windows (t_evict x t)) z = Some e \<Longrightarrow> map_of (t_windows t) z = Some e"
  by (auto simp: t_evict_def split: list.splits if_splits)

lemma t_observe_map_of:
  "map_of (t_windows (snd (t_observe x y now t))) = (map_of (t_windows (t_evict x t)))(x \<mapsto>
     entry_after (t_config (t_evict x t)) (map_of (t_windows (t_evict x t)) x) y now)"
  by (simp add: t_observe_windows)

lemma t_evict_config [simp]: "t_config (t_evict x t) = t_config t"
  by (auto simp: t_evict_def split: list.split)

lemma t_history_good: "map_of (t_windows (t_history c hs)) x = Some e \<Longrightarrow> good_entry c e"
proof (induction hs arbitrary: x e rule: rev_induct)
  case Nil
  then show ?case by (simp add: t_history_def target_new_def)
next
  case (snoc h hs)
  obtain z y ts where h: "h = (z, y, ts)" by (cases h)
  show ?case
  proof (cases "x = z")
    case True
    then have e: "e = entry_after c (map_of (t_windows (t_evict z (t_history c hs))) z) y ts"
      using snoc.prems unfolding h t_history_snoc t_observe_map_of by (simp del: map_of_eq_Some_iff)
    show ?thesis unfolding e by (rule entry_after_good) (rule snoc.IH, rule t_evict_windows)
  next
    case False
    then have "map_of (t_windows (t_evict z (t_history c hs))) x = Some e"
      using snoc.prems unfolding h t_history_snoc t_observe_map_of by (simp del: map_of_eq_Some_iff)
    then have "map_of (t_windows (t_history c hs)) x = Some e" by (rule t_evict_windows)
    then show ?thesis by (rule snoc.IH)
  qed
qed

text \<open>Claim C20 (the target tracker is bounded in both directions): after any history it holds the most recently active subjects,
  at most \<open>max 1 max_subjects\<close> of them, and for each at most \<open>max 1 max_targets_per_subject\<close>
  targets, whatever the clock did.\<close>

theorem target_tracker_bounded:
  "t_lru (t_history c hs) = last_n (max 1 (t_max_subjects c)) (recency (map fst hs)) \<and>
   t_subject_count (t_history c hs) \<le> max 1 (t_max_subjects c) \<and>
   list_all (\<lambda>(x, e). length e \<le> max 1 (t_max_targets_per_subject c)) (t_windows (t_history c hs))"
proof -
  have r: "t_lru (t_history c hs) = last_n (max 1 (t_max_subjects c)) (recency (map fst hs))"
    using targets.run_subjects [of "target_new c" hs] by (simp add: t_history_run)
  then have "length (t_lru (t_history c hs)) \<le> max 1 (t_max_subjects c)" by (simp add: last_n_def)
  moreover have "length (t_windows (t_history c hs)) = length (t_lru (t_history c hs))"
    using table_ok_length [of "map fst (t_windows (t_history c hs))"] t_history_ok [of c hs]
    by (simp add: t_ok_def)
  moreover have "distinct (map fst (t_windows (t_history c hs)))"
    using t_history_ok [of c hs] by (simp add: t_ok_def table_ok_def)
  then have "(x, e) \<in> set (t_windows (t_history c hs)) \<Longrightarrow>
      length e \<le> max 1 (t_max_targets_per_subject c)" for x e
    using t_history_good [of c hs x e] by (simp add: good_entry_def)
  then have "list_all (\<lambda>(x, e). length e \<le> max 1 (t_max_targets_per_subject c)) (t_windows (t_history c hs))"
    unfolding list_all_iff by blast
  ultimately show ?thesis using r by (simp only: t_subject_count_def)
qed

section \<open>The distinct targets in the window\<close>

definition seen :: "u64 \<Rightarrow> (string \<times> u64) list \<Rightarrow> string \<Rightarrow> u64 option" where
  "seen cutoff obs y = (case map_of (rev obs) y of None \<Rightarrow> None | Some s \<Rightarrow> if cutoff \<le> s then Some s else None)"

definition holds_window :: "u64 \<Rightarrow> (string \<times> u64) list \<Rightarrow> (string \<times> u64) list option \<Rightarrow> bool" where
  "holds_window w obs m \<longleftrightarrow> (case m of None \<Rightarrow> obs = []
     | Some e \<Rightarrow> obs \<noteq> [] \<and> key_sorted e \<and> map_of e = seen (sat_sub (snd (last obs)) w) obs)"

lemma map_of_live:
  assumes "key_sorted e"
  shows "map_of (live k (Some e)) y = (case map_of e y of None \<Rightarrow> None | Some s \<Rightarrow> if k \<le> s then Some s else None)"
  using key_sorted_distinct [OF assms]
proof (induction e)
  case (Cons p e)
  obtain z s where p: "p = (z, s)" by (cases p)
  have "z \<notin> fst ` set e" using Cons.prems by (simp add: p)
  then have "map_of e z = None" by (simp add: map_of_eq_None_iff)
  then show ?case using Cons by (auto simp: live_def p)
qed (simp add: live_def)

lemma live_window:
  assumes "holds_window w obs m" "sorted (map snd obs @ [now])"
  shows "key_sorted (live (sat_sub now w) m)" "map_of (live (sat_sub now w) m) = seen (sat_sub now w) obs"
proof -
  show s: "key_sorted (live (sat_sub now w) m)"
    unfolding live_def
    by (rule key_sorted_filter) (use assms(1) in \<open>auto simp: holds_window_def key_sorted_def split: option.splits\<close>)
  show "map_of (live (sat_sub now w) m) = seen (sat_sub now w) obs"
  proof (cases m)
    case None
    with assms(1) show ?thesis by (simp add: holds_window_def live_def seen_def fun_eq_iff)
  next
    case (Some e)
    have o: "obs \<noteq> []" "key_sorted e" "map_of e = seen (sat_sub (snd (last obs)) w) obs"
      using assms(1) Some by (simp_all add: holds_window_def)
    have "snd (last obs) \<le> now" using assms(2) o(1) by (simp add: sorted_append)
    then have le: "sat_sub (snd (last obs)) w \<le> sat_sub now w" by (rule sat_sub_mono)
    show ?thesis unfolding Some
      using le by (auto simp: fun_eq_iff map_of_live [OF o(2)] o(3) seen_def split: option.split dest: order_trans)
  qed
qed

lemma dom_seen: "dom (seen k obs) \<subseteq> fst ` set obs"
proof
  fix y assume "y \<in> dom (seen k obs)"
  then obtain s where "map_of (rev obs) y = Some s" by (auto simp: seen_def split: option.splits)
  then have "(y, s) \<in> set obs" by (auto dest: map_of_SomeD)
  then show "y \<in> fst ` set obs" by force
qed

lemma finite_dom_seen: "finite (dom (seen k obs))"
  by (rule finite_subset [OF dom_seen]) simp

lemma entry_window:
  assumes "holds_window w obs m" "sorted (map snd obs @ [now])" "t_window_ms c = w"
    "card (insert y (fst ` set obs)) \<le> t_max_targets_per_subject c"
  shows "entry_after c m y now = bt_insert y now (live (sat_sub now w) m)"
    and "holds_window w (obs @ [(y, now)]) (Some (entry_after c m y now))"
    and "length (entry_after c m y now) = card (dom (seen (sat_sub now w) (obs @ [(y, now)])))"
proof -
  note l = live_window [OF assms(1,2)]
  have "roomy (t_max_targets_per_subject c) y (live (sat_sub now w) m) = live (sat_sub now w) m"
  proof (cases "map_of (live (sat_sub now w) m) y = None")
    case True
    then have "y \<notin> dom (seen (sat_sub now w) obs)" using l(2) by auto
    then have "Suc (length (live (sat_sub now w) m)) = card (insert y (dom (seen (sat_sub now w) obs)))"
      using finite_dom_seen length_card_dom [OF l(1)] by (simp add: l(2))
    also have "\<dots> \<le> card (insert y (fst ` set obs))"
      by (rule card_mono) (use dom_seen in auto)
    finally show ?thesis using assms(4) by (simp add: roomy_def)
  qed (auto simp: roomy_def)
  then show e: "entry_after c m y now = bt_insert y now (live (sat_sub now w) m)"
    by (simp add: entry_after_def assms(3))
  have k: "key_sorted (entry_after c m y now)" by (simp add: e key_sorted_bt_insert l(1))
  have m: "map_of (entry_after c m y now) = seen (sat_sub now w) (obs @ [(y, now)])"
    by (auto simp: e l(2) seen_def fun_eq_iff cutoff_le)
  show "holds_window w (obs @ [(y, now)]) (Some (entry_after c m y now))"
    using k m by (simp add: holds_window_def)
  show "length (entry_after c m y now) = card (dom (seen (sat_sub now w) (obs @ [(y, now)])))"
    by (simp add: length_card_dom [OF k] m)
qed

text \<open>With a clock that does not run backwards, the targets seen are those of the observations in
  the window.\<close>

lemma dom_seen_sorted:
  assumes "sorted (map snd obs)"
  shows "dom (seen k obs) = fst ` set (filter (\<lambda>q. k \<le> snd q) obs)"
  using assms
proof (induction obs rule: rev_induct)
  case Nil
  then show ?case by (simp add: seen_def dom_def)
next
  case (snoc p obs)
  obtain y s where p: "p = (y, s)" by (cases p)
  have s: "\<forall>q \<in> set obs. snd q \<le> s" "sorted (map snd obs)" using snoc.prems by (auto simp: p sorted_append)
  have "dom (seen k (obs @ [p])) = dom ((seen k obs)(y := (if k \<le> s then Some s else None)))"
    by (rule arg_cong [where f = dom]) (auto simp: seen_def p fun_eq_iff)
  also have "\<dots> = fst ` set (filter (\<lambda>q. k \<le> snd q) (obs @ [p]))"
    using snoc.IH [OF s(2)] s(1) by (force simp: p)
  finally show ?case .
qed

lemma t_history_windows:
  assumes "card (set (map fst hs)) \<le> t_max_subjects c" "\<And>x. sorted (map snd (of_subject x hs))"
    "\<And>x. card (fst ` set (of_subject x hs)) \<le> t_max_targets_per_subject c"
  shows "holds_window (t_window_ms c) (of_subject x hs) (map_of (t_windows (t_history c hs)) x)"
  using assms
proof (induction hs arbitrary: x rule: rev_induct)
  case Nil
  then show ?case by (simp add: t_history_def target_new_def holds_window_def)
next
  case (snoc h hs)
  obtain z y ts where h: "h = (z, y, ts)" by (cases h)
  have IH: "holds_window (t_window_ms c) (of_subject x hs) (map_of (t_windows (t_history c hs)) x)" for x
  proof (rule snoc.IH)
    show "card (set (map fst hs)) \<le> t_max_subjects c" by (rule card_map_fst_butlast [OF snoc.prems(1)])
    show "sorted (map snd (of_subject x hs))" for x
      using snoc.prems(2) [of x] by (auto simp: h sorted_append split: if_splits)
    show "card (fst ` set (of_subject x hs)) \<le> t_max_targets_per_subject c" for x
      by (rule le_trans [OF card_mono snoc.prems(3) [of x]]) (auto simp: h)
  qed
  have ev: "t_evict z (t_history c hs) = t_history c hs" using snoc.prems(1) t_history_fits by (simp add: h)
  show ?case
  proof (cases "x = z")
    case True
    have "holds_window (t_window_ms c) (of_subject z hs @ [(y, ts)])
      (Some (entry_after c (map_of (t_windows (t_history c hs)) z) y ts))"
      using snoc.prems(2) [of z] snoc.prems(3) [of z] by (intro entry_window(2) [OF IH]) (simp_all add: h)
    then show ?thesis by (simp add: h t_history_snoc t_observe_windows ev True)
  next
    case False
    then show ?thesis using IH [of x] by (simp add: h t_history_snoc t_observe_windows ev)
  qed
qed

lemma t_history_report:
  assumes "card (set (map fst (hs @ [(x, y, now)]))) \<le> t_max_subjects c"
    and "\<And>s. sorted (map snd (of_subject s (hs @ [(x, y, now)])))"
    and "\<And>s. card (fst ` set (of_subject s (hs @ [(x, y, now)]))) \<le> t_max_targets_per_subject c"
    and "length hs < 2 ^ 32 - 1"
  defines "n \<equiv> card (fst ` set (filter (\<lambda>p. sat_sub now (t_window_ms c) \<le> snd p) (of_subject x (hs @ [(x, y, now)]))))"
  shows "fst (t_observe x y now (t_history c hs)) =
         (if unat (t_threshold c) < n then Some (of_nat n) else None) \<and>
         unat (of_nat n :: u32) = n"
proof -
  have IH: "holds_window (t_window_ms c) (of_subject x hs) (map_of (t_windows (t_history c hs)) x)"
  proof (rule t_history_windows)
    show "card (set (map fst hs)) \<le> t_max_subjects c" by (rule card_map_fst_butlast [OF assms(1)])
    show "sorted (map snd (of_subject s hs))" for s
      using assms(2) [of s] by (auto simp: sorted_append split: if_splits)
    show "card (fst ` set (of_subject s hs)) \<le> t_max_targets_per_subject c" for s
      by (rule le_trans [OF card_mono assms(3) [of s]]) auto
  qed
  let ?e = "entry_after c (map_of (t_windows (t_history c hs)) x) y now"
  have "length ?e = card (dom (seen (sat_sub now (t_window_ms c)) (of_subject x hs @ [(y, now)])))"
    using assms(2) [of x] assms(3) [of x] by (intro entry_window(3) [OF IH]) simp_all
  then have len: "length ?e = n"
    using assms(2) [of x] by (simp add: n_def dom_seen_sorted)
  have "n \<le> Suc (length hs)"
    unfolding n_def
    by (rule le_trans [OF card_image_le [OF finite_set] le_trans [OF card_length le_trans [OF length_filter_le]]])
      (simp add: of_subject_def)
  then have small: "unat (of_nat n :: u32) = n" using assms(4) by (simp add: unat_of_nat)
  have "fst (t_observe x y now (t_history c hs)) =
     (if t_threshold c < (of_nat n :: u32) then Some (of_nat n) else None)"
    using t_observe_fst [OF t_history_fits [OF assms(1)], of y now ?e] by (simp add: len)
  with small show ?thesis by (simp add: word_less_nat_alt)
qed

text \<open>Claim C19 (distinct targets are counted exactly): when the clock does not run backwards for a subject and neither
  capacity is exceeded, \<open>observe\<close> reports the number of distinct targets of the subject inside
  the rolling window, exactly when it exceeds the threshold.\<close>

theorem targets_counted_exactly:
  assumes "card (set (map fst (hs @ [(x, y, now)]))) \<le> t_max_subjects c"
    and "\<And>s. sorted (map snd (of_subject s (hs @ [(x, y, now)])))"
    and "\<And>s. card (fst ` set (of_subject s (hs @ [(x, y, now)]))) \<le> t_max_targets_per_subject c"
    and "length hs < 2 ^ 32 - 1"
  defines "n \<equiv> card (fst ` set (filter (\<lambda>p. sat_sub now (t_window_ms c) \<le> snd p) (of_subject x (hs @ [(x, y, now)]))))"
  shows "fst (t_observe x y now (t_history c hs)) =
         (if unat (t_threshold c) < n then Some (of_nat n) else None) \<and>
         unat (of_nat n :: u32) = n"
  unfolding n_def by (rule t_history_report [OF assms(1-4)])

lemma targets_counted_exactly_witness:
  "fst (t_observe ''u'' ''b'' 50 (t_history
     \<lparr>t_window_ms = 60, t_threshold = 1, t_max_subjects = 2, t_max_targets_per_subject = 3\<rparr>
     [(''u'', ''a'', 10), (''u'', ''b'', 20)])) = Some 2"
proof -
  let ?hs = "[(''u'', ''a'', 10), (''u'', ''b'', 20)] :: (string \<times> string \<times> u64) list"
  let ?c = "\<lparr>t_window_ms = 60, t_threshold = 1, t_max_subjects = 2, t_max_targets_per_subject = 3\<rparr> :: target_config"
  have "sorted (map snd (of_subject s (?hs @ [(''u'', ''b'', 50)])))"
    "card (fst ` set (of_subject s (?hs @ [(''u'', ''b'', 50)]))) \<le> 3" for s
    by (cases "s = ''u''"; simp add: of_subject_def card_insert_if)+
  then show ?thesis
    using targets_counted_exactly [of ?hs "''u''" "''b''" 50 ?c]
    by (simp add: of_subject_def sat_sub_def card_insert_if)
qed

text \<open>The documented bound (SEC-18) has no counterpart for the velocity tracker's windows: one
  subject's window grows with the rate of its events, here to any size.\<close>

lemma velocity_window_unbounded:
  "map_of (v_windows (v_history c (replicate (Suc n) (x, 0)))) x = Some (replicate (Suc n) 0)"
proof (induction n)
  case 0
  show ?case by (simp add: v_history_def velocity_new_def v_observe_def v_evict_def Let_def sat_sub_def split: list.split)
next
  case (Suc n)
  have "replicate (Suc (Suc n)) (x, 0 :: u64) = replicate (Suc n) (x, 0) @ [(x, 0)]"
    by (simp add: replicate_append_same)
  moreover have "map_of (v_windows (snd (v_observe x 0 t))) x =
      Some (replicate (Suc (Suc n)) 0)" if "map_of (v_windows t) x = Some (replicate (Suc n) 0)" for t
  proof -
    have "sat_sub 0 w = 0" for w :: u64 by (auto simp: sat_sub_def word_gt_0)
    with that show ?thesis
      by (simp add: v_observe_def v_evict_def Let_def replicate_append_same del: map_of_eq_Some_iff)
  qed
  ultimately show ?case using Suc by (simp only: v_history_snoc)
qed

end
