(* ===== verification/Float_Text.thy ===== *)
theory Float_Text
  imports Floats
begin

text \<open>
  The text forms of floats that the sources use: \<open>str::parse::<f64>\<close>, \<open>Display\<close> (the shortest
  decimal that reads back as the same double, without an exponent) and \<open>{:.2}\<close> (the exact
  value to two places, ties to even).
\<close>

section \<open>Reading\<close>

definition is_digit :: "char \<Rightarrow> bool" where
  "is_digit c \<longleftrightarrow> 48 \<le> (of_char c :: nat) \<and> (of_char c :: nat) \<le> 57"

definition digits_value :: "string \<Rightarrow> nat" where
  "digits_value s = foldl (\<lambda>a c. a * 10 + (of_char c - 48)) 0 s"

definition lower_char :: "char \<Rightarrow> char" where
  "lower_char c = (let n = (of_char c :: nat) in if 65 \<le> n \<and> n \<le> 90 then char_of (n + 32) else c)"

text \<open>A sign, then the rest.\<close>

definition split_sign :: "string \<Rightarrow> bool \<times> string" where
  "split_sign s = (case s of [] \<Rightarrow> (False, []) | c # r \<Rightarrow>
     if c = CHR ''-'' then (True, r) else if c = CHR ''+'' then (False, r) else (False, s))"

definition parse_exponent :: "string \<Rightarrow> int option" where
  "parse_exponent s = (case s of [] \<Rightarrow> Some 0 | c # r \<Rightarrow>
     if lower_char c \<noteq> CHR ''e'' then None
     else let (neg, ds) = split_sign r in
       if ds = [] \<or> \<not> list_all is_digit ds then None
       else Some (if neg then - int (digits_value ds) else int (digits_value ds)))"

text \<open>Digits, an optional point and digits (one digit at least), an optional exponent.\<close>

definition parse_number :: "string \<Rightarrow> rat option" where
  "parse_number s =
     (let i = takeWhile is_digit s; r = dropWhile is_digit s;
          (f, r) = (case r of c # r' \<Rightarrow> if c = CHR ''.'' then (takeWhile is_digit r', dropWhile is_digit r') else ([], r)
                    | [] \<Rightarrow> ([], []))
      in if i @ f = [] then None
         else case parse_exponent r of None \<Rightarrow> None
           | Some e \<Rightarrow> Some (of_nat (digits_value (i @ f)) * 10 powi (e - int (length f))))"

definition f64_parse :: "string \<Rightarrow> flt option" where
  "f64_parse s =
     (let (neg, r) = split_sign s; l = map lower_char r in
      if l = ''inf'' \<or> l = ''infinity'' then Some (if neg then NegInf else PosInf)
      else if l = ''nan'' then Some NaN
      else case parse_number r of None \<Rightarrow> None
        | Some x \<Rightarrow> Some (round64 (if neg then - x else x)))"

section \<open>Printing\<close>

text \<open>\<open>m * 10 ^ q\<close> in plain decimal notation.\<close>

definition print_decimal :: "nat \<Rightarrow> int \<Rightarrow> string" where
  "print_decimal m q =
     (if 0 \<le> q then dec_str m @ replicate (nat q) CHR ''0''
      else let s = dec_str m; k = nat (- q);
               s = replicate (Suc k - length s) CHR ''0'' @ s
           in take (length s - k) s @ ''.'' @ drop (length s - k) s)"

text \<open>\<open>10 ^ (k - 1) \<le> x < 10 ^ k\<close>; below 1 the zeros after the point are counted, of which a
  double has less than 400.\<close>

fun lead_zeros :: "nat \<Rightarrow> rat \<Rightarrow> nat" where
  "lead_zeros 0 x = 0"
| "lead_zeros (Suc n) x = (if 1 \<le> x * 10 then 0 else Suc (lead_zeros n (x * 10)))"

definition decade :: "rat \<Rightarrow> int" where
  "decade x = (if 1 \<le> x then int (length (dec_str (nat \<lfloor>x\<rfloor>))) else - int (lead_zeros 400 x))"

text \<open>The closest decimal with \<open>p\<close> significant digits that reads back as \<open>x\<close>, if any.\<close>

definition with_digits :: "rat \<Rightarrow> nat \<Rightarrow> (nat \<times> int) option" where
  "with_digits x p =
     (let q = decade x - int p; u = 10 powi q; m = nat \<lfloor>x / u\<rfloor>;
          lo = round64 (of_nat m * u) = Fin x; hi = round64 (of_nat (Suc m) * u) = Fin x
      in if lo \<and> (\<not> hi \<or> x - of_nat m * u \<le> of_nat (Suc m) * u - x) then Some (m, q)
         else if hi then Some (Suc m, q) else None)"

text \<open>Seventeen significant digits always suffice for a double.\<close>

fun first_some :: "('a \<Rightarrow> 'b option) \<Rightarrow> 'a list \<Rightarrow> 'b option" where
  "first_some f [] = None"
| "first_some f (x # xs) = (case f x of None \<Rightarrow> first_some f xs | Some y \<Rightarrow> Some y)"

definition shortest :: "rat \<Rightarrow> string" where
  "shortest x = (case first_some (with_digits x) [1..<18] of
      None \<Rightarrow> [] | Some (m, q) \<Rightarrow> print_decimal m q)"

fun f64_display :: "flt \<Rightarrow> string" where
  "f64_display NaN = ''NaN''"
| "f64_display PosInf = ''inf''"
| "f64_display NegInf = ''-inf''"
| "f64_display (Fin x) = (if x = 0 then ''0'' else if x < 0 then CHR ''-'' # shortest (- x) else shortest x)"

definition fixed2_pos :: "rat \<Rightarrow> string" where
  "fixed2_pos x = print_decimal (nat (round_half_even (x * 100))) (- 2)"

fun float_fixed2 :: "flt \<Rightarrow> string" where
  "float_fixed2 NaN = ''NaN''"
| "float_fixed2 PosInf = ''inf''"
| "float_fixed2 NegInf = ''-inf''"
| "float_fixed2 (Fin x) = (if x < 0 then CHR ''-'' # fixed2_pos (- x) else fixed2_pos x)"

end
