(* ===== verification/Signals.thy ===== *)
theory Signals
  imports Tracker_Targets Event Float_Text
begin

text \<open>
  \<^verbatim>\<open>daemon/crates/athar-detection/src/signal.rs\<close>: the signal engine.  Its configuration is
  fixed at construction; the locks around its trackers make each call of a tracker atomic, and
  one evaluation is a step of the engine's state.  The wall clock is the argument \<open>now\<close>, the
  fresh ULID of a record an argument too.
\<close>

record credential_stuffing_config =
  cs_event_types :: "string list"
  cs_outcome_field :: string
  cs_outcome_failed_values :: "string list"
  cs_window_ms :: u64
  cs_threshold :: u32
  cs_max_subjects :: nat

definition credential_stuffing_default :: credential_stuffing_config where
  "credential_stuffing_default = \<lparr>
     cs_event_types = [''login.fail'', ''auth.fail'', ''signin.fail''],
     cs_outcome_field = ''outcome'',
     cs_outcome_failed_values = [''failed'', ''invalid_credentials'', ''unauthorized''],
     cs_window_ms = 60000, cs_threshold = 5, cs_max_subjects = 10000\<rparr>"

definition qualifies :: "credential_stuffing_config \<Rightarrow> event \<Rightarrow> bool" where
  "qualifies c e =
     (if list_ex (\<lambda>t. t = event_type e) (cs_event_types c) then True
      else if cs_outcome_field c \<noteq> [] then
        (case ev_data e of None \<Rightarrow> False
         | Some d \<Rightarrow> (case Option.bind (json_get d (cs_outcome_field c)) json_as_str of None \<Rightarrow> False
             | Some v \<Rightarrow> list_ex (\<lambda>f. f = v) (cs_outcome_failed_values c)))
      else False)"

definition as_velocity :: "credential_stuffing_config \<Rightarrow> velocity_config" where
  "as_velocity c = \<lparr>v_window_ms = cs_window_ms c, v_threshold = cs_threshold c, v_max_subjects = cs_max_subjects c\<rparr>"

datatype signal_kind = NewBeneficiary | HighAmount | HighVelocity | DistinctTargets | CredentialStuffingPattern

fun kind_str :: "signal_kind \<Rightarrow> string" where
  "kind_str NewBeneficiary = ''new_beneficiary''"
| "kind_str HighAmount = ''high_amount''"
| "kind_str HighVelocity = ''high_velocity''"
| "kind_str DistinctTargets = ''distinct_targets''"
| "kind_str CredentialStuffingPattern = ''credential_stuffing_pattern''"

record signal =
  s_kind :: signal_kind
  s_confidence :: flt
  s_value :: string
  s_threshold :: "string option"

record signal_record =
  sig_signal_id :: string
  sig_tenant_id :: string
  sig_kind :: signal_kind
  sig_confidence :: flt
  sig_value :: string
  sig_threshold :: "string option"
  sig_timestamp_ms :: u64
  sig_event_id :: string
  sig_lifecycle_id :: "string option"
  sig_tracker_version :: string

record signal_engine_config =
  high_amount_floor :: flt
  amount_field :: string
  sc_velocity :: velocity_config
  sc_targets :: target_config
  sc_credential_stuffing :: credential_stuffing_config

definition signal_config_default :: signal_engine_config where
  "signal_config_default = \<lparr>high_amount_floor = Fin 1000, amount_field = ''amount'',
     sc_velocity = velocity_config_default, sc_targets = target_config_default,
     sc_credential_stuffing = credential_stuffing_default\<rparr>"

record signal_engine =
  se_config :: signal_engine_config
  se_known :: "string set"
  se_velocity :: velocity_tracker
  se_targets :: target_tracker
  se_credstuff :: velocity_tracker

definition signal_engine_new :: "signal_engine_config \<Rightarrow> signal_engine" where
  "signal_engine_new c = \<lparr>se_config = c, se_known = {}, se_velocity = velocity_new (sc_velocity c),
     se_targets = target_new (sc_targets c),
     se_credstuff = velocity_new (as_velocity (sc_credential_stuffing c))\<rparr>"

section \<open>The producers\<close>

text \<open>\<open>Number::as_f64\<close>, and \<open>str::parse\<close> for an amount given as text.\<close>

definition extract_amount :: "json \<Rightarrow> string \<Rightarrow> flt option" where
  "extract_amount d field = (case json_get d field of
      Some (JInt n) \<Rightarrow> Some (round64 (of_int n))
    | Some (JNumber x) \<Rightarrow> Some x
    | Some (JString s) \<Rightarrow> f64_parse s
    | _ \<Rightarrow> None)"

definition subject_of :: "event \<Rightarrow> string" where
  "subject_of e = (case Option.bind (actor e) ar_id of Some i \<Rightarrow> i | None \<Rightarrow> tenant_id e)"

definition beneficiary_id :: "event \<Rightarrow> string option" where
  "beneficiary_id e = Option.bind (beneficiary e) ar_id"

text \<open>The key of a resource in the set of known ones.\<close>

definition known_key :: "event \<Rightarrow> string option" where
  "known_key e = (case Option.bind (resource e) rr_id of None \<Rightarrow> None
     | Some rid \<Rightarrow> Some (tenant_id e @ '':'' @ rid))"

definition u_str :: "'a::len word \<Rightarrow> string" where
  "u_str w = dec_str (unat w)"

definition new_beneficiary :: "event \<Rightarrow> signal_engine \<Rightarrow> signal list \<times> signal_engine" where
  "new_beneficiary e s = (case Option.bind (resource e) rr_id of
      None \<Rightarrow> ([], s)
    | Some rid \<Rightarrow>
        let key = tenant_id e @ '':'' @ rid in
        if key \<notin> se_known s
        then ([\<lparr>s_kind = NewBeneficiary, s_confidence = round32 (85/100), s_value = rid, s_threshold = None\<rparr>],
              s\<lparr>se_known := insert key (se_known s)\<rparr>)
        else ([], s))"

definition high_amount :: "event \<Rightarrow> signal_engine \<Rightarrow> signal list" where
  "high_amount e s = (case Option.bind (ev_data e) (\<lambda>d. extract_amount d (amount_field (se_config s))) of
      None \<Rightarrow> []
    | Some amount \<Rightarrow>
        if flt_ge amount (high_amount_floor (se_config s))
        then [\<lparr>s_kind = HighAmount, s_confidence = round32 (95/100), s_value = ''amount='' @ f64_display amount,
               s_threshold = Some (''>='' @ float_fixed2 (high_amount_floor (se_config s)))\<rparr>]
        else [])"

definition high_velocity :: "event \<Rightarrow> u64 \<Rightarrow> signal_engine \<Rightarrow> signal list \<times> signal_engine" where
  "high_velocity e now s =
     (let (r, v) = v_observe (subject_of e) now (se_velocity s);
          c = sc_velocity (se_config s)
      in (case r of None \<Rightarrow> []
          | Some count \<Rightarrow> [\<lparr>s_kind = HighVelocity, s_confidence = round32 (90/100),
              s_value = ''subject='' @ subject_of e @ '' count='' @ u_str count @ '' window_ms='' @ u_str (v_window_ms c),
              s_threshold = Some (''>'' @ u_str (v_threshold c))\<rparr>],
          s\<lparr>se_velocity := v\<rparr>))"

definition credential_stuffing :: "event \<Rightarrow> u64 \<Rightarrow> signal_engine \<Rightarrow> signal list \<times> signal_engine" where
  "credential_stuffing e now s =
     (let c = sc_credential_stuffing (se_config s) in
      if qualifies c e then
        (let (r, v) = v_observe (subject_of e) now (se_credstuff s)
         in (case r of None \<Rightarrow> []
             | Some count \<Rightarrow> [\<lparr>s_kind = CredentialStuffingPattern, s_confidence = round32 (85/100),
                 s_value = ''subject='' @ subject_of e @ '' failed_count='' @ u_str count @
                   '' window_ms='' @ u_str (cs_window_ms c) @ '' event_type='' @ event_type e,
                 s_threshold = Some (''>'' @ u_str (cs_threshold c))\<rparr>],
             s\<lparr>se_credstuff := v\<rparr>))
      else ([], s))"

definition distinct_targets :: "event \<Rightarrow> u64 \<Rightarrow> signal_engine \<Rightarrow> signal list \<times> signal_engine" where
  "distinct_targets e now s = (case beneficiary_id e of
      None \<Rightarrow> ([], s)
    | Some target \<Rightarrow>
        (let (r, v) = t_observe (subject_of e) target now (se_targets s);
             c = sc_targets (se_config s)
         in (case r of None \<Rightarrow> []
             | Some count \<Rightarrow> [\<lparr>s_kind = DistinctTargets, s_confidence = round32 (90/100),
                 s_value = ''subject='' @ subject_of e @ '' distinct_targets='' @ u_str count @
                   '' window_ms='' @ u_str (t_window_ms c),
                 s_threshold = Some (''>'' @ u_str (t_threshold c))\<rparr>],
             s\<lparr>se_targets := v\<rparr>)))"

definition evaluate_signals :: "event \<Rightarrow> u64 \<Rightarrow> signal_engine \<Rightarrow> signal list \<times> signal_engine" where
  "evaluate_signals e now s =
     (let (nb, s) = new_beneficiary e s;
          ha = high_amount e s;
          (hv, s) = high_velocity e now s;
          (cs, s) = credential_stuffing e now s;
          (dt, s) = distinct_targets e now s
      in (nb @ ha @ hv @ cs @ dt, s))"

definition tracker_version :: string where
  "tracker_version = ''signal-engine-0.1.0''"

definition record_from_signal ::
    "string \<Rightarrow> signal \<Rightarrow> string \<Rightarrow> string \<Rightarrow> string option \<Rightarrow> u64 \<Rightarrow> string \<Rightarrow> signal_record" where
  "record_from_signal ulid s tenant ev lc now version = \<lparr>
     sig_signal_id = ''sig_'' @ ulid, sig_tenant_id = tenant, sig_kind = s_kind s,
     sig_confidence = s_confidence s, sig_value = s_value s, sig_threshold = s_threshold s,
     sig_timestamp_ms = now, sig_event_id = ev, sig_lifecycle_id = lc, sig_tracker_version = version\<rparr>"

section \<open>Histories of the engine\<close>

definition signals_after :: "signal_engine_config \<Rightarrow> (event \<times> u64) list \<Rightarrow> signal_engine" where
  "signals_after c hs = fold (\<lambda>(e, now) s. snd (evaluate_signals e now s)) hs (signal_engine_new c)"

text \<open>What each tracker sees of a history.\<close>

definition velocity_inputs :: "(event \<times> u64) list \<Rightarrow> (string \<times> u64) list" where
  "velocity_inputs hs = map (\<lambda>(e, now). (subject_of e, now)) hs"

definition failed_inputs :: "credential_stuffing_config \<Rightarrow> (event \<times> u64) list \<Rightarrow> (string \<times> u64) list" where
  "failed_inputs c hs = velocity_inputs (filter (\<lambda>(e, now). qualifies c e) hs)"

definition target_inputs :: "(event \<times> u64) list \<Rightarrow> (string \<times> string \<times> u64) list" where
  "target_inputs hs = map (\<lambda>(e, now). (subject_of e, the (beneficiary_id e), now))
     (filter (\<lambda>(e, now). beneficiary_id e \<noteq> None) hs)"

definition known_after :: "(event \<times> u64) list \<Rightarrow> string set" where
  "known_after hs = {k. \<exists>(e, now) \<in> set hs. known_key e = Some k}"

definition fired :: "signal list \<Rightarrow> signal_kind \<Rightarrow> bool" where
  "fired ss k \<longleftrightarrow> list_ex (\<lambda>s. s_kind s = k) ss"

lemma fired_append [simp]: "fired (xs @ ys) k \<longleftrightarrow> fired xs k \<or> fired ys k"
  by (simp add: fired_def)

lemma fired_Nil [simp]: "\<not> fired [] k"
  by (simp add: fired_def)

lemma fired_Cons [simp]: "fired (x # xs) k \<longleftrightarrow> s_kind x = k \<or> fired xs k"
  by (simp add: fired_def)

text \<open>What each producer fires and how it moves the engine.\<close>

lemma fired_producer:
  "fired (fst (new_beneficiary e s)) k \<longleftrightarrow> k = NewBeneficiary \<and> (\<exists>x. known_key e = Some x \<and> x \<notin> se_known s)"
  "fired (high_amount e s) k \<longleftrightarrow> k = HighAmount \<and>
     (\<exists>a. Option.bind (ev_data e) (\<lambda>d. extract_amount d (amount_field (se_config s))) = Some a \<and>
          flt_ge a (high_amount_floor (se_config s)))"
  "fired (fst (high_velocity e now s)) k \<longleftrightarrow> k = HighVelocity \<and>
     fst (v_observe (subject_of e) now (se_velocity s)) \<noteq> None"
  "fired (fst (credential_stuffing e now s)) k \<longleftrightarrow> k = CredentialStuffingPattern \<and>
     qualifies (sc_credential_stuffing (se_config s)) e \<and>
     fst (v_observe (subject_of e) now (se_credstuff s)) \<noteq> None"
  "fired (fst (distinct_targets e now s)) k \<longleftrightarrow> k = DistinctTargets \<and>
     (\<exists>y. beneficiary_id e = Some y \<and> fst (t_observe (subject_of e) y now (se_targets s)) \<noteq> None)"
  subgoal by (cases "Option.bind (resource e) rr_id") (auto simp: new_beneficiary_def known_key_def Let_def)
  subgoal by (cases "Option.bind (ev_data e) (\<lambda>d. extract_amount d (amount_field (se_config s)))")
    (auto simp: high_amount_def)
  subgoal by (cases "fst (v_observe (subject_of e) now (se_velocity s))")
    (auto simp: high_velocity_def Let_def split_def)
  subgoal by (cases "fst (v_observe (subject_of e) now (se_credstuff s))")
    (auto simp: credential_stuffing_def Let_def split_def)
  subgoal by (cases "beneficiary_id e"; cases "fst (t_observe (subject_of e) (the (beneficiary_id e)) now (se_targets s))")
    (auto simp: distinct_targets_def Let_def split_def)
  done

lemma snd_producer:
  "snd (new_beneficiary e s) = s\<lparr>se_known := (case known_key e of None \<Rightarrow> se_known s | Some k \<Rightarrow> insert k (se_known s))\<rparr>"
  "snd (high_velocity e now s) = s\<lparr>se_velocity := snd (v_observe (subject_of e) now (se_velocity s))\<rparr>"
  "snd (credential_stuffing e now s) = s\<lparr>se_credstuff := (if qualifies (sc_credential_stuffing (se_config s)) e
     then snd (v_observe (subject_of e) now (se_credstuff s)) else se_credstuff s)\<rparr>"
  "snd (distinct_targets e now s) = s\<lparr>se_targets := (case beneficiary_id e of None \<Rightarrow> se_targets s
     | Some y \<Rightarrow> snd (t_observe (subject_of e) y now (se_targets s)))\<rparr>"
  subgoal by (cases "Option.bind (resource e) rr_id")
    (simp_all add: new_beneficiary_def known_key_def Let_def insert_absorb)
  subgoal by (simp add: high_velocity_def Let_def split_def)
  subgoal by (simp add: credential_stuffing_def Let_def split_def)
  subgoal by (cases "beneficiary_id e") (simp_all add: distinct_targets_def Let_def split_def)
  done

lemma evaluate_state:
  "snd (evaluate_signals e now s) = s\<lparr>
     se_known := (case known_key e of None \<Rightarrow> se_known s | Some k \<Rightarrow> insert k (se_known s)),
     se_velocity := snd (v_observe (subject_of e) now (se_velocity s)),
     se_credstuff := (if qualifies (sc_credential_stuffing (se_config s)) e
        then snd (v_observe (subject_of e) now (se_credstuff s)) else se_credstuff s),
     se_targets := (case beneficiary_id e of None \<Rightarrow> se_targets s
        | Some y \<Rightarrow> snd (t_observe (subject_of e) y now (se_targets s)))\<rparr>"
  by (cases "beneficiary_id e") (simp_all add: evaluate_signals_def split_def Let_def snd_producer)

lemma evaluate_kinds:
  "fired (fst (evaluate_signals e now s)) NewBeneficiary \<longleftrightarrow> (\<exists>k. known_key e = Some k \<and> k \<notin> se_known s)"
  "fired (fst (evaluate_signals e now s)) HighAmount \<longleftrightarrow>
     (\<exists>a. Option.bind (ev_data e) (\<lambda>d. extract_amount d (amount_field (se_config s))) = Some a \<and>
          flt_ge a (high_amount_floor (se_config s)))"
  "fired (fst (evaluate_signals e now s)) HighVelocity \<longleftrightarrow>
     fst (v_observe (subject_of e) now (se_velocity s)) \<noteq> None"
  "fired (fst (evaluate_signals e now s)) CredentialStuffingPattern \<longleftrightarrow>
     qualifies (sc_credential_stuffing (se_config s)) e \<and>
     fst (v_observe (subject_of e) now (se_credstuff s)) \<noteq> None"
  "fired (fst (evaluate_signals e now s)) DistinctTargets \<longleftrightarrow>
     (\<exists>y. beneficiary_id e = Some y \<and> fst (t_observe (subject_of e) y now (se_targets s)) \<noteq> None)"
  by (simp_all add: evaluate_signals_def split_def Let_def fired_producer snd_producer)

end
