(* ===== verification/Signal_Props.thy ===== *)
theory Signal_Props
  imports Signals
begin

text \<open>
  The signal engine over whole histories: its trackers hold exactly the projections of the
  events evaluated so far, and every kind of signal fires exactly when the history says so.
\<close>

lemma signals_after_snoc: "signals_after c (hs @ [(e, now)]) = snd (evaluate_signals e now (signals_after c hs))"
  by (simp add: signals_after_def)

lemma inputs_snoc [simp]:
  "velocity_inputs (hs @ [(e, now)]) = velocity_inputs hs @ [(subject_of e, now)]"
  "failed_inputs q (hs @ [(e, now)]) = failed_inputs q hs @ (if qualifies q e then [(subject_of e, now)] else [])"
  "target_inputs (hs @ [(e, now)]) = target_inputs hs @
     (case beneficiary_id e of None \<Rightarrow> [] | Some y \<Rightarrow> [(subject_of e, y, now)])"
  "known_after (hs @ [(e, now)]) = (case known_key e of None \<Rightarrow> known_after hs | Some k \<Rightarrow> insert k (known_after hs))"
  by (auto simp: velocity_inputs_def failed_inputs_def target_inputs_def known_after_def split: option.split)

lemma inputs_Nil [simp]:
  "velocity_inputs [] = []" "failed_inputs q [] = []" "target_inputs [] = []" "known_after [] = {}"
  by (simp_all add: velocity_inputs_def failed_inputs_def target_inputs_def known_after_def)

lemma history_Nil [simp]: "v_history c [] = velocity_new c" "t_history d [] = target_new d"
  by (simp_all add: v_history_def t_history_def)

lemma signals_after_eq:
  "signals_after c hs = \<lparr>se_config = c, se_known = known_after hs,
     se_velocity = v_history (sc_velocity c) (velocity_inputs hs),
     se_targets = t_history (sc_targets c) (target_inputs hs),
     se_credstuff = v_history (as_velocity (sc_credential_stuffing c))
       (failed_inputs (sc_credential_stuffing c) hs)\<rparr>"
proof (induction hs rule: rev_induct)
  case Nil
  then show ?case by (simp add: signals_after_def signal_engine_new_def)
next
  case (snoc h hs)
  obtain e now where h: "h = (e, now)" by (cases h)
  show ?case unfolding h signals_after_snoc snoc evaluate_state
    by (auto simp: v_history_snoc t_history_snoc split: option.split)
qed

section \<open>When signals fire\<close>

text \<open>The events of a history inside the window that ends at \<open>now\<close>.\<close>

definition in_window :: "u64 \<Rightarrow> u64 \<Rightarrow> (event \<times> u64) list \<Rightarrow> (event \<times> u64) list" where
  "in_window w now hs = filter (\<lambda>h. sat_sub now w \<le> snd h) hs"

definition same_subject :: "event \<Rightarrow> (event \<times> u64) list \<Rightarrow> (event \<times> u64) list" where
  "same_subject e hs = filter (\<lambda>h. subject_of (fst h) = subject_of e) hs"

definition targets_of :: "(event \<times> u64) list \<Rightarrow> string set" where
  "targets_of hs = {y. \<exists>h \<in> set hs. beneficiary_id (fst h) = Some y}"

definition subjects_of :: "(event \<times> u64) list \<Rightarrow> string set" where
  "subjects_of hs = (\<lambda>h. subject_of (fst h)) ` set hs"

text \<open>The engine is the projection of its history: after any sequence of evaluations the known
  resources are the keys of the events seen, and each tracker is in the state it reaches from
  its own part of the history alone: all events by subject, the failed-authentication events
  by subject, the events with a beneficiary by subject and target.\<close>

theorem signals_after_projections:
  "signals_after c hs = \<lparr>se_config = c, se_known = known_after hs,
     se_velocity = v_history (sc_velocity c) (velocity_inputs hs),
     se_targets = t_history (sc_targets c) (target_inputs hs),
     se_credstuff = v_history (as_velocity (sc_credential_stuffing c))
       (failed_inputs (sc_credential_stuffing c) hs)\<rparr>"
  by (rule signals_after_eq)

lemma sorted_map_filter: "sorted (map f xs) \<Longrightarrow> sorted (map f (filter P xs))"
  by (induction xs) (auto simp: sorted_wrt_append)

lemma of_subject_map: "of_subject x (map g hs) = map (\<lambda>h. snd (g h)) (filter (\<lambda>h. fst (g h) = x) hs)"
  by (simp add: of_subject_def filter_map o_def)

lemma velocity_inputs_eq: "velocity_inputs hs = map (\<lambda>h. (subject_of (fst h), snd h)) hs"
  by (simp add: velocity_inputs_def split_def)

lemma failed_inputs_eq: "failed_inputs q hs = velocity_inputs (filter (\<lambda>h. qualifies q (fst h)) hs)"
  by (simp add: failed_inputs_def split_def)

lemma target_inputs_eq:
  "target_inputs hs = map (\<lambda>h. (subject_of (fst h), the (beneficiary_id (fst h)), snd h))
     (filter (\<lambda>h. beneficiary_id (fst h) \<noteq> None) hs)"
  by (simp add: target_inputs_def split_def)

lemma targets_of_simps [simp]:
  "targets_of [] = {}" "targets_of (h # xs) = set_option (beneficiary_id (fst h)) \<union> targets_of xs"
  by (auto simp: targets_of_def)

lemma finite_targets_of: "finite (targets_of xs)"
  by (induction xs) auto

lemma target_window:
  "fst ` set (filter (\<lambda>p. k \<le> snd p) (map (\<lambda>h. (the (beneficiary_id (fst h)), snd h))
     (filter (\<lambda>h. beneficiary_id (fst h) \<noteq> None \<and> subject_of (fst h) = x) xs))) =
   targets_of (filter (\<lambda>h. k \<le> snd h) (filter (\<lambda>h. subject_of (fst h) = x) xs))"
  by (induction xs) (auto simp del: set_filter set_map)

lemma velocity_report:
  assumes "card (set (map fst (hs @ [(x, now)]))) \<le> v_max_subjects c"
    "\<And>s. sorted (of_subject s (hs @ [(x, now)]))" "length hs < 2 ^ 32 - 1"
  shows "fst (v_observe x now (v_history c hs)) \<noteq> None \<longleftrightarrow> unat (v_threshold c) <
    length (filter (\<lambda>ts. sat_sub now (v_window_ms c) \<le> ts) (of_subject x (hs @ [(x, now)])))"
  using v_history_report [OF assms] by simp

lemma targets_report:
  assumes "card (set (map fst (hs @ [(x, y, now)]))) \<le> t_max_subjects c"
    "\<And>s. sorted (map snd (of_subject s (hs @ [(x, y, now)])))"
    "\<And>s. card (fst ` set (of_subject s (hs @ [(x, y, now)]))) \<le> t_max_targets_per_subject c"
    "length hs < 2 ^ 32 - 1"
  shows "fst (t_observe x y now (t_history c hs)) \<noteq> None \<longleftrightarrow> unat (t_threshold c) <
    card (fst ` set (filter (\<lambda>p. sat_sub now (t_window_ms c) \<le> snd p) (of_subject x (hs @ [(x, y, now)]))))"
  using t_history_report [OF assms] by simp

lemma velocity_fires:
  assumes "sorted (map snd (hs @ [(e, now)]))" "card (subjects_of (hs @ [(e, now)])) \<le> v_max_subjects c"
    "length hs < 2 ^ 32 - 1"
  shows "fst (v_observe (subject_of e) now (v_history c (velocity_inputs hs))) \<noteq> None \<longleftrightarrow>
    unat (v_threshold c) < length (in_window (v_window_ms c) now (same_subject e (hs @ [(e, now)])))"
proof -
  have s: "sorted (of_subject x (velocity_inputs (hs @ [(e, now)])))" for x
    using sorted_map_filter [OF assms(1)] by (simp only: velocity_inputs_eq of_subject_map fst_conv snd_conv)
  have f: "card (set (map fst (velocity_inputs (hs @ [(e, now)])))) \<le> v_max_subjects c"
    using assms(2) by (simp only: velocity_inputs_eq subjects_of_def set_map map_map image_image o_def fst_conv)
  have n: "filter (\<lambda>ts. sat_sub now (v_window_ms c) \<le> ts) (of_subject (subject_of e) (velocity_inputs (hs @ [(e, now)])))
      = map snd (in_window (v_window_ms c) now (same_subject e (hs @ [(e, now)])))"
    by (simp only: velocity_inputs_eq of_subject_map fst_conv snd_conv filter_map o_def in_window_def same_subject_def)
  have l: "length (velocity_inputs hs) < 2 ^ 32 - 1" using assms(3) by (simp add: velocity_inputs_eq)
  show ?thesis
    using velocity_report [OF f [unfolded inputs_snoc] s [unfolded inputs_snoc] l]
    unfolding inputs_snoc [symmetric] n length_map by simp
qed

lemma targets_fire:
  assumes "sorted (map snd (hs @ [(e, now)]))" "beneficiary_id e = Some y"
    "card (subjects_of (hs @ [(e, now)])) \<le> t_max_subjects c"
    "\<And>e'. card (targets_of (same_subject e' (hs @ [(e, now)]))) \<le> t_max_targets_per_subject c"
    "length hs < 2 ^ 32 - 1"
  shows "fst (t_observe (subject_of e) y now (t_history c (target_inputs hs))) \<noteq> None \<longleftrightarrow>
    unat (t_threshold c) < card (targets_of (in_window (t_window_ms c) now (same_subject e (hs @ [(e, now)]))))"
proof -
  let ?hs = "hs @ [(e, now)]"
  have i: "target_inputs ?hs = target_inputs hs @ [(subject_of e, y, now)]" using assms(2) by simp
  have o: "of_subject x (target_inputs ?hs) = map (\<lambda>h. (the (beneficiary_id (fst h)), snd h))
      (filter (\<lambda>h. beneficiary_id (fst h) \<noteq> None \<and> subject_of (fst h) = x) ?hs)" for x
    by (simp only: target_inputs_eq of_subject_map filter_filter fst_conv snd_conv conj_commute)
  have s: "sorted (map snd (of_subject x (target_inputs ?hs)))" for x
    unfolding o map_map o_def snd_conv by (rule sorted_map_filter [OF assms(1)])
  have "set (map fst (target_inputs ?hs)) \<subseteq> subjects_of ?hs"
    by (auto simp: target_inputs_eq subjects_of_def split: if_splits)
  then have f: "card (set (map fst (target_inputs ?hs))) \<le> t_max_subjects c"
    by (rule le_trans [OF card_mono assms(3), rotated]) (simp add: subjects_of_def)
  have m: "card (fst ` set (of_subject x (target_inputs ?hs))) \<le> t_max_targets_per_subject c" for x
  proof (cases "\<exists>e'. subject_of e' = x")
    case True
    then obtain e' where x: "x = subject_of e'" by blast
    have "fst ` set (of_subject x (target_inputs ?hs)) \<subseteq> targets_of (same_subject e' ?hs)"
      unfolding o x by (auto simp: targets_of_def same_subject_def)
    then show ?thesis by (rule le_trans [OF card_mono [OF finite_targets_of] assms(4)])
  next
    case False
    then have "of_subject x (target_inputs ?hs) = []" unfolding o by (simp add: filter_empty_conv)
    then show ?thesis by simp
  qed
  have n: "fst ` set (filter (\<lambda>p. sat_sub now (t_window_ms c) \<le> snd p) (of_subject (subject_of e) (target_inputs ?hs)))
      = targets_of (in_window (t_window_ms c) now (same_subject e ?hs))"
    unfolding o in_window_def same_subject_def by (rule target_window)
  have l: "length (target_inputs hs) < 2 ^ 32 - 1"
    using assms(5) le_less_trans [OF length_filter_le] by (simp add: target_inputs_eq)
  show ?thesis using targets_report [OF f [unfolded i] s [unfolded i] m [unfolded i] l]
    unfolding i [symmetric] n by simp
qed

lemma failed_fires:
  assumes "sorted (map snd (hs @ [(e, now)]))"
    "card (subjects_of (hs @ [(e, now)])) \<le> cs_max_subjects (sc_credential_stuffing c)" "length hs < 2 ^ 32 - 1"
  shows "fired (fst (evaluate_signals e now (signals_after c hs))) CredentialStuffingPattern \<longleftrightarrow>
    qualifies (sc_credential_stuffing c) e \<and> unat (cs_threshold (sc_credential_stuffing c)) <
      length (in_window (cs_window_ms (sc_credential_stuffing c)) now
        (filter (\<lambda>h. qualifies (sc_credential_stuffing c) (fst h)) (same_subject e (hs @ [(e, now)]))))"
proof (cases "qualifies (sc_credential_stuffing c) e")
  case True
  let ?q = "sc_credential_stuffing c"
  let ?fs = "filter (\<lambda>h. qualifies ?q (fst h)) hs"
  have eq: "?fs @ [(e, now)] = filter (\<lambda>h. qualifies ?q (fst h)) (hs @ [(e, now)])" using True by simp
  have "subjects_of (?fs @ [(e, now)]) \<subseteq> subjects_of (hs @ [(e, now)])"
    by (auto simp: subjects_of_def)
  then have "card (subjects_of (?fs @ [(e, now)])) \<le> card (subjects_of (hs @ [(e, now)]))"
    by (rule card_mono [rotated]) (simp add: subjects_of_def)
  then have cd: "card (subjects_of (?fs @ [(e, now)])) \<le> v_max_subjects (as_velocity ?q)"
    using assms(2) by (simp add: as_velocity_def)
  have "sorted (map snd (?fs @ [(e, now)]))" unfolding eq by (rule sorted_map_filter [OF assms(1)])
  from velocity_fires [OF this cd le_less_trans [OF length_filter_le assms(3)]]
  have v: "fst (v_observe (subject_of e) now (v_history (as_velocity ?q) (velocity_inputs ?fs))) \<noteq> None \<longleftrightarrow>
      unat (cs_threshold ?q) < length (in_window (cs_window_ms ?q) now (same_subject e (?fs @ [(e, now)])))"
    by (simp add: as_velocity_def)
  have comm: "same_subject e (filter P xs) = filter P (same_subject e xs)" for P xs
    by (simp add: same_subject_def conj_commute)
  show ?thesis
    using v True unfolding eq comm evaluate_kinds signals_after_eq signal_engine.select_convs failed_inputs_eq
    by simp
qed (simp add: evaluate_kinds signals_after_eq)

text \<open>The amount a JSON value stands for, and the order of the extended numbers: at least the floor includes the floor, and
  NaN reaches nothing.\<close>

fun amount_of :: "json \<Rightarrow> flt option" where
  "amount_of (JInt n) = Some (round64 (of_int n))"
| "amount_of (JNumber x) = Some x"
| "amount_of (JString t) = f64_parse t"
| "amount_of _ = None"

fun reaches :: "flt \<Rightarrow> flt \<Rightarrow> bool" where
  "reaches (Fin x) (Fin y) = (x = y \<or> y < x)"
| "reaches PosInf y = (y \<noteq> NaN)"
| "reaches x NegInf = (x \<noteq> NaN)"
| "reaches _ _ = False"

lemma reaches_ge: "flt_ge x y = reaches x y"
  by (cases x; cases y) (auto simp: flt_ge_def flt_le_def)

lemma extract_amount_of: "extract_amount d f = Option.bind (json_get d f) amount_of"
  by (auto simp: extract_amount_def split: option.split json.split)

text \<open>Claim C29 (signals fire exactly when the history says so): with a wall clock that does not run backwards
  and no more subjects and targets than the trackers hold, a resource is new exactly when no earlier event
  of the history has its key; an amount is high exactly when the configured field of the event is a number
  or the text of one that is at least the floor; and the rate, failed-authentication and fan-out signals fire
  exactly when the number of events (or of distinct beneficiaries) of the subject in their
  window, this event included, exceeds their threshold.\<close>

theorem signals_fire_exactly:
  assumes "sorted (map snd (hs @ [(e, now)]))" "length hs < 2 ^ 32 - 1"
    and "card (subjects_of (hs @ [(e, now)])) \<le> v_max_subjects (sc_velocity c)"
    and "card (subjects_of (hs @ [(e, now)])) \<le> cs_max_subjects (sc_credential_stuffing c)"
    and "card (subjects_of (hs @ [(e, now)])) \<le> t_max_subjects (sc_targets c)"
    and "\<And>e'. card (targets_of (same_subject e' (hs @ [(e, now)]))) \<le> t_max_targets_per_subject (sc_targets c)"
  defines "hs' \<equiv> same_subject e (hs @ [(e, now)])"
    and "q \<equiv> sc_credential_stuffing c"
    and "ss \<equiv> fst (evaluate_signals e now (signals_after c hs))"
  shows "(fired ss NewBeneficiary \<longleftrightarrow> known_key e \<noteq> None \<and> list_all (\<lambda>h. known_key (fst h) \<noteq> known_key e) hs) \<and>
    (fired ss HighAmount \<longleftrightarrow> (\<exists>d j a. ev_data e = Some d \<and> json_get d (amount_field c) = Some j \<and> amount_of j = Some a \<and>
       reaches a (high_amount_floor c))) \<and>
    (fired ss HighVelocity \<longleftrightarrow>
       unat (v_threshold (sc_velocity c)) < length (in_window (v_window_ms (sc_velocity c)) now hs')) \<and>
    (fired ss CredentialStuffingPattern \<longleftrightarrow> qualifies q e \<and>
       unat (cs_threshold q) < length (in_window (cs_window_ms q) now (filter (\<lambda>h. qualifies q (fst h)) hs'))) \<and>
    (fired ss DistinctTargets \<longleftrightarrow> beneficiary_id e \<noteq> None \<and>
       unat (t_threshold (sc_targets c)) < card (targets_of (in_window (t_window_ms (sc_targets c)) now hs')))"
proof (intro conjI)
  show "fired ss NewBeneficiary \<longleftrightarrow> known_key e \<noteq> None \<and> list_all (\<lambda>h. known_key (fst h) \<noteq> known_key e) hs"
    unfolding ss_def evaluate_kinds signals_after_eq
    by (auto simp: known_after_def list_all_iff split_def)
  show "fired ss HighAmount \<longleftrightarrow> (\<exists>d j a. ev_data e = Some d \<and> json_get d (amount_field c) = Some j \<and> amount_of j = Some a \<and>
       reaches a (high_amount_floor c))"
    unfolding ss_def evaluate_kinds signals_after_eq
    by (auto simp: extract_amount_of reaches_ge bind_eq_Some_conv)
  show "fired ss HighVelocity \<longleftrightarrow>
       unat (v_threshold (sc_velocity c)) < length (in_window (v_window_ms (sc_velocity c)) now hs')"
    unfolding ss_def hs'_def evaluate_kinds signals_after_eq signal_engine.select_convs
    by (rule velocity_fires [OF assms(1,3,2)])
  show "fired ss CredentialStuffingPattern \<longleftrightarrow> qualifies q e \<and>
       unat (cs_threshold q) < length (in_window (cs_window_ms q) now (filter (\<lambda>h. qualifies q (fst h)) hs'))"
    unfolding ss_def hs'_def q_def by (rule failed_fires [OF assms(1,4,2)])
  show "fired ss DistinctTargets \<longleftrightarrow> beneficiary_id e \<noteq> None \<and>
       unat (t_threshold (sc_targets c)) < card (targets_of (in_window (t_window_ms (sc_targets c)) now hs'))"
  proof (cases "beneficiary_id e")
    case (Some y)
    then show ?thesis
      unfolding ss_def hs'_def evaluate_kinds signals_after_eq signal_engine.select_convs
      using targets_fire [OF assms(1) Some assms(5,6,2)] by simp
  qed (simp add: ss_def evaluate_kinds)
qed

definition tight_config :: signal_engine_config where
  "tight_config = signal_config_default\<lparr>
     sc_velocity := \<lparr>v_window_ms = 60, v_threshold = 1, v_max_subjects = 3\<rparr>,
     sc_credential_stuffing := credential_stuffing_default\<lparr>cs_window_ms := 60, cs_threshold := 2\<rparr>\<rparr>"

definition login_event :: "string \<Rightarrow> string \<Rightarrow> string \<Rightarrow> event" where
  "login_event eid tn r = (demo_event eid ''login.fail'' tn)
     \<lparr>resource := Some \<lparr>rr_id = Some r, rr_type = ''account'', rr_namespace = None\<rparr>\<rparr>"

lemma login_event_simps [simp]:
  "subject_of (login_event i t r) = t" "beneficiary_id (login_event i t r) = None"
  "known_key (login_event i t r) = Some (t @ '':'' @ r)" "event_type (login_event i t r) = ''login.fail''"
  by (simp_all add: login_event_def demo_event_def subject_of_def beneficiary_id_def known_key_def)

lemma unat_2_u32: "n \<le> 2 \<Longrightarrow> n \<le> unat (2 :: u32)"
  by simp

lemma signals_fire_exactly_witness:
  "(let ss = fst (evaluate_signals ((login_event ''e2'' ''t'' ''b'')\<lparr>ev_data := Some (JObject [(''amount'', JNumber (Fin 1000))])\<rparr>) 50
      (signals_after tight_config [(login_event ''e1'' ''t'' ''a'', 10)])) in
    fired ss NewBeneficiary \<and> fired ss HighAmount \<and> fired ss HighVelocity \<and>
    \<not> fired ss CredentialStuffingPattern \<and> \<not> fired ss DistinctTargets)"
proof -
  let ?e = "(login_event ''e2'' ''t'' ''b'')\<lparr>ev_data := Some (JObject [(''amount'', JNumber (Fin 1000))])\<rparr>"
  have e: "subject_of ?e = ''t''" "beneficiary_id ?e = None" "known_key ?e = Some ''t:b''" "event_type ?e = ''login.fail''"
    by (simp_all add: login_event_def demo_event_def subject_of_def beneficiary_id_def known_key_def)
  let ?hs = "[(login_event ''e1'' ''t'' ''a'', 10 :: u64)]"
  have s: "subjects_of (?hs @ [(?e, 50)]) = {''t''}" "\<And>e'. targets_of (same_subject e' (?hs @ [(?e, 50)])) = {}"
  proof -
    show "subjects_of (?hs @ [(?e, 50)]) = {''t''}" by (simp add: subjects_of_def e)
    have "\<forall>h \<in> set (?hs @ [(?e, 50)]). beneficiary_id (fst h) = None" using e(2) by simp
    then show "targets_of (same_subject e' (?hs @ [(?e, 50)])) = {}" for e'
      unfolding targets_of_def same_subject_def by auto
  qed
  have w: "same_subject ?e (?hs @ [(?e, 50)]) = ?hs @ [(?e, 50)]" by (simp add: same_subject_def e)
  have c: "v_max_subjects (sc_velocity tight_config) = 3" "v_threshold (sc_velocity tight_config) = 1"
    "v_window_ms (sc_velocity tight_config) = 60" "cs_max_subjects (sc_credential_stuffing tight_config) = 10000"
    "cs_threshold (sc_credential_stuffing tight_config) = 2" "t_max_subjects (sc_targets tight_config) = 10000"
    "amount_field tight_config = ''amount''" "high_amount_floor tight_config = Fin 1000"
    by (simp_all add: tight_config_def signal_config_default_def target_config_default_def credential_stuffing_default_def)
  have few: "length (in_window x 50 (filter P (?hs @ [(?e, 50)]))) \<le> 2" for x P
    using length_filter_le [of "\<lambda>h. sat_sub 50 x \<le> snd h" "filter P (?hs @ [(?e, 50)])"]
      length_filter_le [of P "?hs @ [(?e, 50)]"] by (simp add: in_window_def)
  have two: "unat (1 :: u32) < length (in_window 60 50 (?hs @ [(?e, 50)]))" by (simp add: in_window_def sat_sub_def)
  have new: "known_key ?e \<noteq> None \<and> list_all (\<lambda>h. known_key (fst h) \<noteq> known_key ?e) ?hs" by (simp add: e)
  have amount: "\<exists>d j a. ev_data ?e = Some d \<and> json_get d ''amount'' = Some j \<and> amount_of j = Some a \<and> reaches a (Fin 1000)"
    by simp
  have small: "card {''t''} \<le> 3" "card {''t''} \<le> 10000" "card ({} :: string set) \<le> n" "sorted (map snd (?hs @ [(?e, 50)]))"
    "length ?hs < 2 ^ 32 - 1" for n
    by simp_all
  from signals_fire_exactly [of ?hs ?e 50 tight_config, unfolded s w c, OF small(4,5,1,2,2,3)]
  show ?thesis unfolding Let_def using two new amount few e(2) by (meson leD unat_2_u32)
qed

section \<open>Tenants\<close>

text \<open>The key of a known resource joins tenant and resource with a colon, which either may contain:
  the first use of a resource by one tenant can be hidden by another tenant's.\<close>

lemma known_key_collides:
  "\<not> fired (fst (evaluate_signals (login_event ''e2'' ''a:b'' ''c'') 2
       (signals_after c [(login_event ''e1'' ''a'' ''b:c'', 1)]))) NewBeneficiary"
  unfolding evaluate_kinds signals_after_eq by (simp add: known_after_def)

text \<open>The subject of the rate signals is the actor's identifier without its tenant: events of one
  tenant count against the same identifier of another.\<close>

lemma subject_ignores_tenant:
  "actor e = Some a \<Longrightarrow> ar_id a = Some i \<Longrightarrow> subject_of (e\<lparr>tenant_id := t\<rparr>) = subject_of e"
  by (simp add: subject_of_def)

end
