(* ===== verification/Policy.thy ===== *)
theory Policy
  imports Signals
begin

text \<open>
  \<^verbatim>\<open>daemon/crates/athar-detection/src/policy.rs\<close> and the rule configuration of \<^verbatim>\<open>config.rs\<close>: four
  rules, tried in order, each switched and set to a mode by the configuration.  The engine
  holds its configuration behind a lock, so a reload is a replacement of the value.
\<close>

datatype policy_mode = PmObserve | PmChallenge | PmEnforce

fun mode_str :: "policy_mode \<Rightarrow> string" where
  "mode_str PmObserve = ''OBSERVE''"
| "mode_str PmChallenge = ''CHALLENGE''"
| "mode_str PmEnforce = ''ENFORCE''"

datatype action = Allow | Challenge | Restrict | Block | Alert

fun action_str :: "action \<Rightarrow> string" where
  "action_str Allow = ''ALLOW''"
| "action_str Challenge = ''CHALLENGE''"
| "action_str Restrict = ''RESTRICT''"
| "action_str Block = ''BLOCK''"
| "action_str Alert = ''ALERT''"

datatype fail_mode = FmOpen | FmClosed

fun fail_mode_str :: "fail_mode \<Rightarrow> string" where
  "fail_mode_str FmOpen = ''OPEN''"
| "fail_mode_str FmClosed = ''CLOSED''"

record policy_rule =
  pr_enabled :: bool
  pr_mode :: policy_mode
  pr_fail_mode :: fail_mode

definition policy_rule_default :: policy_rule where
  "policy_rule_default = \<lparr>pr_enabled = True, pr_mode = PmObserve, pr_fail_mode = FmOpen\<rparr>"

record policy_config =
  pc_high_amount_new_beneficiary :: policy_rule
  pc_high_velocity :: policy_rule
  pc_distinct_targets :: policy_rule
  pc_credential_stuffing :: policy_rule

definition policy_config_default :: policy_config where
  "policy_config_default = \<lparr>pc_high_amount_new_beneficiary = policy_rule_default,
     pc_high_velocity = policy_rule_default, pc_distinct_targets = policy_rule_default,
     pc_credential_stuffing = policy_rule_default\<rparr>"

record policy_decision =
  pd_policy_id :: string
  pd_policy_version :: u32
  pd_mode :: policy_mode
  pd_matched :: bool
  pd_action :: action
  pd_reason_codes :: "string list"

record policy_engine =
  pe_config :: policy_config

definition policy_engine_new :: "policy_config \<Rightarrow> policy_engine" where
  "policy_engine_new c = \<lparr>pe_config = c\<rparr>"

definition policy_reload :: "policy_config \<Rightarrow> policy_engine \<Rightarrow> policy_engine" where
  "policy_reload c p = p\<lparr>pe_config := c\<rparr>"

definition policy_snapshot :: "policy_engine \<Rightarrow> policy_config" where
  "policy_snapshot p = pe_config p"

definition policy_evaluate :: "policy_engine \<Rightarrow> signal list \<Rightarrow> policy_decision" where
  "policy_evaluate p signals =
     (let has_new_beneficiary = list_ex (\<lambda>s. s_kind s = NewBeneficiary) signals;
          has_high_amount = list_ex (\<lambda>s. s_kind s = HighAmount) signals;
          has_velocity = list_ex (\<lambda>s. s_kind s = HighVelocity) signals;
          has_distinct = list_ex (\<lambda>s. s_kind s = DistinctTargets) signals;
          has_credstuff = list_ex (\<lambda>s. s_kind s = CredentialStuffingPattern) signals;
          config = pe_config p;
          rule_a = pc_high_amount_new_beneficiary config;
          rule_b = pc_high_velocity config;
          rule_c = pc_distinct_targets config;
          rule_d = pc_credential_stuffing config
      in if pr_enabled rule_a \<and> has_new_beneficiary \<and> has_high_amount then
           \<lparr>pd_policy_id = ''pol_new_beneficiary_high_amount'', pd_policy_version = 1, pd_mode = pr_mode rule_a,
            pd_matched = True, pd_action = Challenge, pd_reason_codes = [''TARGET_NEW_BENEFICIARY_HIGH_AMOUNT'']\<rparr>
         else if pr_enabled rule_b \<and> has_velocity then
           \<lparr>pd_policy_id = ''pol_high_velocity'', pd_policy_version = 1, pd_mode = pr_mode rule_b,
            pd_matched = True, pd_action = Challenge, pd_reason_codes = [''VELOCITY_HIGH_RATE'']\<rparr>
         else if pr_enabled rule_c \<and> has_distinct then
           \<lparr>pd_policy_id = ''pol_distinct_targets'', pd_policy_version = 1, pd_mode = pr_mode rule_c,
            pd_matched = True, pd_action = Challenge, pd_reason_codes = [''TARGET_DISTINCT_FANOUT'']\<rparr>
         else if pr_enabled rule_d \<and> has_credstuff then
           \<lparr>pd_policy_id = ''pol_credential_stuffing'', pd_policy_version = 1, pd_mode = pr_mode rule_d,
            pd_matched = True, pd_action = Challenge, pd_reason_codes = [''AUTH_CREDENTIAL_STUFFING'']\<rparr>
         else
           \<lparr>pd_policy_id = ''pol_default'', pd_policy_version = 1, pd_mode = PmObserve,
            pd_matched = False, pd_action = Allow, pd_reason_codes = []\<rparr>)"

section \<open>A table of rules\<close>

text \<open>The reference semantics: a rule names the kinds of signals it needs, and the first enabled
  rule of the table all of whose kinds were fired decides.\<close>

record rule_entry =
  re_id :: string
  re_needs :: "signal_kind set"
  re_rule :: policy_rule
  re_reason :: string

definition rule_table :: "policy_config \<Rightarrow> rule_entry list" where
  "rule_table c =
     [\<lparr>re_id = ''pol_new_beneficiary_high_amount'', re_needs = {NewBeneficiary, HighAmount},
       re_rule = pc_high_amount_new_beneficiary c, re_reason = ''TARGET_NEW_BENEFICIARY_HIGH_AMOUNT''\<rparr>,
      \<lparr>re_id = ''pol_high_velocity'', re_needs = {HighVelocity},
       re_rule = pc_high_velocity c, re_reason = ''VELOCITY_HIGH_RATE''\<rparr>,
      \<lparr>re_id = ''pol_distinct_targets'', re_needs = {DistinctTargets},
       re_rule = pc_distinct_targets c, re_reason = ''TARGET_DISTINCT_FANOUT''\<rparr>,
      \<lparr>re_id = ''pol_credential_stuffing'', re_needs = {CredentialStuffingPattern},
       re_rule = pc_credential_stuffing c, re_reason = ''AUTH_CREDENTIAL_STUFFING''\<rparr>]"

definition rule_matches :: "signal_kind set \<Rightarrow> rule_entry \<Rightarrow> bool" where
  "rule_matches ks r \<longleftrightarrow> pr_enabled (re_rule r) \<and> re_needs r \<subseteq> ks"

definition rule_decision :: "rule_entry option \<Rightarrow> policy_decision" where
  "rule_decision m = (case m of
      Some r \<Rightarrow> \<lparr>pd_policy_id = re_id r, pd_policy_version = 1, pd_mode = pr_mode (re_rule r),
                pd_matched = True, pd_action = Challenge, pd_reason_codes = [re_reason r]\<rparr>
    | None \<Rightarrow> \<lparr>pd_policy_id = ''pol_default'', pd_policy_version = 1, pd_mode = PmObserve,
                pd_matched = False, pd_action = Allow, pd_reason_codes = []\<rparr>)"

definition kinds :: "signal list \<Rightarrow> signal_kind set" where
  "kinds ss = s_kind ` set ss"

lemma fired_kinds: "fired ss k \<longleftrightarrow> k \<in> kinds ss"
  by (auto simp: fired_def kinds_def list_ex_iff)

lemma policy_unfold:
  "policy_evaluate p ss = rule_decision (find (rule_matches (kinds ss)) (rule_table (policy_snapshot p)))"
proof -
  have k: "list_ex (\<lambda>s. s_kind s = x) ss \<longleftrightarrow> x \<in> kinds ss" for x
    by (simp add: fired_kinds [symmetric] fired_def)
  show ?thesis
    by (simp add: policy_evaluate_def rule_table_def rule_matches_def rule_decision_def policy_snapshot_def k Let_def)
qed

lemma matched_find: "pd_matched (rule_decision (find P rs)) \<longleftrightarrow> list_ex P rs"
  by (induction rs) (auto simp: rule_decision_def)

text \<open>Claim C30 (first match wins): the decision is the one of the first enabled rule of the table whose kinds of
  signals all fired, and the default otherwise; order, number and contents of the signals do
  not matter.\<close>

theorem policy_first_match:
  "policy_evaluate p ss = rule_decision (find (rule_matches (kinds ss)) (rule_table (policy_snapshot p)))"
  by (rule policy_unfold)

lemma policy_matched_iff:
  "pd_matched (policy_evaluate p ss) \<longleftrightarrow> list_ex (rule_matches (kinds ss)) (rule_table (policy_snapshot p))"
  by (simp add: policy_unfold matched_find)

lemma policy_unmatched_allows: "\<not> pd_matched (policy_evaluate p ss) \<longleftrightarrow> pd_action (policy_evaluate p ss) = Allow"
  by (simp add: policy_unfold rule_decision_def split: option.split)

end
