(* ===== verification/Decision.thy ===== *)
theory Decision
  imports Policy
begin

text \<open>
  \<^verbatim>\<open>daemon/crates/athar-detection/src/decision.rs\<close>: the record of a decision and its generated
  explanation.  The fresh ULID is an argument.  The arrow that the explanation prints is its
  UTF-8 encoding, three bytes.
\<close>

record decision_subject =
  ds_lifecycle_id :: "string option"
  ds_event_id :: string
  ds_operation_id :: "string option"

record engine_versions =
  ver_detector :: string
  ver_policy :: string
  ver_resolver :: string

record decision_record =
  dr_decision_id :: string
  dr_timestamp_ms :: u64
  dr_tenant_id :: string
  dr_subject :: decision_subject
  dr_policies_evaluated :: "policy_decision list"
  dr_signals_used :: "signal_record list"
  dr_action :: action
  dr_reason_codes :: "string list"
  dr_mode :: policy_mode
  dr_fail_mode :: fail_mode
  dr_inputs_missing :: "string list"
  dr_coverage_gaps_overlapping :: "string list"
  dr_degradation_level :: string
  dr_latency_us :: u64
  dr_engine_versions :: engine_versions
  dr_explanation :: string

text \<open>\<open>[String]::join\<close>.\<close>

fun join :: "string \<Rightarrow> string list \<Rightarrow> string" where
  "join sep [] = []"
| "join sep [s] = s"
| "join sep (s # t # r) = s @ sep @ join sep (t # r)"

definition ARROW :: string where
  "ARROW = [char_of (226 :: nat), char_of (134 :: nat), char_of (146 :: nat)]"

definition signal_summary :: "signal_record \<Rightarrow> string" where
  "signal_summary s = kind_str (sig_kind s) @ ''='' @ sig_value s @ '' (conf '' @ float_fixed2 (sig_confidence s) @ '')''"

definition generate_explanation :: "policy_decision \<Rightarrow> signal_record list \<Rightarrow> string" where
  "generate_explanation p signals =
     (if \<not> pd_matched p then
        ''policy '' @ pd_policy_id p @ '':v'' @ u_str (pd_policy_version p) @
        '' did not match; action ALLOW ('' @ dec_str (length signals) @ '' signal(s) evaluated)''
      else
        ''policy '' @ pd_policy_id p @ '':v'' @ u_str (pd_policy_version p) @ '' matched in '' @
        mode_str (pd_mode p) @ '' mode '' @ ARROW @ '' '' @ action_str (pd_action p) @
        ''. Signals: ['' @ join '', '' (map signal_summary signals) @
        '']. Reason codes: ['' @ join '', '' (pd_reason_codes p) @ ''].'')"

definition decision_build ::
    "string \<Rightarrow> string \<Rightarrow> decision_subject \<Rightarrow> policy_decision \<Rightarrow> signal_record list \<Rightarrow> u64 \<Rightarrow> string \<Rightarrow> u64 \<Rightarrow> decision_record" where
  "decision_build ulid tenant subj policy signals now level latency = \<lparr>
     dr_decision_id = ''dec_'' @ ulid, dr_timestamp_ms = now, dr_tenant_id = tenant,
     dr_subject = subj, dr_policies_evaluated = [policy], dr_signals_used = signals,
     dr_action = pd_action policy, dr_reason_codes = pd_reason_codes policy, dr_mode = pd_mode policy,
     dr_fail_mode = FmOpen, dr_inputs_missing = [], dr_coverage_gaps_overlapping = [],
     dr_degradation_level = level, dr_latency_us = latency,
     dr_engine_versions = \<lparr>ver_detector = ''signal-engine-0.1.0'', ver_policy = ''policy-engine-0.1.0'',
       ver_resolver = ''lifecycle-engine-0.1.0''\<rparr>,
     dr_explanation = generate_explanation policy signals\<rparr>"

text \<open>Claim C31 (reconstructable decisions, INV-10): a recorded decision can be replayed from the record alone, given
  the policy configuration in force: the action, mode and reason codes are those that the
  first-match table gives for the kinds of the recorded signals.\<close>

theorem decision_replayable:
  assumes "map sig_kind srs = map s_kind ss"
    and "d = decision_build ulid tn subj (policy_evaluate p ss) srs now level latency"
  shows "(let r = rule_decision (find (rule_matches (sig_kind ` set (dr_signals_used d))) (rule_table (policy_snapshot p)))
          in dr_policies_evaluated d = [r] \<and> dr_action d = pd_action r \<and> dr_mode d = pd_mode r \<and>
             dr_reason_codes d = pd_reason_codes r \<and>
             dr_explanation d = generate_explanation r (dr_signals_used d))"
proof -
  have "sig_kind ` set srs = kinds ss" using arg_cong [OF assms(1), of set] by (simp add: kinds_def)
  then show ?thesis by (simp add: assms(2) decision_build_def policy_unfold Let_def)
qed

definition demo_signal :: "signal_kind \<Rightarrow> signal" where
  "demo_signal k = \<lparr>s_kind = k, s_confidence = Fin 1, s_value = ''v'', s_threshold = None\<rparr>"

lemma decision_replayable_witness:
  "(let d = decision_build ''U'' ''t'' \<lparr>ds_lifecycle_id = None, ds_event_id = ''e'', ds_operation_id = None\<rparr>
       (policy_evaluate (policy_engine_new policy_config_default) [demo_signal HighVelocity])
       [record_from_signal ''V'' (demo_signal HighVelocity) ''t'' ''e'' None 1 tracker_version] 1 ''L0Normal'' 5
    in dr_action d = Challenge \<and> dr_reason_codes d = [''VELOCITY_HIGH_RATE''])"
  using decision_replayable [OF _ refl, of
      "[record_from_signal ''V'' (demo_signal HighVelocity) ''t'' ''e'' None 1 tracker_version]"
      "[demo_signal HighVelocity]" "''U''" "''t''" "\<lparr>ds_lifecycle_id = None, ds_event_id = ''e'', ds_operation_id = None\<rparr>"
      "policy_engine_new policy_config_default" 1 "''L0Normal''" 5]
  by (simp add: record_from_signal_def decision_build_def demo_signal_def rule_table_def rule_matches_def
      policy_snapshot_def policy_engine_new_def policy_config_default_def policy_rule_default_def
      rule_decision_def Let_def)

text \<open>The rule's own \<open>fail_mode\<close> never reaches the record.\<close>

lemma fail_mode_ignored: "dr_fail_mode (decision_build u t s d srs now l lat) = FmOpen"
  by (simp add: decision_build_def)

end
