(* ===== verification/Decision_Store.thy ===== *)
theory Decision_Store
  imports Decision
begin

text \<open>
  \<^verbatim>\<open>daemon/crates/athar-detection/src/store.rs\<close>: the SQLite tables of signals and decisions.  A table
  is the list of its rows in row-identifier order; \<open>INSERT OR REPLACE\<close> deletes the row with the
  same primary key and adds the new one at the end.  \<open>script\<close> lists which statements succeed,
  an exhausted script means that all do.  The JSON text of a decision is \<^verbatim>\<open>serde_json\<close>'s, a pair of
  functions the definitions take as an argument.
\<close>

record decision_text =
  dt_print :: "decision_record \<Rightarrow> string"
  dt_parse :: "string \<Rightarrow> decision_record option"

record signal_row =
  sgr_signal_id :: string
  sgr_tenant_id :: string
  sgr_kind :: string
  sgr_confidence :: flt
  sgr_value :: string
  sgr_threshold :: "string option"
  sgr_timestamp_ms :: i64
  sgr_event_id :: string
  sgr_lifecycle_id :: "string option"
  sgr_tracker_version :: string

record decision_row =
  dcr_decision_id :: string
  dcr_tenant_id :: string
  dcr_timestamp_ms :: i64
  dcr_event_id :: string
  dcr_lifecycle_id :: "string option"
  dcr_action :: string
  dcr_mode :: string
  dcr_body_json :: string

record decision_store =
  signals_table :: "signal_row list"
  decisions_table :: "decision_row list"
  dec_script :: "bool list"

datatype decision_store_error = DseSqlite

definition dec_open_in_memory :: decision_store where
  "dec_open_in_memory = \<lparr>signals_table = [], decisions_table = [], dec_script = []\<rparr>"

definition dec_ok :: "decision_store \<Rightarrow> bool" where
  "dec_ok s = (case dec_script s of [] \<Rightarrow> True | b # _ \<Rightarrow> b)"

definition dec_next :: "decision_store \<Rightarrow> decision_store" where
  "dec_next s = s\<lparr>dec_script := tl (dec_script s)\<rparr>"

definition replace_row :: "('r \<Rightarrow> string) \<Rightarrow> 'r \<Rightarrow> 'r list \<Rightarrow> 'r list" where
  "replace_row key r rs = filter (\<lambda>q. key q \<noteq> key r) rs @ [r]"

definition signal_row_of :: "signal_record \<Rightarrow> signal_row" where
  "signal_row_of r = \<lparr>sgr_signal_id = sig_signal_id r, sgr_tenant_id = sig_tenant_id r,
     sgr_kind = kind_str (sig_kind r), sgr_confidence = sig_confidence r, sgr_value = sig_value r,
     sgr_threshold = sig_threshold r, sgr_timestamp_ms = sig_timestamp_ms r, sgr_event_id = sig_event_id r,
     sgr_lifecycle_id = sig_lifecycle_id r, sgr_tracker_version = sig_tracker_version r\<rparr>"

definition decision_row_of :: "decision_text \<Rightarrow> decision_record \<Rightarrow> decision_row" where
  "decision_row_of t r = \<lparr>dcr_decision_id = dr_decision_id r, dcr_tenant_id = dr_tenant_id r,
     dcr_timestamp_ms = dr_timestamp_ms r, dcr_event_id = ds_event_id (dr_subject r),
     dcr_lifecycle_id = ds_lifecycle_id (dr_subject r), dcr_action = action_str (dr_action r),
     dcr_mode = mode_str (dr_mode r), dcr_body_json = dt_print t r\<rparr>"

definition write_signal :: "signal_record \<Rightarrow> decision_store \<Rightarrow> (decision_store_error, unit) result \<times> decision_store" where
  "write_signal r s =
     (if dec_ok s
      then (Inr (), (dec_next s)\<lparr>signals_table := replace_row sgr_signal_id (signal_row_of r) (signals_table s)\<rparr>)
      else (Inl DseSqlite, dec_next s))"

definition write_decision :: "decision_text \<Rightarrow> decision_record \<Rightarrow> decision_store \<Rightarrow>
    (decision_store_error, unit) result \<times> decision_store" where
  "write_decision t r s =
     (if dec_ok s
      then (Inr (), (dec_next s)\<lparr>decisions_table := replace_row dcr_decision_id (decision_row_of t r) (decisions_table s)\<rparr>)
      else (Inl DseSqlite, dec_next s))"

definition get_decision :: "decision_text \<Rightarrow> decision_store \<Rightarrow> string \<Rightarrow> decision_record option" where
  "get_decision t s i =
     (if dec_ok s
      then Option.bind (find (\<lambda>r. dcr_decision_id r = i) (decisions_table s)) (\<lambda>r. dt_parse t (dcr_body_json r))
      else None)"

text \<open>\<open>ORDER BY timestamp_ms DESC LIMIT ?\<close>: the columns are signed; the order of equal
  timestamps is not specified by SQL and taken here to be that of the rows; a negative limit
  (the cast of a count above 2^63) is no limit.\<close>

definition recent_decisions :: "decision_text \<Rightarrow> decision_store \<Rightarrow> u64 \<Rightarrow> decision_record list" where
  "recent_decisions t s n =
     (if dec_ok s
      then let sorted_rows = sort_key (\<lambda>r. - sint (dcr_timestamp_ms r)) (decisions_table s);
               taken = (if sint n < 0 then sorted_rows else take (nat (sint n)) sorted_rows)
           in List.map_filter (\<lambda>r. dt_parse t (dcr_body_json r)) taken
      else [])"

definition count_decisions :: "decision_store \<Rightarrow> nat" where
  "count_decisions s = (if dec_ok s then length (decisions_table s) else 0)"

definition count_signals :: "decision_store \<Rightarrow> nat" where
  "count_signals s = (if dec_ok s then length (signals_table s) else 0)"

section \<open>Laws\<close>

lemma find_replace_row:
  "find (\<lambda>q. key q = i) (replace_row key r rs) = (if key r = i then Some r else find (\<lambda>q. key q = i) rs)"
proof -
  have "find (\<lambda>q. key q = i) (filter (\<lambda>q. key q \<noteq> key r) rs @ [r]) =
      (if key r = i then Some r else find (\<lambda>q. key q = i) rs)"
    by (induction rs) auto
  then show ?thesis by (simp add: replace_row_def)
qed

lemma replace_row_keys:
  "distinct (map key rs) \<Longrightarrow> distinct (map key (replace_row key r rs))"
  "set (map key (replace_row key r rs)) = insert (key r) (set (map key rs))"
  by (auto simp: replace_row_def distinct_map inj_on_def)

text \<open>A table of decisions as the client sees it.\<close>

locale decision_table =
  fixes get :: "'s \<Rightarrow> string \<Rightarrow> 'd option" and put :: "'d \<Rightarrow> 's \<Rightarrow> 's"
    and key :: "'d \<Rightarrow> string" and sound :: "'d \<Rightarrow> bool" and inv :: "'s \<Rightarrow> bool"
  assumes get_put: "inv s \<Longrightarrow> sound d \<Longrightarrow> get (put d s) i = (if i = key d then Some d else get s i)"
    and inv_put: "inv s \<Longrightarrow> inv (put d s)"
begin

lemma get_put_all:
  assumes "inv s" "list_all sound ds" "distinct (map key ds)" "d \<in> set ds"
  shows "get (fold put ds s) (key d) = Some d"
proof -
  have keep: "get (fold put ds s) i = get s i" if "inv s" "list_all sound ds" "i \<notin> set (map key ds)" for s ds i
    using that by (induction ds arbitrary: s) (auto simp: get_put inv_put)
  show ?thesis using assms
  proof (induction ds arbitrary: s)
    case (Cons x ds)
    show ?case
    proof (cases "d = x")
      case True
      have "get (fold put ds (put x s)) (key d) = get (put x s) (key d)"
        using Cons.prems True by (intro keep) (auto simp: inv_put)
      then show ?thesis using Cons.prems True by (simp add: get_put)
    next
      case False
      then show ?thesis using Cons by (auto simp: inv_put)
    qed
  qed simp
qed

end

definition dec_inv :: "decision_store \<Rightarrow> bool" where
  "dec_inv s \<longleftrightarrow> dec_script s = [] \<and> distinct (map dcr_decision_id (decisions_table s))"

lemma dec_row_simps [simp]:
  "dcr_decision_id (decision_row_of t d) = dr_decision_id d" "dcr_body_json (decision_row_of t d) = dt_print t d"
  "dcr_timestamp_ms (decision_row_of t d) = dr_timestamp_ms d"
  by (simp_all add: decision_row_of_def)

lemma dec_ready: "dec_inv s \<Longrightarrow> dec_ok s" "dec_inv s \<Longrightarrow> dec_next s = s"
  by (simp_all add: dec_inv_def dec_ok_def dec_next_def)

lemma write_decision_inv: "dec_inv s \<Longrightarrow> dec_inv (snd (write_decision t d s))"
  using replace_row_keys(1) [of dcr_decision_id "decisions_table s"]
  by (simp add: write_decision_def dec_inv_def dec_ok_def dec_next_def)

lemma get_write_decision_raw:
  assumes "dec_inv s"
  shows "get_decision t (snd (write_decision t d s)) i =
    (if i = dr_decision_id d then dt_parse t (dt_print t d) else get_decision t s i)"
proof -
  have "dec_ok (snd (write_decision t d s))" using dec_ready(1) [OF write_decision_inv [OF assms]] .
  then show ?thesis using assms dec_ready [OF assms]
    by (simp add: get_decision_def write_decision_def find_replace_row [where i = i])
qed

lemma get_write_decision:
  "dec_inv s \<Longrightarrow> dt_parse t (dt_print t d) = Some d \<Longrightarrow>
   get_decision t (snd (write_decision t d s)) i = (if i = dr_decision_id d then Some d else get_decision t s i)"
  by (simp add: get_write_decision_raw)

interpretation decisions: decision_table "get_decision t" "\<lambda>d s. snd (write_decision t d s)" dr_decision_id
  "\<lambda>d. dt_parse t (dt_print t d) = Some d" dec_inv for t
  by unfold_locales (simp_all add: get_write_decision write_decision_inv)

definition record_decisions :: "decision_text \<Rightarrow> decision_record list \<Rightarrow> decision_store" where
  "record_decisions t ds = fold (\<lambda>d s. snd (write_decision t d s)) ds dec_open_in_memory"

lemma dec_inv_new: "dec_inv dec_open_in_memory"
  by (simp add: dec_inv_def dec_open_in_memory_def)

lemma record_decisions_snoc: "record_decisions t (ds @ [d]) = snd (write_decision t d (record_decisions t ds))"
  by (simp add: record_decisions_def)

lemma record_decisions_inv: "dec_inv (record_decisions t ds)"
  by (induction ds rule: rev_induct)
    (simp_all add: record_decisions_snoc write_decision_inv, simp add: record_decisions_def dec_inv_new)

lemma recorded_rows:
  "distinct (map dr_decision_id ds) \<Longrightarrow> decisions_table (record_decisions t ds) = map (decision_row_of t) ds"
proof (induction ds rule: rev_induct)
  case Nil
  then show ?case by (simp add: record_decisions_def dec_open_in_memory_def)
next
  case (snoc d ds)
  have "decisions_table (snd (write_decision t d (record_decisions t ds))) =
      replace_row dcr_decision_id (decision_row_of t d) (decisions_table (record_decisions t ds))"
    using dec_ready [OF record_decisions_inv] by (simp add: write_decision_def)
  moreover have "filter (\<lambda>q. dcr_decision_id q \<noteq> dr_decision_id d) (map (decision_row_of t) ds) = map (decision_row_of t) ds"
    using snoc.prems by (intro filter_True) (auto simp: image_iff)
  ultimately show ?case using snoc by (simp add: record_decisions_snoc replace_row_def)
qed

lemma sort_key_map: "sort_key f (map g xs) = map g (sort_key (\<lambda>x. f (g x)) xs)"
proof -
  have ins: "insort_key f (g x) (map g ys) = map g (insort_key (\<lambda>x. f (g x)) x ys)" for x ys
    by (induction ys) auto
  show ?thesis by (induction xs) (simp_all add: ins)
qed

lemma map_filter_all: "(\<And>x. x \<in> set xs \<Longrightarrow> f (g x) = Some x) \<Longrightarrow> List.map_filter f (map g xs) = xs"
  by (induction xs) (auto simp: List.map_filter_def)

text \<open>Claim C32 (decisions come back): decisions recorded under distinct identifiers, with JSON that reads back, can
  each be fetched unchanged, and the most recent ones are listed newest first, as many as
  asked for.\<close>

theorem recorded_decisions_come_back:
  assumes "distinct (map dr_decision_id ds)" "list_all (\<lambda>d. dt_parse t (dt_print t d) = Some d) ds"
  shows "list_all (\<lambda>d. get_decision t (record_decisions t ds) (dr_decision_id d) = Some d) ds \<and>
    count_decisions (record_decisions t ds) = length ds \<and>
    recent_decisions t (record_decisions t ds) (of_nat n) =
      (if sint (of_nat n :: u64) < 0 then sort_key (\<lambda>d. - sint (dr_timestamp_ms d)) ds
       else take (nat (sint (of_nat n :: u64))) (sort_key (\<lambda>d. - sint (dr_timestamp_ms d)) ds))"
proof -
  let ?s = "record_decisions t ds"
  have "get_decision t ?s (dr_decision_id d) = Some d" if "d \<in> set ds" for d
    unfolding record_decisions_def by (rule decisions.get_put_all [OF dec_inv_new assms(2,1) that])
  moreover have "count_decisions ?s = length ds"
    using dec_ready(1) [OF record_decisions_inv, of t ds] recorded_rows [OF assms(1), of t]
    by (simp add: count_decisions_def)
  moreover have "recent_decisions t ?s (of_nat n) =
      (if sint (of_nat n :: u64) < 0 then sort_key (\<lambda>d. - sint (dr_timestamp_ms d)) ds
       else take (nat (sint (of_nat n :: u64))) (sort_key (\<lambda>d. - sint (dr_timestamp_ms d)) ds))"
  proof -
    have read: "List.map_filter (\<lambda>r. dt_parse t (dcr_body_json r)) (map (decision_row_of t) xs) = xs"
      if "set xs \<subseteq> set ds" for xs
      using that assms(2) by (intro map_filter_all) (auto simp: list_all_iff)
    have "sort_key (\<lambda>r. - sint (dcr_timestamp_ms r)) (decisions_table ?s) =
        map (decision_row_of t) (sort_key (\<lambda>d. - sint (dr_timestamp_ms d)) ds)"
      unfolding recorded_rows [OF assms(1)] sort_key_map by simp
    then show ?thesis
      using dec_ready(1) [OF record_decisions_inv, of t ds]
        set_take_subset [of "nat (sint (of_nat n :: u64))" "sort_key (\<lambda>d. - sint (dr_timestamp_ms d)) ds"]
      by (simp add: recent_decisions_def Let_def take_map read)
  qed
  ultimately show ?thesis by (simp add: list_all_iff)
qed

definition demo_decision :: "string \<Rightarrow> u64 \<Rightarrow> decision_record" where
  "demo_decision i ts = decision_build i ''t'' \<lparr>ds_lifecycle_id = None, ds_event_id = ''e'', ds_operation_id = None\<rparr>
     (policy_evaluate (policy_engine_new policy_config_default) []) [] ts ''L0Normal'' 1"

lemma recorded_decisions_come_back_witness:
  "recent_decisions \<lparr>dt_print = dr_decision_id, dt_parse = \<lambda>i. Some (if i = ''dec_A'' then demo_decision ''A'' 5 else demo_decision ''B'' 9)\<rparr>
     (record_decisions \<lparr>dt_print = dr_decision_id, dt_parse = \<lambda>i. Some (if i = ''dec_A'' then demo_decision ''A'' 5 else demo_decision ''B'' 9)\<rparr>
        [demo_decision ''A'' 5, demo_decision ''B'' 9]) 1
   = [demo_decision ''B'' 9]"
  using recorded_decisions_come_back [of "[demo_decision ''A'' 5, demo_decision ''B'' 9]"
      "\<lparr>dt_print = dr_decision_id, dt_parse = \<lambda>i. Some (if i = ''dec_A'' then demo_decision ''A'' 5 else demo_decision ''B'' 9)\<rparr>" 1]
  by (simp add: demo_decision_def decision_build_def)

end
