(* ===== verification/Detection_Config.thy ===== *)
theory Detection_Config
  imports Policy Lifecycle_Types Audit_Store
begin

text \<open>
  \<^verbatim>\<open>daemon/crates/athar-detection/src/config.rs\<close> with the serde shape of the configuration
  structs: every one carries \<open>serde(default)\<close>, so an absent field takes the value of the
  struct's \<open>Default\<close>, an unknown one is ignored and a repeated or ill-typed one is an error.
\<close>

record detection_config =
  dc_policies :: policy_config
  dc_signals :: signal_engine_config

definition detection_config_default :: detection_config where
  "detection_config_default = \<lparr>dc_policies = policy_config_default, dc_signals = signal_config_default\<rparr>"

section \<open>The JSON form\<close>

definition json_default :: "(json \<Rightarrow> 'a option) \<Rightarrow> 'a \<Rightarrow> json \<Rightarrow> string \<Rightarrow> 'a option" where
  "json_default f d j k = (case j of
      JObject kvs \<Rightarrow> (case filter (\<lambda>kv. fst kv = k) kvs of [] \<Rightarrow> Some d | [(_, v)] \<Rightarrow> f v | _ \<Rightarrow> None)
    | _ \<Rightarrow> None)"

fun usize_of_json :: "json \<Rightarrow> nat option" where
  "usize_of_json (JInt n) = (if 0 \<le> n \<and> n < 2 ^ 64 then Some (nat n) else None)"
| "usize_of_json _ = None"

fun u32_of_json :: "json \<Rightarrow> u32 option" where
  "u32_of_json (JInt n) = (if 0 \<le> n \<and> n < 2 ^ 32 then Some (of_int n) else None)"
| "u32_of_json _ = None"

definition u32_to_json :: "u32 \<Rightarrow> json" where
  "u32_to_json w = JInt (uint w)"

fun f64_of_json :: "json \<Rightarrow> flt option" where
  "f64_of_json (JInt n) = Some (round64 (of_int n))"
| "f64_of_json (JNumber x) = Some x"
| "f64_of_json _ = None"

fun f64_to_json :: "flt \<Rightarrow> json" where
  "f64_to_json (Fin x) = JNumber (Fin x)"
| "f64_to_json _ = JNull"

definition velocity_of_json :: "json \<Rightarrow> velocity_config option" where
  "velocity_of_json j = (let d = velocity_config_default in
     opt_bind (json_default u64_of_json (v_window_ms d) j ''window_ms'') (\<lambda>w.
     opt_bind (json_default u32_of_json (v_threshold d) j ''threshold'') (\<lambda>t.
     opt_bind (json_default usize_of_json (v_max_subjects d) j ''max_subjects'') (\<lambda>m.
     Some \<lparr>v_window_ms = w, v_threshold = t, v_max_subjects = m\<rparr>))))"

definition velocity_to_json :: "velocity_config \<Rightarrow> json" where
  "velocity_to_json c = JObject [(''window_ms'', u64_to_json (v_window_ms c)),
     (''threshold'', u32_to_json (v_threshold c)), (''max_subjects'', JInt (int (v_max_subjects c)))]"

definition targets_of_json :: "json \<Rightarrow> target_config option" where
  "targets_of_json j = (let d = target_config_default in
     opt_bind (json_default u64_of_json (t_window_ms d) j ''window_ms'') (\<lambda>w.
     opt_bind (json_default u32_of_json (t_threshold d) j ''threshold'') (\<lambda>t.
     opt_bind (json_default usize_of_json (t_max_subjects d) j ''max_subjects'') (\<lambda>m.
     opt_bind (json_default usize_of_json (t_max_targets_per_subject d) j ''max_targets_per_subject'') (\<lambda>n.
     Some \<lparr>t_window_ms = w, t_threshold = t, t_max_subjects = m, t_max_targets_per_subject = n\<rparr>)))))"

definition targets_to_json :: "target_config \<Rightarrow> json" where
  "targets_to_json c = JObject [(''window_ms'', u64_to_json (t_window_ms c)),
     (''threshold'', u32_to_json (t_threshold c)), (''max_subjects'', JInt (int (t_max_subjects c))),
     (''max_targets_per_subject'', JInt (int (t_max_targets_per_subject c)))]"

definition stuffing_of_json :: "json \<Rightarrow> credential_stuffing_config option" where
  "stuffing_of_json j = (let d = credential_stuffing_default in
     opt_bind (json_default (list_of_json json_as_str) (cs_event_types d) j ''event_types'') (\<lambda>e.
     opt_bind (json_default json_as_str (cs_outcome_field d) j ''outcome_field'') (\<lambda>f.
     opt_bind (json_default (list_of_json json_as_str) (cs_outcome_failed_values d) j ''outcome_failed_values'') (\<lambda>v.
     opt_bind (json_default u64_of_json (cs_window_ms d) j ''window_ms'') (\<lambda>w.
     opt_bind (json_default u32_of_json (cs_threshold d) j ''threshold'') (\<lambda>t.
     opt_bind (json_default usize_of_json (cs_max_subjects d) j ''max_subjects'') (\<lambda>m.
     Some \<lparr>cs_event_types = e, cs_outcome_field = f, cs_outcome_failed_values = v, cs_window_ms = w,
       cs_threshold = t, cs_max_subjects = m\<rparr>)))))))"

definition stuffing_to_json :: "credential_stuffing_config \<Rightarrow> json" where
  "stuffing_to_json c = JObject [(''event_types'', JArray (map JString (cs_event_types c))),
     (''outcome_field'', JString (cs_outcome_field c)),
     (''outcome_failed_values'', JArray (map JString (cs_outcome_failed_values c))),
     (''window_ms'', u64_to_json (cs_window_ms c)), (''threshold'', u32_to_json (cs_threshold c)),
     (''max_subjects'', JInt (int (cs_max_subjects c)))]"

definition signals_of_json :: "json \<Rightarrow> signal_engine_config option" where
  "signals_of_json j = (let d = signal_config_default in
     opt_bind (json_default f64_of_json (high_amount_floor d) j ''high_amount_floor'') (\<lambda>h.
     opt_bind (json_default json_as_str (amount_field d) j ''amount_field'') (\<lambda>a.
     opt_bind (json_default velocity_of_json (sc_velocity d) j ''velocity'') (\<lambda>v.
     opt_bind (json_default targets_of_json (sc_targets d) j ''targets'') (\<lambda>t.
     opt_bind (json_default stuffing_of_json (sc_credential_stuffing d) j ''credential_stuffing'') (\<lambda>c.
     Some \<lparr>high_amount_floor = h, amount_field = a, sc_velocity = v, sc_targets = t, sc_credential_stuffing = c\<rparr>))))))"

definition signals_to_json :: "signal_engine_config \<Rightarrow> json" where
  "signals_to_json c = JObject [(''high_amount_floor'', f64_to_json (high_amount_floor c)),
     (''amount_field'', JString (amount_field c)), (''velocity'', velocity_to_json (sc_velocity c)),
     (''targets'', targets_to_json (sc_targets c)),
     (''credential_stuffing'', stuffing_to_json (sc_credential_stuffing c))]"

definition all_modes :: "policy_mode list" where
  "all_modes = [PmObserve, PmChallenge, PmEnforce]"

definition all_fail_modes :: "fail_mode list" where
  "all_fail_modes = [FmOpen, FmClosed]"

definition rule_of_json :: "json \<Rightarrow> policy_rule option" where
  "rule_of_json j = (let d = policy_rule_default in
     opt_bind (json_default json_as_bool (pr_enabled d) j ''enabled'') (\<lambda>e.
     opt_bind (json_default (variant_of_json mode_str all_modes) (pr_mode d) j ''mode'') (\<lambda>m.
     opt_bind (json_default (variant_of_json fail_mode_str all_fail_modes) (pr_fail_mode d) j ''fail_mode'') (\<lambda>f.
     Some \<lparr>pr_enabled = e, pr_mode = m, pr_fail_mode = f\<rparr>))))"

definition rule_to_json :: "policy_rule \<Rightarrow> json" where
  "rule_to_json r = JObject [(''enabled'', JBool (pr_enabled r)), (''mode'', JString (mode_str (pr_mode r))),
     (''fail_mode'', JString (fail_mode_str (pr_fail_mode r)))]"

definition policies_of_json :: "json \<Rightarrow> policy_config option" where
  "policies_of_json j = (let d = policy_config_default in
     opt_bind (json_default rule_of_json (pc_high_amount_new_beneficiary d) j ''high_amount_new_beneficiary'') (\<lambda>a.
     opt_bind (json_default rule_of_json (pc_high_velocity d) j ''high_velocity'') (\<lambda>b.
     opt_bind (json_default rule_of_json (pc_distinct_targets d) j ''distinct_targets'') (\<lambda>c.
     opt_bind (json_default rule_of_json (pc_credential_stuffing d) j ''credential_stuffing'') (\<lambda>e.
     Some \<lparr>pc_high_amount_new_beneficiary = a, pc_high_velocity = b, pc_distinct_targets = c,
       pc_credential_stuffing = e\<rparr>)))))"

definition policies_to_json :: "policy_config \<Rightarrow> json" where
  "policies_to_json c = JObject [
     (''high_amount_new_beneficiary'', rule_to_json (pc_high_amount_new_beneficiary c)),
     (''high_velocity'', rule_to_json (pc_high_velocity c)),
     (''distinct_targets'', rule_to_json (pc_distinct_targets c)),
     (''credential_stuffing'', rule_to_json (pc_credential_stuffing c))]"

definition config_of_json :: "json \<Rightarrow> detection_config option" where
  "config_of_json j = (let d = detection_config_default in
     opt_bind (json_default policies_of_json (dc_policies d) j ''policies'') (\<lambda>p.
     opt_bind (json_default signals_of_json (dc_signals d) j ''signals'') (\<lambda>s.
     Some \<lparr>dc_policies = p, dc_signals = s\<rparr>)))"

definition config_to_json :: "detection_config \<Rightarrow> json" where
  "config_to_json c = JObject [(''policies'', policies_to_json (dc_policies c)),
     (''signals'', signals_to_json (dc_signals c))]"

section \<open>Loading\<close>

text \<open>\<open>Path::exists\<close>: an error of the call counts as absence.\<close>

definition io_exists :: "string \<Rightarrow> disk \<Rightarrow> bool \<times> disk" where
  "io_exists n d = (case io_call d of (Inl e, d') \<Rightarrow> (False, d') | (Inr u, d') \<Rightarrow> (file_at d' n \<noteq> None, d'))"

definition load_or_default :: "json_text \<Rightarrow> string \<Rightarrow> disk \<Rightarrow> detection_config \<times> disk" where
  "load_or_default k path d =
     (case io_exists path d of
        (False, d) \<Rightarrow> (detection_config_default, d)
      | (True, d) \<Rightarrow> (case io_read path d of
            (Inr contents, d) \<Rightarrow> (case opt_bind (from_slice k contents) config_of_json of
                Some cfg \<Rightarrow> (cfg, d)
              | None \<Rightarrow> (detection_config_default, d))
          | (Inl e, d) \<Rightarrow> (detection_config_default, d)))"

section \<open>Round trip\<close>

lemma numbers_json [simp]:
  "m < 2 ^ 64 \<Longrightarrow> usize_of_json (JInt (int m)) = Some m"
  "u32_of_json (u32_to_json t) = Some t"
  "f64_of_json (f64_to_json (Fin x)) = Some (Fin x)"
  using uint_bounded [of t] by (auto simp: u32_to_json_def)

lemma modes_json [simp]:
  "variant_of_json mode_str all_modes (JString (mode_str m)) = Some m"
  "variant_of_json fail_mode_str all_fail_modes (JString (fail_mode_str f)) = Some f"
  by (cases m; simp add: variant_of_json_def all_modes_def)
    (cases f; simp add: variant_of_json_def all_fail_modes_def)

definition velocity_fits :: "velocity_config \<Rightarrow> bool" where
  "velocity_fits c \<longleftrightarrow> v_max_subjects c < 2 ^ 64"

definition targets_fit :: "target_config \<Rightarrow> bool" where
  "targets_fit c \<longleftrightarrow> t_max_subjects c < 2 ^ 64 \<and> t_max_targets_per_subject c < 2 ^ 64"

definition stuffing_fits :: "credential_stuffing_config \<Rightarrow> bool" where
  "stuffing_fits c \<longleftrightarrow> cs_max_subjects c < 2 ^ 64"

lemma velocity_json [simp]: "velocity_fits c \<Longrightarrow> velocity_of_json (velocity_to_json c) = Some c"
  by (simp add: velocity_of_json_def velocity_to_json_def json_default_def velocity_fits_def Let_def)

lemma targets_json [simp]: "targets_fit c \<Longrightarrow> targets_of_json (targets_to_json c) = Some c"
  by (simp add: targets_of_json_def targets_to_json_def json_default_def targets_fit_def Let_def)

lemma stuffing_json [simp]: "stuffing_fits c \<Longrightarrow> stuffing_of_json (stuffing_to_json c) = Some c"
  by (simp add: stuffing_of_json_def stuffing_to_json_def json_default_def stuffing_fits_def Let_def)

lemma rule_json [simp]: "rule_of_json (rule_to_json r) = Some r"
  by (simp add: rule_of_json_def rule_to_json_def json_default_def Let_def)

lemma policies_json [simp]: "policies_of_json (policies_to_json c) = Some c"
  by (simp add: policies_of_json_def policies_to_json_def json_default_def Let_def)

text \<open>A configuration Rust can hold: \<open>usize\<close> capacities, and an amount floor that is a number
  (JSON has no infinities).\<close>

definition config_fits :: "detection_config \<Rightarrow> bool" where
  "config_fits c \<longleftrightarrow> (case high_amount_floor (dc_signals c) of Fin x \<Rightarrow> True | _ \<Rightarrow> False) \<and>
     velocity_fits (sc_velocity (dc_signals c)) \<and> targets_fit (sc_targets (dc_signals c)) \<and>
     stuffing_fits (sc_credential_stuffing (dc_signals c))"

lemma config_json: "config_fits c \<Longrightarrow> config_of_json (config_to_json c) = Some c"
  by (cases "high_amount_floor (dc_signals c)")
    (simp_all add: config_of_json_def config_to_json_def signals_of_json_def signals_to_json_def
      json_default_def config_fits_def Let_def)

text \<open>Claim C33 (configuration round trip): a configuration with a numeric floor and capacities of machine size,
  serialized to the file the daemon reads, is loaded back unchanged.\<close>

theorem saved_config_loads_back:
  assumes "config_fits c" "from_slice k (to_vec_pretty k (config_to_json c)) = Some (config_to_json c)"
    and "quiet d" "file_at d path = Some (to_vec_pretty k (config_to_json c))"
  shows "load_or_default k path d = (c, d)"
  using assms by (simp add: load_or_default_def io_exists_def config_json)

lemma saved_config_loads_back_witness:
  "load_or_default \<lparr>to_vec_pretty = \<lambda>_. [7], from_slice = \<lambda>_. Some (config_to_json detection_config_default)\<rparr>
     ''policies.json'' (disk_of [(''policies.json'', [7])])
   = (detection_config_default, disk_of [(''policies.json'', [7])])"
  by (rule saved_config_loads_back)
    (simp_all add: config_fits_def detection_config_default_def signal_config_default_def velocity_fits_def
      velocity_config_default_def targets_fit_def target_config_default_def stuffing_fits_def
      credential_stuffing_default_def file_at_def disk_of_def quiet_def)

text \<open>The built-in defaults are what an absent, unreadable or malformed file gives.\<close>

lemma load_absent: "quiet d \<Longrightarrow> file_at d path = None \<Longrightarrow> load_or_default k path d = (detection_config_default, d)"
  by (simp add: load_or_default_def io_exists_def)

lemma load_malformed:
  "quiet d \<Longrightarrow> file_at d path = Some c \<Longrightarrow> opt_bind (from_slice k c) config_of_json = None \<Longrightarrow>
   load_or_default k path d = (detection_config_default, d)"
  by (simp add: load_or_default_def io_exists_def)

text \<open>One bad field discards the whole file, rules included: a misspelt mode in one rule makes
  the daemon run the built-in rules instead of the customer's.\<close>

lemma one_bad_field_resets_all:
  "config_of_json (JObject [(''policies'', JObject [
      (''high_velocity'', JObject [(''enabled'', JBool False)]),
      (''distinct_targets'', JObject [(''mode'', JString ''enforce'')])])]) = None"
  by (simp add: config_of_json_def policies_of_json_def rule_of_json_def json_default_def
      variant_of_json_def all_modes_def Let_def opt_bind_def)

end
