(* ===== verification/Wall_Clock.thy ===== *)
theory Wall_Clock
  imports Complex_Main Prelude
begin

text \<open>
  The timestamps of \<^verbatim>\<open>daemon/crates/athar-daemon/src/ingest.rs\<close>: \<open>unix_to_ymdhms\<close>, the civil date of
  a Unix time by the era arithmetic of the source, and the RFC 3339 text made of it.  The
  intermediate values are integers: from a 64-bit count of seconds none of them leaves the
  range of its type, only the year is cut to 32 bits.
\<close>

definition civil :: "int \<Rightarrow> int \<times> int \<times> int" where
  "civil days =
     (let z = days + 719468;
          era = (if 0 \<le> z then z else z - 146096) div 146097;
          doe = z - era * 146097;
          yoe = (doe - doe div 1460 + doe div 36524 - doe div 146096) div 365;
          y = yoe + era * 400;
          doy = doe - (365 * yoe + yoe div 4 - yoe div 100);
          mp = (5 * doy + 2) div 153;
          d = doy - (153 * mp + 2) div 5 + 1;
          m = (if mp < 10 then mp + 3 else mp - 9);
          y = (if m \<le> 2 then y + 1 else y)
      in (y, m, d))"

definition unix_to_ymdhms :: "u64 \<Rightarrow> u32 \<times> u32 \<times> u32 \<times> u32 \<times> u32 \<times> u32" where
  "unix_to_ymdhms secs =
     (let (y, m, d) = civil (int (unat secs div 86400));
          rem = unat secs mod 86400
      in (of_int y, of_int m, of_int d, of_nat (rem div 3600), of_nat (rem mod 3600 div 60), of_nat (rem mod 60)))"

text \<open>\<open>{:0w}\<close>.\<close>

definition pad :: "nat \<Rightarrow> nat \<Rightarrow> string" where
  "pad w n = replicate (w - length (dec_str n)) CHR ''0'' @ dec_str n"

definition rfc3339 :: "u64 \<Rightarrow> nat \<Rightarrow> string" where
  "rfc3339 secs micros =
     (let (y, mo, d, h, mi, s) = unix_to_ymdhms secs
      in pad 4 (unat y) @ ''-'' @ pad 2 (unat mo) @ ''-'' @ pad 2 (unat d) @ ''T'' @ pad 2 (unat h) @ '':'' @
         pad 2 (unat mi) @ '':'' @ pad 2 (unat s) @ ''.'' @ pad 6 micros @ ''Z'')"

section \<open>The calendar\<close>

definition leap :: "int \<Rightarrow> bool" where
  "leap y \<longleftrightarrow> 4 dvd y \<and> (\<not> 100 dvd y \<or> 400 dvd y)"

definition year_len :: "int \<Rightarrow> int" where
  "year_len y = (if leap y then 366 else 365)"

definition month_len :: "int \<Rightarrow> int \<Rightarrow> int" where
  "month_len y m = (if m = 2 then (if leap y then 29 else 28) else if m \<in> {4, 6, 9, 11} then 30 else 31)"

definition valid_date :: "int \<times> int \<times> int \<Rightarrow> bool" where
  "valid_date = (\<lambda>(y, m, d). 1 \<le> m \<and> m \<le> 12 \<and> 1 \<le> d \<and> d \<le> month_len y m)"

text \<open>The days from 1970-01-01 to a date: whole years, whole months, days.\<close>

definition day_number :: "int \<times> int \<times> int \<Rightarrow> int" where
  "day_number = (\<lambda>(y, m, d). sum_list (map year_len [1970..y - 1]) +
     sum_list (map (month_len y) [1..m - 1]) + (d - 1))"

section \<open>The year of an era\<close>

definition era_days :: "int \<Rightarrow> int" where
  "era_days n = 365 * n + n div 4 - n div 100"

definition leap_shift :: "int \<Rightarrow> int" where
  "leap_shift n = n - n div 1460 + n div 36524 - n div 146096"

lemma div_step: "0 < k \<Longrightarrow> (n + 1) div k = n div k + (if k dvd n + 1 then 1 else 0)" for n k :: int
proof -
  assume k: "0 < k"
  let ?q = "n div k" and ?r = "n mod k"
  have n: "n = k * ?q + ?r" and r: "0 \<le> ?r" "?r < k" using k by simp_all
  show ?thesis
  proof (cases "?r + 1 = k")
    case True
    have "n + 1 = k * ?q + (?r + 1)" using n by simp
    also have "\<dots> = k * (?q + 1) + 0" unfolding True by (simp add: distrib_left)
    finally have "n + 1 = k * (?q + 1) + 0" .
    then have "(n + 1) div k = ?q + 1" "(n + 1) mod k = 0"
      using k int_div_pos_eq [of "n + 1" k "?q + 1" 0] int_mod_pos_eq [of "n + 1" k "?q + 1" 0] by auto
    then show ?thesis by (simp add: dvd_eq_mod_eq_0)
  next
    case False
    then have "n + 1 = k * ?q + (?r + 1)" "0 \<le> ?r + 1" "?r + 1 < k" using n r by simp_all
    then have "(n + 1) div k = ?q" "(n + 1) mod k = ?r + 1"
      using int_div_pos_eq [of "n + 1" k ?q "?r + 1"] int_mod_pos_eq [of "n + 1" k ?q "?r + 1"] by auto
    then show ?thesis using r by (simp add: dvd_eq_mod_eq_0)
  qed
qed

lemma leap_shift_step: "leap_shift n \<le> leap_shift (n + 1)"
proof -
  have "146096 dvd n + 1 \<Longrightarrow> 36524 dvd n + 1" by (rule dvd_trans [of 36524 146096]) simp_all
  then show ?thesis unfolding leap_shift_def by (simp add: div_step)
qed

lemma leap_shift_mono: "m \<le> n \<Longrightarrow> leap_shift m \<le> leap_shift n"
  by (induction n rule: int_ge_induct) (auto intro: order_trans leap_shift_step)

text \<open>The first and the last day of every year of an era are put in the right year.\<close>

lemma era_parts:
  assumes "0 \<le> g" "g \<le> 399"
  obtains q c s r where "era_days g = 1460 * q + (365 * s + q - c)" "era_days g = 36524 * c + (365 * r + q - 25 * c)"
    "g = 4 * q + s" "g = 100 * c + r" "0 \<le> s" "s \<le> 3" "0 \<le> c" "c \<le> 3" "0 \<le> r" "r \<le> 99"
    "25 * c \<le> q" "4 * q - 100 * c \<le> r"
proof
  show "era_days g = 1460 * (g div 4) + (365 * (g mod 4) + g div 4 - g div 100)"
    "era_days g = 36524 * (g div 100) + (365 * (g mod 100) + g div 4 - 25 * (g div 100))"
    using mult_div_mod_eq [of 4 g] mult_div_mod_eq [of 100 g] unfolding era_days_def by linarith+
  show "25 * (g div 100) \<le> g div 4" using assms by simp
  show "4 * (g div 4) - 100 * (g div 100) \<le> g mod 100"
  proof -
    have "0 \<le> g mod 4" by simp
    then show ?thesis using mult_div_mod_eq [of 4 g] mult_div_mod_eq [of 100 g] by linarith
  qed
  show "g mod 4 \<le> 3" "g mod 100 \<le> 99" by simp_all
qed (use assms in simp_all)

lemma era_years:
  assumes "0 \<le> g" "g \<le> 399"
  shows "leap_shift (era_days g) div 365 = g" "1 \<le> g \<Longrightarrow> leap_shift (era_days g - 1) div 365 = g - 1"
proof -
  obtain q c s r where e: "era_days g = 1460 * q + (365 * s + q - c)" "era_days g = 36524 * c + (365 * r + q - 25 * c)"
    and g: "g = 4 * q + s" "g = 100 * c + r" and b: "0 \<le> s" "s \<le> 3" "0 \<le> c" "c \<le> 3" "0 \<le> r" "r \<le> 99"
      "25 * c \<le> q" "4 * q - 100 * c \<le> r"
    by (rule era_parts [OF assms])
  have "era_days g div 1460 = q" by (rule int_div_pos_eq [OF e(1)]) (use b g assms in linarith)+
  moreover have "era_days g div 36524 = c" by (rule int_div_pos_eq [OF e(2)]) (use b g assms in linarith)+
  moreover have "era_days g div 146096 = 0" by (rule div_pos_pos_trivial) (use e b g assms in linarith)+
  ultimately have "leap_shift (era_days g) = 365 * g" unfolding leap_shift_def using e(1) g(1) by linarith
  then show "leap_shift (era_days g) div 365 = g" by simp
  assume 1: "1 \<le> g"
  have "(era_days g - 1) div 1460 = q"
    by (rule int_div_pos_eq [of _ _ _ "365 * s + q - c - 1"]) (use e b g 1 assms in linarith)+
  moreover have "(era_days g - 1) div 36524 = (if r = 0 then c - 1 else c)"
  proof (cases "r = 0")
    case True
    then have "q = 25 * c" using b by simp
    with True have "era_days g - 1 = 36524 * (c - 1) + 36523" using e(2) by simp
    then have "(era_days g - 1) div 36524 = c - 1" by (rule int_div_pos_eq) simp_all
    with True show ?thesis by simp
  next
    case False
    then have "1 \<le> r" using b by linarith
    then have "(era_days g - 1) div 36524 = c"
      by (intro int_div_pos_eq [of _ _ _ "365 * r + q - 25 * c - 1"]) (use e b g assms in linarith)+
    with False show ?thesis by simp
  qed
  moreover have "(era_days g - 1) div 146096 = 0" by (rule div_pos_pos_trivial) (use e b g 1 assms in linarith)+
  ultimately have "leap_shift (era_days g - 1) = 365 * g - (if r = 0 then 2 else 1)"
    unfolding leap_shift_def using e(1) g(1) by (simp split: if_splits)
  then have "leap_shift (era_days g - 1) = 365 * (g - 1) + (if r = 0 then 363 else 364)" by simp
  then show "leap_shift (era_days g - 1) div 365 = g - 1" by (rule int_div_pos_eq) simp_all
qed

definition era_end :: "int \<Rightarrow> int" where
  "era_end g = (if g = 399 then 146097 else era_days (g + 1))"

lemma era_year:
  assumes "0 \<le> doe" "doe < 146097" "g = leap_shift doe div 365"
  shows "0 \<le> g \<and> g \<le> 399 \<and> era_days g \<le> doe \<and> doe < era_end g"
proof -
  have at: "leap_shift (era_days k) div 365 = k" if "0 \<le> k" "k \<le> 399" for k
    using era_years(1) that by simp
  have before: "leap_shift (era_days k - 1) div 365 = k - 1" if "1 \<le> k" "k \<le> 399" for k
    using era_years(2) that by simp
  have mono: "m \<le> n \<Longrightarrow> leap_shift m div 365 \<le> leap_shift n div 365" for m n
    by (intro zdiv_mono1 leap_shift_mono) simp_all
  have "leap_shift 0 div 365 = 0" "leap_shift 146096 div 365 = 399" by (simp_all add: leap_shift_def)
  with assms mono [of 0 doe] mono [of doe 146096] have g: "0 \<le> g" "g \<le> 399" by simp_all
  have lo: "era_days g \<le> doe"
  proof (rule ccontr)
    assume c: "\<not> era_days g \<le> doe"
    have "1 \<le> g" using c g(1) assms(1) by (cases "g = 0") (auto simp: era_days_def)
    then have "g \<le> g - 1" using c g(2) before [of g] mono [of doe "era_days g - 1"] assms(3) by simp
    then show False by simp
  qed
  have hi: "doe < era_days (g + 1)" if "g \<noteq> 399"
  proof (rule ccontr)
    assume "\<not> doe < era_days (g + 1)"
    then have "g + 1 \<le> g" using that g at [of "g + 1"] mono [of "era_days (g + 1)" doe] assms(3) by simp
    then show False by simp
  qed
  show ?thesis using g lo hi assms(2) by (simp add: era_end_def)
qed

section \<open>The month of a year that starts in March\<close>

definition march_start :: "int \<Rightarrow> int" where
  "march_start mp = (153 * mp + 2) div 5"

lemma march_month:
  assumes "0 \<le> doy" "doy \<le> 365" "mp = (5 * doy + 2) div 153"
  shows "0 \<le> mp" "mp \<le> 11" "march_start mp \<le> doy" "doy < march_start (mp + 1)"
proof -
  have "153 * mp \<le> 5 * doy + 2" "5 * doy + 2 < 153 * (mp + 1)" using assms(3) by simp_all
  then show "march_start mp \<le> doy" "doy < march_start (mp + 1)"
    unfolding march_start_def by linarith+
  show "0 \<le> mp" "mp \<le> 11" using assms by simp_all
qed

section \<open>The calendar in closed form\<close>

definition year_start :: "int \<Rightarrow> int" where
  "year_start y = 365 * y + y div 4 - y div 100 + y div 400"

lemma year_start_step: "year_start y = year_start (y - 1) + year_len y"
proof -
  have d: "y div 4 = (y - 1) div 4 + (if 4 dvd y then 1 else 0)"
    "y div 100 = (y - 1) div 100 + (if 100 dvd y then 1 else 0)"
    "y div 400 = (y - 1) div 400 + (if 400 dvd y then 1 else 0)"
    using div_step [of _ "y - 1"] by simp_all
  have "100 dvd y \<Longrightarrow> 4 dvd y" "400 dvd y \<Longrightarrow> 100 dvd y"
    by (rule dvd_trans [of 4 100], simp_all) (rule dvd_trans [of 100 400], simp_all)
  then show ?thesis
    unfolding year_start_def year_len_def leap_def d
    by (cases "4 dvd y"; cases "100 dvd y"; cases "400 dvd y") simp_all
qed

lemma year_start_mono: "x \<le> y \<Longrightarrow> year_start x \<le> year_start y"
proof (induction y rule: int_ge_induct)
  case (step y)
  then show ?case using year_start_step [of "y + 1"] by (simp add: year_len_def split: if_splits)
qed simp

lemma years_sum: "1970 \<le> y \<Longrightarrow> sum_list (map year_len [1970..y - 1]) = year_start (y - 1) + 306 - 719468"
proof (induction y rule: int_ge_induct)
  case base
  then show ?case by (simp add: year_start_def)
next
  case (step y)
  have "[1970..y] = [1970..y - 1] @ [y]" using step.hyps by (intro upto_rec2) simp
  then show ?case using step year_start_step [of y] by simp
qed

lemma months_sum:
  assumes "1 \<le> m" "m \<le> 12"
  shows "sum_list (map (month_len y) [1..m - 1]) =
    (if m \<le> 2 then march_start (m + 9) - 306 else march_start (m - 3) + year_len y - 306)"
proof -
  have "m = 1 \<or> m = 2 \<or> m = 3 \<or> m = 4 \<or> m = 5 \<or> m = 6 \<or> m = 7 \<or> m = 8 \<or> m = 9 \<or> m = 10 \<or> m = 11 \<or> m = 12"
    using assms by presburger
  then show ?thesis
    by (elim disjE) (simp_all add: upto_rec1 month_len_def march_start_def year_len_def)
qed

lemma era_of_year:
  assumes "0 \<le> g" "g \<le> 399"
  shows "year_start (g + era * 400) = era_days g + era * 146097"
proof -
  have e: "(g + era * 400) div 4 = g div 4 + era * 100" "(g + era * 400) div 100 = g div 100 + era * 4"
    "(g + era * 400) div 400 = era"
    using assms div_mult_self1 [of 4 g "era * 100"] div_mult_self1 [of 100 g "era * 4"]
      div_mult_self1 [of 400 g era] by simp_all
  show ?thesis unfolding year_start_def era_days_def e by (simp add: algebra_simps)
qed

lemma era_end_year:
  assumes "0 \<le> g" "g \<le> 399"
  shows "era_end g = era_days g + year_len (g + era * 400 + 1)"
proof -
  have "year_start (g + era * 400 + 1) = era_end g + era * 146097"
    using era_of_year [of "g + 1" era] era_of_year [of 0 "era + 1"] assms
    by (cases "g = 399") (simp_all add: era_end_def era_days_def algebra_simps)
  then show ?thesis using year_start_step [of "g + era * 400 + 1"] era_of_year [OF assms, of era] by simp
qed

text \<open>A date is determined by its March year, its month in it and its day.\<close>

lemma march_date:
  assumes "0 \<le> mp" "mp \<le> 11" "1 \<le> d" "d \<le> march_start (mp + 1) - march_start mp"
    "march_start mp + d \<le> year_len (Y + 1)" "1970 \<le> y"
    and "m = (if mp < 10 then mp + 3 else mp - 9)" "y = (if m \<le> 2 then Y + 1 else Y)"
  shows "valid_date (y, m, d) \<and> day_number (y, m, d) = year_start Y + march_start mp + d - 1 - 719468"
proof -
  have mp: "mp = 0 \<or> mp = 1 \<or> mp = 2 \<or> mp = 3 \<or> mp = 4 \<or> mp = 5 \<or> mp = 6 \<or> mp = 7 \<or> mp = 8 \<or> mp = 9 \<or>
      mp = 10 \<or> mp = 11"
    using assms(1,2) by presburger
  have m: "1 \<le> m" "m \<le> 12" "m \<le> 2 \<longleftrightarrow> 10 \<le> mp" using assms(1,2,7) by auto
  have "d \<le> month_len y m"
    using mp assms(4,5,7,8)
    by (elim disjE) (simp_all add: march_start_def month_len_def year_len_def split: if_splits)
  moreover have "day_number (y, m, d) = year_start Y + march_start mp + d - 1 - 719468"
    unfolding day_number_def case_prod_conv years_sum [OF assms(6)] months_sum [OF m(1,2), of y]
    using m assms(1,2,7,8) year_start_step [of y] by (cases "mp < 10") auto
  ultimately show ?thesis using m assms(3) by (simp add: valid_date_def)
qed

lemma civil_correct:
  assumes "0 \<le> days"
  shows "valid_date (civil days) \<and> day_number (civil days) = days \<and> 1970 \<le> fst (civil days)"
proof -
  define era where "era = (days + 719468) div 146097"
  define doe where "doe = days + 719468 - era * 146097"
  define g where "g = leap_shift doe div 365"
  define doy where "doy = doe - era_days g"
  define mp where "mp = (5 * doy + 2) div 153"
  define d where "d = doy - march_start mp + 1"
  define m where "m = (if mp < 10 then mp + 3 else mp - 9)"
  define y where "y = (if m \<le> 2 then g + era * 400 + 1 else g + era * 400)"
  have c: "civil days = (y, m, d)"
  proof -
    have z: "(if 0 \<le> days + 719468 then days + 719468 else days + 719468 - 146096) div 146097 = era"
      using assms by (simp add: era_def)
    note f = g_def [unfolded leap_shift_def] doy_def [unfolded era_days_def] d_def [unfolded march_start_def]
    show ?thesis unfolding civil_def Let_def z
      unfolding doe_def [symmetric] unfolding f(1) [symmetric] unfolding f(2) [symmetric]
      unfolding mp_def [symmetric] unfolding f(3) [symmetric] m_def [symmetric] unfolding y_def [symmetric]
      by (rule refl)
  qed
  have doe: "0 \<le> doe" "doe < 146097" unfolding doe_def era_def by (simp_all add: minus_div_mult_eq_mod)
  note g = era_year [OF doe g_def]
  have doy: "0 \<le> doy" "doy < year_len (g + era * 400 + 1)"
    using g era_end_year [of g era] by (simp_all add: doy_def)
  then have "doy \<le> 365" by (simp add: year_len_def split: if_splits)
  note mp = march_month [OF doy(1) this mp_def]
  have start: "year_start (g + era * 400) = era_days g + era * 146097" using g by (intro era_of_year) simp_all
  have total: "days = year_start (g + era * 400) + doy - 719468" unfolding start by (simp add: doy_def doe_def)
  have "1970 \<le> y"
  proof (rule ccontr)
    assume "\<not> 1970 \<le> y"
    then have Y: "g + era * 400 < 1970" "g + era * 400 = 1969 \<Longrightarrow> mp < 10"
      using mp(1,2) by (auto simp: y_def m_def split: if_splits)
    have "year_start (g + era * 400) + doy < 719468"
    proof (cases "g + era * 400 = 1969")
      case True
      then have "mp + 1 \<le> 10" using Y by simp
      then have "153 * (mp + 1) + 2 \<le> 153 * 10 + 2" by simp
      then have "march_start (mp + 1) \<le> 306" unfolding march_start_def by linarith
      then show ?thesis using mp(4) unfolding True by (simp add: year_start_def)
    next
      case False
      then have "year_start (g + era * 400 + 1) \<le> year_start 1969"
        using Y by (intro year_start_mono) simp
      moreover have "year_start 1969 = 719162" by (simp add: year_start_def)
      ultimately show ?thesis
        using doy(2) year_start_step [of "g + era * 400 + 1", unfolded add_diff_cancel_right'] by linarith
    qed
    with total assms show False by simp
  qed
  have "valid_date (y, m, d) \<and> day_number (y, m, d) = year_start (g + era * 400) + march_start mp + d - 1 - 719468"
    by (rule march_date [OF mp(1,2) _ _ _ \<open>1970 \<le> y\<close> m_def y_def]) (use mp(3,4) doy(2) d_def in linarith)+
  moreover have "year_start (g + era * 400) + march_start mp + d - 1 - 719468 = days"
    using total by (simp add: d_def)
  ultimately show ?thesis unfolding c using \<open>1970 \<le> y\<close> by simp
qed

section \<open>Unix times\<close>

definition seconds_of :: "u32 \<times> u32 \<times> u32 \<times> u32 \<times> u32 \<times> u32 \<Rightarrow> int" where
  "seconds_of = (\<lambda>(y, mo, d, h, mi, s).
     ((day_number (uint y, uint mo, uint d) * 24 + uint h) * 60 + uint mi) * 60 + uint s)"

definition valid_time :: "u32 \<times> u32 \<times> u32 \<times> u32 \<times> u32 \<times> u32 \<Rightarrow> bool" where
  "valid_time = (\<lambda>(y, mo, d, h, mi, s). valid_date (uint y, uint mo, uint d) \<and> h < 24 \<and> mi < 60 \<and> s < 60)"

lemma day_number_mono: "valid_date (y, m, d) \<Longrightarrow> 1970 \<le> y \<Longrightarrow> 365 * (y - 1970) \<le> day_number (y, m, d)"
proof -
  have "1970 \<le> y \<Longrightarrow> 365 * (y - 1970) \<le> sum_list (map year_len [1970..y - 1])"
  proof (induction y rule: int_ge_induct)
    case (step y)
    have "[1970..y] = [1970..y - 1] @ [y]" using step.hyps by (intro upto_rec2) simp
    then show ?case using step by (simp add: year_len_def)
  qed simp
  moreover have "0 \<le> sum_list (map (month_len y) [1..m - 1])"
    by (rule sum_list_nonneg) (auto simp: month_len_def)
  moreover assume "valid_date (y, m, d)" "1970 \<le> y"
  ultimately show ?thesis by (simp add: day_number_def valid_date_def)
qed

lemma hms_sum: "3600 * a + b = r \<Longrightarrow> 60 * q + s = b \<Longrightarrow> (a * 60 + q) * 60 + s = r" for a b q r s :: nat
  by simp

lemma days_sum: "(h * 60 + mi) * 60 + s = r \<Longrightarrow> n * 86400 + r = t \<Longrightarrow> ((n * 24 + h) * 60 + mi) * 60 + s = t"
  for h mi s r n t :: int
  by simp

text \<open>Claim C34 (civil time): for every Unix time before the year 2^31 the date and time computed exist in the
  Gregorian calendar and lie exactly that many seconds after 1970-01-01T00:00:00.\<close>

theorem unix_time_correct:
  assumes "unat secs < 2 ^ 55"
  shows "valid_time (unix_to_ymdhms secs) \<and> seconds_of (unix_to_ymdhms secs) = int (unat secs)"
proof -
  let ?n = "int (unat secs div 86400)" and ?r = "unat secs mod 86400"
  obtain y m d where c: "civil ?n = (y, m, d)" by (cases "civil ?n")
  have v: "valid_date (y, m, d)" "day_number (y, m, d) = ?n" using civil_correct [of ?n] by (simp_all add: c)
  have y: "1970 \<le> y" using civil_correct [of ?n] by (simp add: c)
  have "?n < 2 ^ 39" using assms by simp
  then have "y < 2 ^ 32" using day_number_mono [OF v(1) y] v(2) by simp
  moreover have "1 \<le> m" "m \<le> 12" "1 \<le> d" "d \<le> 31"
    using v(1) by (auto simp: valid_date_def month_len_def split: if_splits)
  ultimately have w: "uint (of_int y :: u32) = y" "uint (of_int m :: u32) = m" "uint (of_int d :: u32) = d"
    using y by (simp_all add: unsigned_of_int take_bit_int_eq_self)
  have r: "?r div 3600 < 24" "?r mod 3600 div 60 < 60" "?r mod 60 < 60" "?r < 86400"
    by (simp_all add: less_mult_imp_div_less)
  then have u: "uint (of_nat (?r div 3600) :: u32) = int (?r div 3600)"
    "uint (of_nat (?r mod 3600 div 60) :: u32) = int (?r mod 3600 div 60)"
    "uint (of_nat (?r mod 60) :: u32) = int (?r mod 60)"
    by (simp_all add: unsigned_of_nat take_bit_nat_eq_self)
  have "(int (?r div 3600) * 60 + int (?r mod 3600 div 60)) * 60 + int (?r mod 60) = int ?r"
  proof -
    have "?r mod 3600 mod 60 = ?r mod 60" by (simp add: mod_mod_cancel)
    then have "60 * (?r mod 3600 div 60) + ?r mod 60 = ?r mod 3600"
      using mult_div_mod_eq [of 60 "?r mod 3600"] by metis
    then have "(?r div 3600 * 60 + ?r mod 3600 div 60) * 60 + ?r mod 60 = ?r"
      by (rule hms_sum [OF mult_div_mod_eq])
    from arg_cong [OF this, of int] show ?thesis by (simp only: of_nat_add of_nat_mult of_nat_numeral)
  qed
  moreover have "?n * 86400 + int ?r = int (unat secs)"
    using arg_cong [OF div_mult_mod_eq [of "unat secs" 86400], of int]
    by (simp only: of_nat_add of_nat_mult of_nat_numeral)
  ultimately have total: "((?n * 24 + int (?r div 3600)) * 60 + int (?r mod 3600 div 60)) * 60 + int (?r mod 60) =
      int (unat secs)"
    by (rule days_sum)
  have e: "unix_to_ymdhms secs = (of_int y, of_int m, of_int d, of_nat (?r div 3600), of_nat (?r mod 3600 div 60),
      of_nat (?r mod 60))"
    by (simp only: unix_to_ymdhms_def c Let_def case_prod_conv)
  have "seconds_of (unix_to_ymdhms secs) = int (unat secs)"
    unfolding e seconds_of_def case_prod_conv w u v(2) by (rule total)
  moreover have "valid_time (unix_to_ymdhms secs)"
    unfolding e valid_time_def case_prod_conv w word_less_def u using v(1) r by (intro conjI) simp_all
  ultimately show ?thesis by blast
qed

lemma unix_time_correct_witness:
  "seconds_of (unix_to_ymdhms 951782400) = 951782400 \<and> unix_to_ymdhms 951782400 = (2000, 2, 29, 0, 0, 0)"
proof
  show "seconds_of (unix_to_ymdhms 951782400) = 951782400" using unix_time_correct [of 951782400] by simp
  show "unix_to_ymdhms 951782400 = (2000, 2, 29, 0, 0, 0)" 
  proof -
    have "civil 11016 = (2000, 2, 29)" by code_simp
    then show ?thesis by (simp add: unix_to_ymdhms_def)
  qed
qed

end
