(* ===== verification/Ingest.thy ===== *)
theory Ingest
  imports Governor Segment_Log Audit_Store Lifecycle_Engine Lifecycle_Store Signals Decision_Store
    Wall_Clock Detection_Config
begin

text \<open>
  \<^verbatim>\<open>daemon/crates/athar-daemon/src/ingest.rs\<close>: the path of a frame through the daemon.  The server's
  shared parts are the fields of \<open>daemon\<close>; each sits behind its own lock, and a frame takes them
  one after the other; here a frame is one operation, \<open>Tasks\<close> cuts it at the locks.  Clock readings and fresh identifiers are
  the fields of \<open>stamps\<close>.  The serde code of \<open>Event\<close> and the JSON text are parameters
  (\<open>codecs\<close>); the connection's writer is the bytes it has carried, its calls may fail by a
  script.
\<close>

section \<open>Parts\<close>

record codecs =
  co_crypto :: crypto
  co_segments :: json_text
  co_from_slice :: "byte list \<Rightarrow> json option"
  co_to_vec :: "json \<Rightarrow> byte list"
  co_event_of :: "json \<Rightarrow> event option"
  co_event_to :: "event \<Rightarrow> json"
  co_decisions :: decision_text

record stamps =
  st_drop_ms :: u64
  st_received_secs :: u64
  st_received_micros :: nat
  st_audit_us :: i64
  st_apply_ms :: u64
  st_signal_ms :: u64
  st_now_ms :: u64
  st_latency_us :: u64
  st_signal_ulid :: "nat \<Rightarrow> string"
  st_decision_ulid :: string

record drop_counters =
  dc_frames :: u64
  dc_bytes :: u64
  dc_since_ms :: u64

definition drop_counters_default :: drop_counters where
  "drop_counters_default = \<lparr>dc_frames = 0, dc_bytes = 0, dc_since_ms = 0\<rparr>"

record coverage_gap_summary =
  gap_frames :: u64
  gap_bytes :: u64
  gap_started_at_ms :: u64

definition drop_record :: "nat \<Rightarrow> u64 \<Rightarrow> drop_counters \<Rightarrow> drop_counters" where
  "drop_record frame_bytes now c =
     (let first = dc_frames c = 0;
          c = c\<lparr>dc_frames := dc_frames c + 1\<rparr>;
          c = (if first then c\<lparr>dc_since_ms := now\<rparr> else c)
      in c\<lparr>dc_bytes := dc_bytes c + of_nat frame_bytes\<rparr>)"

definition drop_take :: "drop_counters \<Rightarrow> coverage_gap_summary option \<times> drop_counters" where
  "drop_take c =
     (if dc_frames c = 0 then (None, c)
      else (Some \<lparr>gap_frames = dc_frames c, gap_bytes = dc_bytes c, gap_started_at_ms = dc_since_ms c\<rparr>,
            \<lparr>dc_frames = 0, dc_bytes = 0, dc_since_ms = 0\<rparr>))"

record conn =
  cn_bytes :: "byte list"
  cn_script :: "io_outcome list"

definition conn_write :: "byte list \<Rightarrow> (conn, unit, unit) eff" where
  "conn_write bs w = (case cn_script w of
      [] \<Rightarrow> (Inr (), w\<lparr>cn_bytes := cn_bytes w @ bs\<rparr>)
    | IoOk # r \<Rightarrow> (Inr (), w\<lparr>cn_bytes := cn_bytes w @ bs, cn_script := r\<rparr>)
    | IoFail n # r \<Rightarrow> (Inl (), w\<lparr>cn_bytes := cn_bytes w @ take n bs, cn_script := r\<rparr>))"

text \<open>The length and the body, then a flush; a failure ends the response.\<close>

definition write_json_frame :: "codecs \<Rightarrow> json \<Rightarrow> (conn, unit, unit) eff" where
  "write_json_frame k j =
     (let body = co_to_vec k j in
      bind_eff (conn_write (u32_to_be (of_nat (length body)))) (\<lambda>_.
      bind_eff (conn_write body) (\<lambda>_. conn_write [])))"

record daemon =
  d_log :: slog
  d_audit :: audit_writer
  d_governor :: governor
  d_drops :: drop_counters
  d_lifecycles :: sqlite_store
  d_signals :: signal_engine
  d_policy :: policy_engine
  d_decisions :: decision_store
  d_conn :: conn

datatype ingest_error = ParseJson | ConvertEvent | InvalidEvent validation_error
  | AppendEvidence storage_error | AppendAudit writer_error

type_synonym 'a daemon_eff = "(daemon, ingest_error, 'a) eff"

definition on_log :: "'a log_eff \<Rightarrow> 'a daemon_eff" where
  "on_log m d = (case m (d_log d) of (r, l) \<Rightarrow> (map_err AppendEvidence r, d\<lparr>d_log := l\<rparr>))"

definition on_audit :: "'a writer_eff \<Rightarrow> 'a daemon_eff" where
  "on_audit m d = (case m (d_audit d) of (r, w) \<Rightarrow> (map_err AppendAudit r, d\<lparr>d_audit := w\<rparr>))"

section \<open>Control frames\<close>

text \<open>\<open>json!\<close> builds a sorted map: the fields are in the order of their names.\<close>

fun level_str :: "pressure_level \<Rightarrow> string" where
  "level_str L0Normal = ''L0Normal''"
| "level_str L1Reduce = ''L1Reduce''"
| "level_str L2Defer = ''L2Defer''"
| "level_str L3Essential = ''L3Essential''"
| "level_str L4SafeMode = ''L4SafeMode''"

definition json_flag :: "json \<Rightarrow> string \<Rightarrow> bool" where
  "json_flag j k = (case Option.bind (json_get j k) json_as_bool of None \<Rightarrow> False | Some b \<Rightarrow> b)"

definition build_status_body :: "u64 \<Rightarrow> daemon \<Rightarrow> json" where
  "build_status_body now d = JObject [
     (''counts'', JObject [
        (''decisions_total'', JInt (int (count_decisions (d_decisions d)))),
        (''lifecycles_open'', JInt (int (sql_count_open (d_lifecycles d)))),
        (''lifecycles_total'', JInt (int (sql_count (d_lifecycles d)))),
        (''signals_total'', JInt (int (count_signals (d_decisions d))))]),
     (''daemon_version'', JString ''0.1.0''),
     (''ingest'', JObject [
        (''pending_drops_bytes'', u64_to_json (dc_bytes (d_drops d))),
        (''pending_drops_frames'', u64_to_json (dc_frames (d_drops d)))]),
     (''pressure_level'', JString (level_str (current_level (d_governor d)))),
     (''schema_version'', JString ''1.0''),
     (''timestamp_ms'', u64_to_json now)]"

definition decision_response :: "decision_record \<Rightarrow> json" where
  "decision_response r =
     (let matched = (case dr_policies_evaluated r of [] \<Rightarrow> False | p # _ \<Rightarrow> pd_matched p) in
      JObject [
        (''action'', JString (action_str (dr_action r))),
        (''decision_id'', JString (dr_decision_id r)),
        (''latency_us'', u64_to_json (dr_latency_us r)),
        (''mode'', JString (mode_str (dr_mode r))),
        (''outcome_reason'', JString (if matched then ''POLICY_MATCH'' else ''NO_POLICY_APPLIED'')),
        (''reason_codes'', JArray (map JString (dr_reason_codes r)))])"

text \<open>A response whose write fails is only logged.\<close>

definition respond :: "codecs \<Rightarrow> json \<Rightarrow> daemon \<Rightarrow> daemon" where
  "respond k j d = d\<lparr>d_conn := snd (write_json_frame k j (d_conn d))\<rparr>"

section \<open>One frame\<close>

fun outcome_lifecycle :: "apply_outcome \<Rightarrow> string option" where
  "outcome_lifecycle (Created i t s c) = Some i"
| "outcome_lifecycle (Updated i t s c) = Some i"
| "outcome_lifecycle (LateEvent i t c) = Some i"
| "outcome_lifecycle Unbound = None"

text \<open>The records of the fired signals, persisted one by one; a failure is only logged.\<close>

fun record_signals :: "stamps \<Rightarrow> event \<Rightarrow> string option \<Rightarrow> nat \<Rightarrow> signal list \<Rightarrow> decision_store \<Rightarrow>
    signal_record list \<times> decision_store" where
  "record_signals st e lc i [] ds = ([], ds)"
| "record_signals st e lc i (s # ss) ds =
     (let r = record_from_signal (st_signal_ulid st i) s (tenant_id e) (event_id e) lc (st_now_ms st) tracker_version;
          ds = snd (write_signal r ds);
          (rs, ds) = record_signals st e lc (Suc i) ss ds
      in (r # rs, ds))"

text \<open>Projection and detection, after evidence and audit: none of it can fail the frame.\<close>

definition project_event :: "codecs \<Rightarrow> stamps \<Rightarrow> event \<Rightarrow> daemon \<Rightarrow> decision_record \<times> daemon" where
  "project_event k st e d =
     (let (outcome, lcs) = apply_event sql_ops e (st_apply_ms st) (d_lifecycles d);
          lc = outcome_lifecycle outcome;
          (signals, se) = evaluate_signals e (st_signal_ms st) (d_signals d);
          (records, ds) = record_signals st e lc 0 signals (d_decisions d);
          policy = policy_evaluate (d_policy d) signals;
          decision = decision_build (st_decision_ulid st) (tenant_id e)
            \<lparr>ds_lifecycle_id = lc, ds_event_id = event_id e,
             ds_operation_id = Option.bind (operation e) operation_id\<rparr>
            policy records (st_now_ms st) (level_str (current_level (d_governor d))) (st_latency_us st);
          ds = snd (write_decision (co_decisions k) decision ds)
      in (decision, d\<lparr>d_lifecycles := lcs, d_signals := se, d_decisions := ds\<rparr>))"

definition ingest_event :: "codecs \<Rightarrow> stamps \<Rightarrow> bool \<Rightarrow> event \<Rightarrow> unit daemon_eff" where
  "ingest_event k st wants_response e =
     (let canonical = co_to_vec k (co_event_to k e) in
      bind_eff (on_log (log_append canonical)) (\<lambda>_.
      bind_eff (on_audit (observe (co_crypto k) (co_segments k) (st_audit_us st) ''event'' canonical)) (\<lambda>_ d.
      let (decision, d) = project_event k st e d in
      (Inr (), if wants_response then respond k (decision_response decision) d else d))))"

definition ingest_one :: "codecs \<Rightarrow> stamps \<Rightarrow> byte list \<Rightarrow> unit daemon_eff" where
  "ingest_one k st frame d =
     (if \<not> allows (current_level (d_governor d)) P1
      then (Inr (), d\<lparr>d_drops := drop_record (length frame) (st_drop_ms st) (d_drops d)\<rparr>)
      else case co_from_slice k frame of
        None \<Rightarrow> (Inl ParseJson, d)
      | Some raw \<Rightarrow>
          if json_flag raw ''__status__''
          then (Inr (), respond k (build_status_body (st_now_ms st) d) d)
          else case co_event_of k raw of
            None \<Rightarrow> (Inl ConvertEvent, d)
          | Some e \<Rightarrow>
              (case validate e of
                 Inl v \<Rightarrow> (Inl (InvalidEvent v), d)
               | Inr u \<Rightarrow> ingest_event k st (json_flag raw ''__evaluate__'')
                   (e\<lparr>received_at := rfc3339 (st_received_secs st) (st_received_micros st)\<rparr>) d))"

section \<open>Connections\<close>

text \<open>What the length-delimited codec hands over: a frame, or the error that ends the stream.\<close>

datatype frame_item = Frame "byte list" | FrameError

fun process_stream :: "codecs \<Rightarrow> (stamps \<times> frame_item) list \<Rightarrow> daemon \<Rightarrow> daemon" where
  "process_stream k [] d = d"
| "process_stream k ((st, FrameError) # fs) d = d"
| "process_stream k ((st, Frame f) # fs) d = process_stream k fs (snd (ingest_one k st f d))"

section \<open>Coverage gaps and shutdown\<close>

definition coverage_gap_json :: "coverage_gap_summary \<Rightarrow> u64 \<Rightarrow> json" where
  "coverage_gap_json s now = JObject [
     (''bytes'', u64_to_json (gap_bytes s)), (''cause'', JString ''L4_SAFE_MODE''),
     (''frames'', u64_to_json (gap_frames s)), (''kind'', JString ''coverage_gap''),
     (''recorded_at_ms'', u64_to_json now), (''window_started_at_ms'', u64_to_json (gap_started_at_ms s))]"

text \<open>The audit commitment is made even when the evidence append fails; both failures are only
  logged.\<close>

definition emit_coverage_gap :: "codecs \<Rightarrow> u64 \<Rightarrow> i64 \<Rightarrow> daemon \<Rightarrow> daemon" where
  "emit_coverage_gap k now now_us d =
     (let (s, c) = drop_take (d_drops d); d = d\<lparr>d_drops := c\<rparr> in
      case s of
        None \<Rightarrow> d
      | Some summary \<Rightarrow>
          let payload = co_to_vec k (coverage_gap_json summary now);
              d = snd (on_log (log_append payload) d)
          in snd (on_audit (observe (co_crypto k) (co_segments k) now_us ''coverage_gap'' payload) d))"

text \<open>The watcher of the pressure level: a change away from safe mode emits the gap.\<close>

definition watch_pressure :: "codecs \<Rightarrow> u64 \<Rightarrow> i64 \<Rightarrow> bool \<times> daemon \<Rightarrow> bool \<times> daemon" where
  "watch_pressure k now now_us = (\<lambda>(was_l4, d).
     let is_l4 = current_level (d_governor d) = L4SafeMode in
     (is_l4, if was_l4 \<and> \<not> is_l4 then emit_coverage_gap k now now_us d else d))"

text \<open>The drain at the end of \<open>run\<close>: the last gap, the pending audit records, the active segment.
  The aborted tasks and the open connections hold the log by reference counting: while one of them
  is alive (\<open>borrowed\<close>) the log cannot be taken out, and it is not closed.\<close>

datatype shutdown_error = LogBorrowed | ClosingLog storage_error

definition shutdown :: "codecs \<Rightarrow> u64 \<Rightarrow> i64 \<Rightarrow> bool \<Rightarrow> daemon \<Rightarrow> (shutdown_error, unit) result \<times> daemon" where
  "shutdown k now now_us borrowed d =
     (let d = emit_coverage_gap k now now_us d;
          d = snd (on_audit (flush (co_segments k)) d)
      in if borrowed then (Inl LogBorrowed, d)
         else case log_close (d_log d) of (r, l) \<Rightarrow> (map_err ClosingLog r, d\<lparr>d_log := l\<rparr>))"

definition run_staleness_scan :: "u64 \<Rightarrow> daemon \<Rightarrow> staleness_result list \<times> daemon" where
  "run_staleness_scan now d =
     (case sweep sql_ops now (d_lifecycles d) of (rs, s) \<Rightarrow> (rs, d\<lparr>d_lifecycles := s\<rparr>))"

end
