(* ===== verification/Ingest_Props.thy ===== *)
theory Ingest_Props
  imports Ingest Segment_Log_Refine Audit_Writer_Proofs "HOL-Library.Sublist"
begin

text \<open>
  What the ingest path promises: evidence before audit before projection, one audit commitment
  per payload in the evidence log, one decision per accepted event, and an exact account of the
  frames dropped in safe mode.
\<close>

section \<open>Rejected frames\<close>

lemma ingest_event_cases:
  "case ingest_event k st wants e d of
     (Inr u, d') \<Rightarrow> (\<exists>r l w. log_append (co_to_vec k (co_event_to k e)) (d_log d) = (Inr r, l) \<and>
        observe (co_crypto k) (co_segments k) (st_audit_us st) ''event'' (co_to_vec k (co_event_to k e)) (d_audit d) = (Inr (), w) \<and>
        d' = (let (dec, d1) = project_event k st e (d\<lparr>d_log := l, d_audit := w\<rparr>)
              in if wants then respond k (decision_response dec) d1 else d1))
   | (Inl (AppendEvidence x), d') \<Rightarrow> (\<exists>l. log_append (co_to_vec k (co_event_to k e)) (d_log d) = (Inl x, l) \<and> d' = d\<lparr>d_log := l\<rparr>)
   | (Inl (AppendAudit x), d') \<Rightarrow> (\<exists>r l w. log_append (co_to_vec k (co_event_to k e)) (d_log d) = (Inr r, l) \<and>
        d' = d\<lparr>d_log := l, d_audit := w\<rparr>)
   | (Inl _, d') \<Rightarrow> False"
proof -
  let ?p = "co_to_vec k (co_event_to k e)"
  obtain r l where la: "log_append ?p (d_log d) = (r, l)" by (cases "log_append ?p (d_log d)")
  obtain r' w where ob: "observe (co_crypto k) (co_segments k) (st_audit_us st) ''event'' ?p (d_audit d) = (r', w)"
    by (cases "observe (co_crypto k) (co_segments k) (st_audit_us st) ''event'' ?p (d_audit d)")
  show ?thesis
    by (cases r; cases r') (auto simp: ingest_event_def Let_def bind_eff_def on_log_def on_audit_def la ob split_def)
qed

text \<open>Claim C27 (evidence first): whatever fails, a frame that is refused leaves no trace beyond the step that failed.  A
  frame that is not JSON, not an event or not valid changes nothing; a failed evidence append
  leaves the audit chain, the lifecycles, the detection state and the connection alone; and
  when the audit commitment fails the payload is already in the evidence log and nothing after
  the commitment has happened.\<close>

theorem refused_frame_stops_where_it_failed:
  "case ingest_one k st f d of
     (Inl (AppendEvidence x), d') \<Rightarrow> \<exists>l. d' = d\<lparr>d_log := l\<rparr>
   | (Inl (AppendAudit x), d') \<Rightarrow> \<exists>payload r l w. log_append payload (d_log d) = (Inr r, l) \<and> d' = d\<lparr>d_log := l, d_audit := w\<rparr>
   | (Inl e, d') \<Rightarrow> d' = d
   | (Inr u, d') \<Rightarrow> True"
proof -
  have "case ingest_event k st wants e d of
     (Inl (AppendEvidence x), d') \<Rightarrow> \<exists>l. d' = d\<lparr>d_log := l\<rparr>
   | (Inl (AppendAudit x), d') \<Rightarrow> \<exists>payload r l w. log_append payload (d_log d) = (Inr r, l) \<and> d' = d\<lparr>d_log := l, d_audit := w\<rparr>
   | (Inl e, d') \<Rightarrow> d' = d
   | (Inr u, d') \<Rightarrow> True" for wants e
    using ingest_event_cases [where k = k and st = st and wants = wants and e = e and d = d]
    by (auto split: prod.splits sum.splits ingest_error.splits)
  then show ?thesis
    by (simp add: ingest_one_def split: option.split sum.split)
qed

section \<open>Evidence and audit agree\<close>

lemma append_cases:
  assumes "log_inv l" "next_seg_id l \<noteq> - 1" "max_record_bytes (sl_config l) < 2 ^ 32"
  shows "(\<exists>r l'. log_append data l = (Inr r, l') \<and> log_inv l' \<and> log_payloads l' = log_payloads l @ [data] \<and>
            sl_config l' = sl_config l \<and> unat (next_seg_id l') \<le> Suc (unat (next_seg_id l))) \<or>
         (\<exists>e. log_append data l = (Inl e, l))"
proof (cases "length data \<le> max_record_bytes (sl_config l) \<and>
    quota_check (lc_quota (sl_config l)) (total_bytes l) (of_nat (4 + length data)) = FitsYes")
  case False
  then have "\<exists>e. log_append data l = (Inl e, l)"
    by (cases "quota_check (lc_quota (sl_config l)) (total_bytes l) (of_nat (4 + length data))")
      (auto simp: log_append_def bind_eff_def eff_defs Let_def RECORD_HEADER_BYTES_def simp del: of_nat_add)
  then show ?thesis ..
next
  case True
  let ?k = "ready l data"
  note k = ready_inv [OF assms(1,2), of data]
  obtain a where a: "sl_active ?k = Some a" "log_append data l = (Inr (receipt_of a data), written ?k a data)"
    using log_append_ok [OF assms(1,2)] True by blast
  have fr: "frameable data" using True assms(3) by (simp add: frameable_def)
  have un: "unat (of_nat (4 + length data) :: u64) = 4 + length data"
    using True assms(3) by (intro unat_of_nat_u64) simp
  have "unat (total_bytes l) + (4 + length data) \<le> unat (limit_bytes (lc_quota (sl_config l)))"
    using True quota_check_yes_iff [of "lc_quota (sl_config l)" "total_bytes l" "of_nat (4 + length data)"]
    unfolding un by blast
  then have fit: "unat (total_bytes ?k) + (4 + length data) < 2 ^ 64"
    using k(3) unat_u64_less [of "limit_bytes (lc_quota (sl_config l))"] by simp
  have "unat (next_seg_id ?k) \<le> Suc (unat (next_seg_id l))"
    by (simp add: ready_def rotated_def unat_word_ariths)
  moreover have "next_seg_id (written ?k a data) = next_seg_id ?k" "sl_config (written ?k a data) = sl_config ?k"
    by (simp_all add: written_def)
  ultimately show ?thesis
    using a(2) log_inv_written [OF k(1) a(1) fr fit] log_payloads_written [OF k(1) a(1) fr fit] k(2,5) by auto
qed

text \<open>Which records an append accepts, and how much is left after it.\<close>

definition room :: "slog \<Rightarrow> nat" where
  "room l = unat (limit_bytes (lc_quota (sl_config l))) - unat (total_bytes l)"

definition fits :: "slog \<Rightarrow> byte list \<Rightarrow> bool" where
  "fits l p \<longleftrightarrow> length p \<le> max_record_bytes (sl_config l) \<and> 4 + length p \<le> room l"

lemma append_exact:
  assumes "log_inv l" "next_seg_id l \<noteq> - 1" "max_record_bytes (sl_config l) < 2 ^ 32"
  shows "if fits l p then \<exists>r l'. log_append p l = (Inr r, l') \<and> sl_config l' = sl_config l \<and> room l' = room l - (4 + length p)
    else \<exists>e. log_append p l = (Inl e, l)"
proof (cases "length p \<le> max_record_bytes (sl_config l)")
  case False
  then show ?thesis by (simp add: fits_def log_append_def bind_eff_def eff_defs)
next
  case True
  then have un: "unat (of_nat (4 + length p) :: u64) = 4 + length p"
    using assms(3) by (intro unat_of_nat_u64) simp
  have q: "quota_check (lc_quota (sl_config l)) (total_bytes l) (of_nat (4 + length p)) = FitsYes \<longleftrightarrow> fits l p"
    using True unfolding quota_check_yes_iff un by (auto simp: fits_def room_def)
  show ?thesis
  proof (cases "fits l p")
    case False
    then show ?thesis using q True
      by (cases "quota_check (lc_quota (sl_config l)) (total_bytes l) (of_nat (4 + length p))")
        (auto simp: log_append_def bind_eff_def eff_defs Let_def RECORD_HEADER_BYTES_def simp del: of_nat_add)
  next
    case fit: True
    then obtain a where a: "log_append p l = (Inr (receipt_of a p), written (ready l p) a p)"
      using log_append_ok [OF assms(1,2) True] q by blast
    note k = ready_inv [OF assms(1,2), of p]
    have "unat (total_bytes l) + (4 + length p) < 2 ^ 64"
      using fit unat_u64_less [of "limit_bytes (lc_quota (sl_config l))"] by (auto simp: fits_def room_def)
    then have "unat (total_bytes l + of_nat (4 + length p)) = unat (total_bytes l) + (4 + length p)"
      using unat_add_lem [of "total_bytes l" "of_nat (4 + length p)"] by (simp only: un) simp
    then have "unat (total_bytes (written (ready l p) a p)) = unat (total_bytes l) + (4 + length p)"
      by (simp add: written_def k(3))
    moreover have c: "sl_config (written (ready l p) a p) = sl_config l" by (simp add: written_def k(5))
    ultimately have "room (written (ready l p) a p) = room l - (4 + length p)" by (simp add: room_def)
    with c show ?thesis using a fit by simp
  qed
qed

text \<open>The daemon and what its two logs stand for: the evidence payloads and the list of audit
  observations, stored or pending; \<open>n\<close> more records can be numbered.\<close>

definition trail :: "audit_spec \<Rightarrow> (string \<times> byte list) list" where
  "trail a = fst a @ snd a"

definition logs_ok :: "codecs \<Rightarrow> byte list \<Rightarrow> u64 \<Rightarrow> nat \<Rightarrow> daemon \<Rightarrow> audit_segment list \<Rightarrow> audit_spec \<Rightarrow> bool" where
  "logs_ok k key m n d segs a \<longleftrightarrow>
     log_inv (d_log d) \<and> max_record_bytes (sl_config (d_log d)) < 2 ^ 32 \<and>
     unat (next_seg_id (d_log d)) + n < 2 ^ 64 - 1 \<and>
     aw_inv (co_crypto k) (co_segments k) key m (d_audit d) segs \<and>
     refines (co_crypto k) a (d_audit d) segs \<and> length (trail a) + n < 2 ^ 64 - 2"

lemma trail_observe: "trail (spec_step m (Observe t kind p) a) = trail a @ [(kind, p)]"
  by (cases a) (simp add: trail_def)

lemma logs_ok_cong:
  "d_log d' = d_log d \<Longrightarrow> d_audit d' = d_audit d \<Longrightarrow> logs_ok k key m n d' segs a = logs_ok k key m n d segs a"
  by (simp add: logs_ok_def)

lemma logs_ok_less: "logs_ok k key m (Suc n) d segs a \<Longrightarrow> logs_ok k key m n d segs a"
  by (simp add: logs_ok_def)

lemma project_logs [simp]:
  "d_log (snd (project_event k st e d)) = d_log d" "d_audit (snd (project_event k st e d)) = d_audit d"
  "d_governor (snd (project_event k st e d)) = d_governor d" "d_drops (snd (project_event k st e d)) = d_drops d"
  "d_conn (snd (project_event k st e d)) = d_conn d" "d_policy (snd (project_event k st e d)) = d_policy d"
  by (simp_all add: project_event_def Let_def split_def)

lemma respond_logs [simp]:
  "d_log (respond k j d) = d_log d" "d_audit (respond k j d) = d_audit d" "d_governor (respond k j d) = d_governor d"
  "d_drops (respond k j d) = d_drops d" "d_decisions (respond k j d) = d_decisions d"
  by (simp_all add: respond_def)

text \<open>The payload a frame offers: its event, stamped and serialized again.\<close>

definition candidate :: "codecs \<Rightarrow> stamps \<Rightarrow> byte list \<Rightarrow> byte list option" where
  "candidate k st f = (case co_from_slice k f of None \<Rightarrow> None | Some raw \<Rightarrow>
     if json_flag raw ''__status__'' then None
     else case co_event_of k raw of None \<Rightarrow> None | Some e \<Rightarrow>
       if validate e = Inr () then Some (co_to_vec k (co_event_to k
         (e\<lparr>received_at := rfc3339 (st_received_secs st) (st_received_micros st)\<rparr>)))
       else None)"

lemma unat_max_u64: "unat (- 1 :: u64) = 2 ^ 64 - 1"
  by (simp add: unsigned_minus_1_eq_mask mask_eq_exp_minus_1)

text \<open>The step every writer of evidence takes: append the payload, then commit to it.\<close>

definition commit :: "codecs \<Rightarrow> i64 \<Rightarrow> string \<Rightarrow> byte list \<Rightarrow> unit daemon_eff" where
  "commit k us kind p = bind_eff (on_log (log_append p)) (\<lambda>_.
     on_audit (observe (co_crypto k) (co_segments k) us kind p))"

text \<open>The two halves of \<open>logs_ok\<close>, and the one step each log takes.\<close>

definition log_part :: "nat \<Rightarrow> slog \<Rightarrow> bool" where
  "log_part n l \<longleftrightarrow> log_inv l \<and> max_record_bytes (sl_config l) < 2 ^ 32 \<and> unat (next_seg_id l) + n < 2 ^ 64 - 1"

definition audit_part :: "codecs \<Rightarrow> byte list \<Rightarrow> u64 \<Rightarrow> nat \<Rightarrow> audit_writer \<Rightarrow> audit_segment list \<Rightarrow> audit_spec \<Rightarrow> bool" where
  "audit_part k key m n w segs a \<longleftrightarrow> aw_inv (co_crypto k) (co_segments k) key m w segs \<and>
     refines (co_crypto k) a w segs \<and> length (trail a) + n < 2 ^ 64 - 2"

lemma logs_ok_parts:
  "logs_ok k key m n d segs a \<longleftrightarrow> log_part n (d_log d) \<and> audit_part k key m n (d_audit d) segs a"
  by (auto simp: logs_ok_def log_part_def audit_part_def)

lemma append_part:
  assumes "log_part (Suc n) l" "log_append p l = (r, l')"
  shows "log_part n l'" "log_payloads l' = log_payloads l @ (case r of Inl e \<Rightarrow> [] | Inr x \<Rightarrow> [p])"
    "r = Inl e \<Longrightarrow> l' = l"
proof -
  have "log_inv l" "next_seg_id l \<noteq> - 1" "max_record_bytes (sl_config l) < 2 ^ 32"
    using assms(1) unat_max_u64 by (auto simp: log_part_def)
  from append_cases [OF this, of p] assms
  show "log_part n l'" "log_payloads l' = log_payloads l @ (case r of Inl e \<Rightarrow> [] | Inr x \<Rightarrow> [p])"
    "r = Inl e \<Longrightarrow> l' = l"
    by (auto simp: log_part_def)
qed

lemma observe_part:
  assumes "audit_part k key m (Suc n) w segs a" "crypto_ok (co_crypto k)"
  obtains w' segs' a' where "observe (co_crypto k) (co_segments k) us kind p w = (Inr (), w')"
    "audit_part k key m n w' segs' a'" "trail a' = trail a @ [(kind, p)]"
proof -
  have inv: "aw_inv (co_crypto k) (co_segments k) key m w segs" "refines (co_crypto k) (fst a, snd a) w segs"
    "length (fst a) + length (snd a) < 2 ^ 64 - 2" "length (trail a) + Suc n < 2 ^ 64 - 2"
    using assms(1) by (simp_all add: audit_part_def trail_def)
  obtain w' segs' where w': "observe (co_crypto k) (co_segments k) us kind p w = (Inr (), w')"
    "aw_inv (co_crypto k) (co_segments k) key m w' segs'"
    "refines (co_crypto k) (spec_step m (Observe us kind p) (fst a, snd a)) w' segs'"
    using observe_refines [OF inv(1) assms(2) inv(2,3)] by blast
  have "audit_part k key m n w' segs' (spec_step m (Observe us kind p) a)"
    using w'(2,3) inv(4) by (simp add: audit_part_def trail_observe)
  with w'(1) show thesis by (rule that) (rule trail_observe)
qed

lemma commit_logs:
  assumes ok: "logs_ok k key m (Suc n) d segs a" and c: "crypto_ok (co_crypto k)"
  shows "(\<exists>e. commit k us kind p d = (Inl e, d)) \<or>
    (\<exists>l w segs' a'. commit k us kind p d = (Inr (), d\<lparr>d_log := l, d_audit := w\<rparr>) \<and>
       logs_ok k key m n (d\<lparr>d_log := l, d_audit := w\<rparr>) segs' a' \<and>
       log_payloads l = log_payloads (d_log d) @ [p] \<and> trail a' = trail a @ [(kind, p)])"
proof -
  have parts: "log_part (Suc n) (d_log d)" "audit_part k key m (Suc n) (d_audit d) segs a"
    using ok by (simp_all add: logs_ok_parts)
  obtain r l where la: "log_append p (d_log d) = (r, l)" by (cases "log_append p (d_log d)")
  note l = append_part [OF parts(1) la]
  show ?thesis
  proof (cases r)
    case (Inl x)
    then show ?thesis using la l(3) by (simp add: commit_def bind_eff_def on_log_def)
  next
    case (Inr x)
    obtain w segs' a' where w: "observe (co_crypto k) (co_segments k) us kind p (d_audit d) = (Inr (), w)"
      "audit_part k key m n w segs' a'" "trail a' = trail a @ [(kind, p)]"
      by (rule observe_part [OF parts(2) c])
    have "commit k us kind p d = (Inr (), d\<lparr>d_log := l, d_audit := w\<rparr>)"
      using la w(1) Inr by (simp add: commit_def bind_eff_def on_log_def on_audit_def)
    then show ?thesis using l(1,2) w(2,3) Inr
      by (intro disjI2 exI [of _ l] exI [of _ w] exI [of _ segs'] exI [of _ a']) (simp add: logs_ok_parts)
  qed
qed

lemma commit_exact:
  assumes ok: "logs_ok k key m (Suc n) d segs a" and c: "crypto_ok (co_crypto k)"
  shows "if fits (d_log d) p
    then \<exists>l w segs' a'. commit k us kind p d = (Inr (), d\<lparr>d_log := l, d_audit := w\<rparr>) \<and>
       logs_ok k key m n (d\<lparr>d_log := l, d_audit := w\<rparr>) segs' a' \<and>
       log_payloads l = log_payloads (d_log d) @ [p] \<and> trail a' = trail a @ [(kind, p)] \<and>
       sl_config l = sl_config (d_log d) \<and> room l = room (d_log d) - (4 + length p)
    else \<exists>e. commit k us kind p d = (Inl e, d)"
proof -
  have "log_inv (d_log d)" "next_seg_id (d_log d) \<noteq> - 1" "max_record_bytes (sl_config (d_log d)) < 2 ^ 32"
    using ok unat_max_u64 by (auto simp: logs_ok_def)
  note x = append_exact [OF this, of p]
  show ?thesis
  proof (cases "fits (d_log d) p")
    case False
    then show ?thesis using x by (auto simp: commit_def bind_eff_def on_log_def)
  next
    case True
    then obtain r l where l: "log_append p (d_log d) = (Inr r, l)" "sl_config l = sl_config (d_log d)"
      "room l = room (d_log d) - (4 + length p)" using x by auto
    have "d_log (snd (commit k us kind p d)) = l" using l(1)
      by (simp add: commit_def bind_eff_def on_log_def on_audit_def split: prod.split)
    moreover have "\<nexists>e. commit k us kind p d = (Inl e, d)"
    proof
      assume "\<exists>e. commit k us kind p d = (Inl e, d)"
      then have "l = d_log d" using \<open>d_log (snd (commit k us kind p d)) = l\<close> by auto
      with l(3) have "room (d_log d) = room (d_log d) - (4 + length p)" by simp
      with True show False unfolding fits_def by linarith
    qed
    ultimately obtain w segs' a' where w: "commit k us kind p d = (Inr (), d\<lparr>d_log := l, d_audit := w\<rparr>)"
      "logs_ok k key m n (d\<lparr>d_log := l, d_audit := w\<rparr>) segs' a'"
      "log_payloads l = log_payloads (d_log d) @ [p]" "trail a' = trail a @ [(kind, p)]"
      using commit_logs [OF ok c, of us kind p] by auto
    then show ?thesis unfolding if_P [OF True] using l(2,3) by blast
  qed
qed

lemma ingest_event_commit:
  "snd (ingest_event k st wants e d) =
     (case commit k (st_audit_us st) ''event'' (co_to_vec k (co_event_to k e)) d of
        (Inl x, d') \<Rightarrow> d'
      | (Inr u, d') \<Rightarrow> (let (dec, d1) = project_event k st e d'
           in if wants then respond k (decision_response dec) d1 else d1))"
  by (simp add: ingest_event_def commit_def Let_def bind_eff_def split: prod.split sum.split)

lemma ingest_event_logs:
  assumes ok: "logs_ok k key m (Suc n) d segs a" and c: "crypto_ok (co_crypto k)"
    and p: "p = co_to_vec k (co_event_to k e)"
  shows "\<exists>segs' a'. let d' = snd (ingest_event k st wants e d) in logs_ok k key m n d' segs' a' \<and>
    (log_payloads (d_log d') = log_payloads (d_log d) \<and> trail a' = trail a \<or>
     log_payloads (d_log d') = log_payloads (d_log d) @ [p] \<and> trail a' = trail a @ [(''event'', p)])"
  using commit_logs [OF ok c, of "st_audit_us st" "''event''" p]
proof (elim disjE exE conjE)
  fix x assume "commit k (st_audit_us st) ''event'' p d = (Inl x, d)"
  then show ?thesis using logs_ok_less [OF ok]
    by (intro exI [of _ segs] exI [of _ a]) (simp add: ingest_event_commit p Let_def)
next
  fix l w segs' a'
  assume cm: "commit k (st_audit_us st) ''event'' p d = (Inr (), d\<lparr>d_log := l, d_audit := w\<rparr>)"
    and ok': "logs_ok k key m n (d\<lparr>d_log := l, d_audit := w\<rparr>) segs' a'"
    and r: "log_payloads l = log_payloads (d_log d) @ [p]" "trail a' = trail a @ [(''event'', p)]"
  let ?d' = "snd (ingest_event k st wants e d)"
  have "d_log ?d' = l" "d_audit ?d' = w"
    using cm by (simp_all add: ingest_event_commit p split_def Let_def)
  then show ?thesis using ok' r
    by (intro exI [of _ segs'] exI [of _ a']) (simp add: Let_def logs_ok_def)
qed

lemma ingest_one_logs:
  assumes ok: "logs_ok k key m (Suc n) d segs a" and c: "crypto_ok (co_crypto k)"
  shows "\<exists>segs' a' ps. let d' = snd (ingest_one k st f d) in logs_ok k key m n d' segs' a' \<and>
    log_payloads (d_log d') = log_payloads (d_log d) @ ps \<and> trail a' = trail a @ map (Pair ''event'') ps \<and>
    subseq ps (case candidate k st f of None \<Rightarrow> [] | Some p \<Rightarrow> [p])"
proof (cases "\<exists>e wants. snd (ingest_one k st f d) = snd (ingest_event k st wants e d) \<and>
    candidate k st f = Some (co_to_vec k (co_event_to k e))")
  case True
  then obtain e wants where e: "snd (ingest_one k st f d) = snd (ingest_event k st wants e d)"
    "candidate k st f = Some (co_to_vec k (co_event_to k e))" by blast
  from ingest_event_logs [OF ok c refl, of st wants e]
  obtain segs' a' where "logs_ok k key m n (snd (ingest_event k st wants e d)) segs' a'"
    "log_payloads (d_log (snd (ingest_event k st wants e d))) = log_payloads (d_log d) \<and> trail a' = trail a \<or>
     log_payloads (d_log (snd (ingest_event k st wants e d))) = log_payloads (d_log d) @ [co_to_vec k (co_event_to k e)] \<and>
     trail a' = trail a @ [(''event'', co_to_vec k (co_event_to k e))]"
    unfolding Let_def by blast
  then show ?thesis unfolding e Let_def option.case
    by (elim disjE conjE)
      (rule exI [of _ segs'], rule exI [of _ a'], rule exI [of _ "[]"], simp,
       rule exI [of _ segs'], rule exI [of _ a'], rule exI [of _ "[co_to_vec k (co_event_to k e)]"], simp)
next
  case False
  then have "d_log (snd (ingest_one k st f d)) = d_log d" "d_audit (snd (ingest_one k st f d)) = d_audit d"
    by (auto simp: ingest_one_def candidate_def split: option.splits sum.splits if_splits)
  then show ?thesis
    using logs_ok_less [OF ok] by (intro exI [of _ segs] exI [of _ a] exI [of _ "[]"]) (simp add: Let_def logs_ok_def)
qed

text \<open>The payloads a stream offers, in order, up to the error that ends it.\<close>

fun candidates :: "codecs \<Rightarrow> (stamps \<times> frame_item) list \<Rightarrow> byte list list" where
  "candidates k [] = []"
| "candidates k ((st, FrameError) # fs) = []"
| "candidates k ((st, Frame f) # fs) = (case candidate k st f of None \<Rightarrow> [] | Some p \<Rightarrow> [p]) @ candidates k fs"

lemma process_stream_logs:
  assumes "logs_ok k key m (length fs) d segs a" "crypto_ok (co_crypto k)"
  shows "\<exists>segs' a' ps. let d' = process_stream k fs d in logs_ok k key m 0 d' segs' a' \<and>
    log_payloads (d_log d') = log_payloads (d_log d) @ ps \<and> trail a' = trail a @ map (Pair ''event'') ps \<and>
    subseq ps (candidates k fs)"
  using assms
proof (induction k fs d arbitrary: segs a rule: process_stream.induct)
  case (1 k d)
  then show ?case by (intro exI [of _ segs] exI [of _ a] exI [of _ "[]"]) simp
next
  case (2 k st fs d)
  then have "logs_ok k key m 0 d segs a" by (simp add: logs_ok_def)
  then show ?case by (intro exI [of _ segs] exI [of _ a] exI [of _ "[]"]) simp
next
  case (3 k st f fs d)
  let ?d1 = "snd (ingest_one k st f d)"
  have "logs_ok k key m (Suc (length fs)) d segs a" using "3.prems"(1) by simp
  from ingest_one_logs [OF this "3.prems"(2), of st f]
  obtain segs1 a1 ps1 where 1: "logs_ok k key m (length fs) ?d1 segs1 a1"
    "log_payloads (d_log ?d1) = log_payloads (d_log d) @ ps1" "trail a1 = trail a @ map (Pair ''event'') ps1"
    "subseq ps1 (case candidate k st f of None \<Rightarrow> [] | Some p \<Rightarrow> [p])"
    unfolding Let_def by blast
  from "3.IH" [OF 1(1) "3.prems"(2)]
  obtain segs2 a2 ps2 where 2: "logs_ok k key m 0 (process_stream k fs ?d1) segs2 a2"
    "log_payloads (d_log (process_stream k fs ?d1)) = log_payloads (d_log ?d1) @ ps2"
    "trail a2 = trail a1 @ map (Pair ''event'') ps2" "subseq ps2 (candidates k fs)"
    unfolding Let_def by blast
  have "subseq (ps1 @ ps2) (candidates k ((st, Frame f) # fs))"
    using list_emb_append_mono [OF 1(4) 2(4)] by simp
  with 1 2 show ?case
    by (intro exI [of _ segs2] exI [of _ a2] exI [of _ "ps1 @ ps2"]) (simp add: Let_def)
qed

text \<open>The daemon as it starts on empty directories; the other parts are arbitrary.\<close>

definition fresh_logs :: "codecs \<Rightarrow> byte list \<Rightarrow> string \<Rightarrow> u64 \<Rightarrow> log_config \<Rightarrow> daemon \<Rightarrow> daemon" where
  "fresh_logs k key tn m c d = d\<lparr>d_log := slog_new c (disk_of []),
     d_audit := audit_start (co_crypto k) (co_segments k) key tn m\<rparr>"

lemma fresh_logs_ok:
  assumes "json_text_ok (co_segments k)" "max_record_bytes c < 2 ^ 32" "n < 2 ^ 64 - 2"
  shows "logs_ok k key m n (fresh_logs k key tn m c d) [] ([], [])"
  using audit_start_inv [OF assms(1), where c = "co_crypto k" and key = key and tn = tn and m = m] assms(2,3) log_inv_new [of c]
  by (simp add: logs_ok_def fresh_logs_def slog_new_def trail_def)

text \<open>Claim C24 (evidence and audit agree): whatever a client sends, the audit trail commits to exactly the
  payloads of the evidence log, in their order, and these are some of the events the client
  sent, in the order it sent them; the stored part of the trail verifies.\<close>

theorem evidence_and_audit_agree:
  assumes "crypto_ok (co_crypto k)" "json_text_ok (co_segments k)"
    and "max_record_bytes c < 2 ^ 32" "length fs < 2 ^ 64 - 2"
  shows "let d' = process_stream k fs (fresh_logs k key tn m c d) in
    \<exists>segs. subseq (log_payloads (d_log d')) (candidates k fs) \<and>
      map entry (all_records segs @ cw_records (inner (d_audit d'))) =
        committed (co_crypto k) (map (Pair ''event'') (log_payloads (d_log d'))) \<and>
      chain_on_disk (co_crypto k) (co_segments k) (aw_disk (d_audit d')) segs \<and>
      fst (verify_all (co_crypto k) (co_segments k) (aw_disk (d_audit d'))) =
        Inr \<lparr>segments_verified = length segs, records_verified = length (all_records segs)\<rparr>"
proof -
  let ?d = "fresh_logs k key tn m c d"
  from process_stream_logs [OF fresh_logs_ok [OF assms(2,3,4)] assms(1)]
  obtain segs a ps where 1: "logs_ok k key m 0 (process_stream k fs ?d) segs a"
    "log_payloads (d_log (process_stream k fs ?d)) = log_payloads (d_log ?d) @ ps"
    "trail a = trail ([], []) @ map (Pair ''event'') ps" "subseq ps (candidates k fs)"
    unfolding Let_def by blast
  have ps: "log_payloads (d_log (process_stream k fs ?d)) = ps"
    using 1(2) by (simp add: fresh_logs_def log_payloads_def slog_new_def)
  have d: "chain_on_disk (co_crypto k) (co_segments k) (aw_disk (d_audit (process_stream k fs ?d))) segs"
    using 1(1) by (simp add: logs_ok_def aw_inv_def)
  have "map entry (all_records segs @ cw_records (inner (d_audit (process_stream k fs ?d)))) = committed (co_crypto k) (trail a)"
    using 1(1) by (simp add: logs_ok_def refines_def trail_def)
  with 1(3,4) d verify_all_ok [OF assms(2) d] show ?thesis
    by (auto simp: Let_def ps trail_def)
qed

section \<open>Safe mode\<close>

fun dropped :: "(stamps \<times> frame_item) list \<Rightarrow> (stamps \<times> byte list) list" where
  "dropped [] = []"
| "dropped ((st, FrameError) # fs) = []"
| "dropped ((st, Frame f) # fs) = (st, f) # dropped fs"

lemma drops_run:
  "\<not> allows (current_level (d_governor d)) P1 \<Longrightarrow>
   process_stream k fs d = d\<lparr>d_drops := fold (\<lambda>(st, f). drop_record (length f) (st_drop_ms st)) (dropped fs) (d_drops d)\<rparr>"
  by (induction k fs d rule: process_stream.induct) (simp_all add: ingest_one_def)

lemma drops_fold:
  assumes "dc_frames c \<noteq> 0" "unat (dc_frames c) + length xs < 2 ^ 64"
  shows "fold (\<lambda>(st, f). drop_record (length f) (st_drop_ms st)) xs c =
    c\<lparr>dc_frames := dc_frames c + of_nat (length xs), dc_bytes := dc_bytes c + of_nat (sum_list (map (length \<circ> snd) xs))\<rparr>"
  using assms
proof (induction xs arbitrary: c)
  case (Cons x xs)
  obtain st f where x: "x = (st, f)" by (cases x)
  let ?c = "drop_record (length f) (st_drop_ms st) c"
  have c: "?c = c\<lparr>dc_frames := dc_frames c + 1, dc_bytes := dc_bytes c + of_nat (length f)\<rparr>"
    using Cons.prems(1) by (simp add: drop_record_def Let_def)
  have u: "unat (dc_frames c + 1) = Suc (unat (dc_frames c))" using Cons.prems(2) by (intro unat_plus_one) simp
  then have "dc_frames c + 1 \<noteq> 0" by (metis nat.simps(3) unat_0)
  then show ?case using Cons.IH [of ?c] Cons.prems(2) u by (simp add: x c ac_simps)
qed simp

text \<open>Claim C28 (safe mode accounts for every frame): in safe mode a stream changes nothing but the drop counters, and the
  next coverage gap reports exactly the number of the frames that were dropped, their total
  size and the time of the first.\<close>

theorem safe_mode_gap_exact:
  assumes "current_level (d_governor d) = L4SafeMode" "d_drops d = drop_counters_default"
    and "dropped fs = (st, f) # rest" "length (dropped fs) < 2 ^ 64"
  shows "process_stream k fs d = d\<lparr>d_drops := d_drops (process_stream k fs d)\<rparr> \<and>
    fst (drop_take (d_drops (process_stream k fs d))) = Some \<lparr>gap_frames = of_nat (length (dropped fs)),
      gap_bytes = of_nat (sum_list (map (length \<circ> snd) (dropped fs))), gap_started_at_ms = st_drop_ms st\<rparr> \<and>
    snd (drop_take (d_drops (process_stream k fs d))) = drop_counters_default"
proof -
  let ?c = "drop_record (length f) (st_drop_ms st) drop_counters_default"
  have c: "?c = \<lparr>dc_frames = 1, dc_bytes = of_nat (length f), dc_since_ms = st_drop_ms st\<rparr>"
    by (simp add: drop_record_def drop_counters_default_def Let_def)
  have run: "process_stream k fs d = d\<lparr>d_drops := fold (\<lambda>(st, f). drop_record (length f) (st_drop_ms st)) (dropped fs) (d_drops d)\<rparr>"
    using assms(1) by (intro drops_run) simp
  have "fold (\<lambda>(st, f). drop_record (length f) (st_drop_ms st)) rest ?c =
      ?c\<lparr>dc_frames := dc_frames ?c + of_nat (length rest), dc_bytes := dc_bytes ?c + of_nat (sum_list (map (length \<circ> snd) rest))\<rparr>"
    using assms(3,4) by (intro drops_fold) (simp_all add: c)
  then have drops: "d_drops (process_stream k fs d) = \<lparr>dc_frames = of_nat (length (dropped fs)),
      dc_bytes = of_nat (sum_list (map (length \<circ> snd) (dropped fs))), dc_since_ms = st_drop_ms st\<rparr>"
    by (simp add: run assms(2,3) c)
  have "unat (of_nat (length (dropped fs)) :: u64) = length (dropped fs)"
    by (rule unat_of_nat_u64) (rule assms(4))
  then have "(of_nat (length (dropped fs)) :: u64) \<noteq> 0" using assms(3) by (metis list.size(3) length_0_conv list.distinct(1) unat_0)
  then show ?thesis
    using drops by (intro conjI) (simp add: run, simp_all add: drop_take_def drop_counters_default_def)
qed

definition demo_stamps :: "u64 \<Rightarrow> stamps" where
  "demo_stamps t = \<lparr>st_drop_ms = t, st_received_secs = 0, st_received_micros = 0, st_audit_us = 0,
     st_apply_ms = t, st_signal_ms = t, st_now_ms = t, st_latency_us = 1,
     st_signal_ulid = \<lambda>i. ''S'', st_decision_ulid = ''D''\<rparr>"

definition demo_codecs :: codecs where
  "demo_codecs = \<lparr>co_crypto = toy_crypto, co_segments = numbered_text, co_from_slice = \<lambda>bs. Some JNull,
     co_to_vec = \<lambda>j. [1, 2, 3], co_event_of = \<lambda>j. Some (demo_event ''e1'' ''payment.create'' ''t''),
     co_event_to = \<lambda>e. JNull,
     co_decisions = \<lparr>dt_print = \<lambda>d. [], dt_parse = \<lambda>t. None\<rparr>\<rparr>"

definition demo_daemon :: daemon where
  "demo_daemon = \<lparr>d_log = slog_new log_config_defaults (disk_of []),
     d_audit = audit_start toy_crypto numbered_text [9] ''tnt'' 2,
     d_governor = governor_new gov_config_default 0, d_drops = drop_counters_default,
     d_lifecycles = sql_open_in_memory, d_signals = signal_engine_new signal_config_default,
     d_policy = policy_engine_new policy_config_default, d_decisions = dec_open_in_memory,
     d_conn = \<lparr>cn_bytes = [], cn_script = []\<rparr>\<rparr>"

lemma evidence_and_audit_agree_witness:
  "let d' = process_stream demo_codecs [(demo_stamps 5, Frame [7]), (demo_stamps 6, Frame [8])]
      (fresh_logs demo_codecs [9] ''tnt'' 2 log_config_defaults demo_daemon) in
    \<exists>segs. subseq (log_payloads (d_log d')) [[1, 2, 3], [1, 2, 3]] \<and>
      map entry (all_records segs @ cw_records (inner (d_audit d'))) =
        committed toy_crypto (map (Pair ''event'') (log_payloads (d_log d')))"
proof -
  let ?fs = "[(demo_stamps 5, Frame [7]), (demo_stamps 6, Frame [8])]"
  have "candidate demo_codecs st f = Some [1, 2, 3]" for st f
    by (simp add: candidate_def demo_codecs_def json_flag_def demo_event_def SCHEMA_VERSION_def
        validate_def known_text_def known_actor_def RESERVED_UNKNOWN_TOKENS_def)
  then have "candidates demo_codecs ?fs = [[1, 2, 3], [1, 2, 3]]" by simp
  moreover have "co_crypto demo_codecs = toy_crypto" "co_segments demo_codecs = numbered_text"
    by (simp_all add: demo_codecs_def)
  moreover have "max_record_bytes log_config_defaults < 2 ^ 32" by (simp add: log_config_defaults_def)
  ultimately show ?thesis
    using evidence_and_audit_agree [of demo_codecs log_config_defaults ?fs "[9]" "''tnt''" 2 demo_daemon]
      toy_crypto_ok numbered_text_ok unfolding Let_def by auto
qed

definition safe_daemon :: daemon where
  "safe_daemon = demo_daemon\<lparr>d_governor := foldl gov_step (governor_new gov_config_default 0) [gov_demo 0 6000, Tick (secs 10)]\<rparr>"

lemma safe_mode_gap_exact_witness:
  "fst (drop_take (d_drops (process_stream demo_codecs
     [(demo_stamps 5, Frame [7, 7]), (demo_stamps 6, Frame [8]), (demo_stamps 7, FrameError)] safe_daemon))) =
   Some \<lparr>gap_frames = 2, gap_bytes = 3, gap_started_at_ms = 5\<rparr>"
proof -
  have "current_level (d_governor safe_daemon) = L4SafeMode"
    by (simp add: safe_daemon_def gov_eval)
  then show ?thesis
    using safe_mode_gap_exact [of safe_daemon "[(demo_stamps 5, Frame [7, 7]), (demo_stamps 6, Frame [8]), (demo_stamps 7, FrameError)]"
        "demo_stamps 5" "[7, 7]" "[(demo_stamps 6, [8])]" demo_codecs]
    by (simp add: safe_daemon_def demo_daemon_def demo_stamps_def)
qed

section \<open>One decision per accepted event\<close>

lemma write_signal_works:
  "dec_script ds = [] \<Longrightarrow> snd (write_signal r ds) =
     ds\<lparr>signals_table := replace_row sgr_signal_id (signal_row_of r) (signals_table ds)\<rparr>"
  by (cases ds) (simp add: write_signal_def dec_ok_def dec_next_def)

lemma replace_row_has: "q \<in> set (replace_row key r rs) \<longleftrightarrow> q = r \<or> q \<in> set rs \<and> key q \<noteq> key r"
  by (auto simp: replace_row_def)

lemma record_signals_spec:
  assumes "dec_script ds = []" "inj (st_signal_ulid st)"
  shows "case record_signals st e lc i ss ds of (rs, ds') \<Rightarrow>
    dec_script ds' = [] \<and> decisions_table ds' = decisions_table ds \<and> map sig_kind rs = map s_kind ss \<and>
    (\<forall>r \<in> set rs. sig_event_id r = event_id e \<and> sig_lifecycle_id r = lc \<and> sig_tenant_id r = tenant_id e \<and>
       signal_row_of r \<in> set (signals_table ds')) \<and>
    (\<forall>q \<in> set (signals_table ds). (\<forall>j \<ge> i. sgr_signal_id q \<noteq> ''sig_'' @ st_signal_ulid st j) \<longrightarrow> q \<in> set (signals_table ds'))"
  using assms(1)
proof (induction ss arbitrary: i ds)
  case (Cons s ss)
  define r where "r = record_from_signal (st_signal_ulid st i) s (tenant_id e) (event_id e) lc (st_now_ms st) tracker_version"
  define ds1 where "ds1 = snd (write_signal r ds)"
  have ds1: "ds1 = ds\<lparr>signals_table := replace_row sgr_signal_id (signal_row_of r) (signals_table ds)\<rparr>"
    unfolding ds1_def by (rule write_signal_works [OF Cons.prems])
  obtain rs ds' where rs: "record_signals st e lc (Suc i) ss ds1 = (rs, ds')" by (cases "record_signals st e lc (Suc i) ss ds1")
  have run: "record_signals st e lc i (s # ss) ds = (r # rs, ds')" by (simp add: Let_def r_def [symmetric] ds1_def [symmetric] rs)
  have id: "sgr_signal_id (signal_row_of r) = ''sig_'' @ st_signal_ulid st i"
    by (simp add: signal_row_of_def r_def record_from_signal_def)
  have new: "sgr_signal_id (signal_row_of r) \<noteq> ''sig_'' @ st_signal_ulid st j" if "Suc i \<le> j" for j
    using that inj_eq [OF assms(2)] unfolding id by (auto dest: inj_eq [OF assms(2), THEN iffD1])
  have "dec_script ds1 = []" using Cons.prems by (simp add: ds1)
  from Cons.IH [OF this, of "Suc i"] have ih: "dec_script ds' = []" "decisions_table ds' = decisions_table ds1"
    "map sig_kind rs = map s_kind ss"
    "\<And>r. r \<in> set rs \<Longrightarrow> sig_event_id r = event_id e \<and> sig_lifecycle_id r = lc \<and> sig_tenant_id r = tenant_id e \<and>
       signal_row_of r \<in> set (signals_table ds')"
    "\<And>q. q \<in> set (signals_table ds1) \<Longrightarrow> (\<And>j. Suc i \<le> j \<Longrightarrow> sgr_signal_id q \<noteq> ''sig_'' @ st_signal_ulid st j) \<Longrightarrow>
       q \<in> set (signals_table ds')"
    unfolding rs by blast+
  have "signal_row_of r \<in> set (signals_table ds')" by (rule ih(5)) (use new in \<open>simp_all add: ds1 replace_row_has\<close>)
  moreover have "q \<in> set (signals_table ds')"
    if "q \<in> set (signals_table ds)" "\<forall>j \<ge> i. sgr_signal_id q \<noteq> ''sig_'' @ st_signal_ulid st j" for q
    using that by (intro ih(5)) (simp_all add: ds1 replace_row_has id)
  moreover have "sig_kind r = s_kind s" "sig_event_id r = event_id e" "sig_lifecycle_id r = lc" "sig_tenant_id r = tenant_id e"
    by (simp_all add: r_def record_from_signal_def)
  ultimately show ?case unfolding run using ih(1-4) by (simp add: ds1)
qed simp

text \<open>Claim C26 (one decision per event, INV-16): while the decision database accepts its writes, an accepted event leaves
  one decision row under the fresh identifier: its action, mode and reason codes are those of the first enabled rule
  of the policy in force whose kinds of signals all fired on the event, else to allow; it names the event, the
  lifecycle the engine found and the signals, which are all stored too; every other decision is as before, the
  record reads back when its JSON does, and the client hears of it only if it asked.\<close>

theorem accepted_event_has_decision:
  assumes "ingest_event k st wants e d = (Inr (), d')" "dec_script (d_decisions d) = []" "inj (st_signal_ulid st)"
  shows "let ss = fst (evaluate_signals e (st_signal_ms st) (d_signals d));
      r = rule_decision (find (rule_matches (kinds ss)) (rule_table (policy_snapshot (d_policy d))));
      lc = outcome_lifecycle (fst (apply_event sql_ops e (st_apply_ms st) (d_lifecycles d)));
      i = ''dec_'' @ st_decision_ulid st
    in \<exists>dec.
      decisions_table (d_decisions d') = filter (\<lambda>q. dcr_decision_id q \<noteq> i) (decisions_table (d_decisions d)) @
        [\<lparr>dcr_decision_id = i, dcr_tenant_id = tenant_id e, dcr_timestamp_ms = st_now_ms st, dcr_event_id = event_id e,
          dcr_lifecycle_id = lc, dcr_action = action_str (pd_action r), dcr_mode = mode_str (pd_mode r),
          dcr_body_json = dt_print (co_decisions k) dec\<rparr>] \<and>
      dr_decision_id dec = i \<and> dr_tenant_id dec = tenant_id e \<and> dr_timestamp_ms dec = st_now_ms st \<and>
      dr_action dec = pd_action r \<and> dr_mode dec = pd_mode r \<and> dr_reason_codes dec = pd_reason_codes r \<and>
      dr_policies_evaluated dec = [r] \<and> dr_latency_us dec = st_latency_us st \<and>
      dr_degradation_level dec = level_str (current_level (d_governor d)) \<and>
      dr_subject dec = \<lparr>ds_lifecycle_id = lc, ds_event_id = event_id e, ds_operation_id = Option.bind (operation e) operation_id\<rparr> \<and>
      map sig_kind (dr_signals_used dec) = map s_kind ss \<and>
      (\<forall>q \<in> set (dr_signals_used dec). sig_event_id q = event_id e \<and> sig_lifecycle_id q = lc \<and> sig_tenant_id q = tenant_id e \<and>
         signal_row_of q \<in> set (signals_table (d_decisions d'))) \<and>
      (dt_parse (co_decisions k) (dt_print (co_decisions k) dec) = Some dec \<longrightarrow>
         get_decision (co_decisions k) (d_decisions d') i = Some dec) \<and>
      d_conn d' = (if wants then snd (write_json_frame k (decision_response dec) (d_conn d)) else d_conn d)"
proof -
  obtain l w where d': "d' = (let (dec, d1) = project_event k st e (d\<lparr>d_log := l, d_audit := w\<rparr>)
      in if wants then respond k (decision_response dec) d1 else d1)"
    using ingest_event_cases [where k = k and st = st and wants = wants and e = e and d = d] assms(1) by auto
  let ?d1 = "d\<lparr>d_log := l, d_audit := w\<rparr>" and ?i = "''dec_'' @ st_decision_ulid st"
  let ?dec = "fst (project_event k st e ?d1)"
  let ?lc = "outcome_lifecycle (fst (apply_event sql_ops e (st_apply_ms st) (d_lifecycles d)))"
  let ?ss = "fst (evaluate_signals e (st_signal_ms st) (d_signals d))"
  let ?r = "rule_decision (find (rule_matches (kinds ?ss)) (rule_table (policy_snapshot (d_policy d))))"
  obtain rs ds where rs: "record_signals st e ?lc 0 ?ss (d_decisions d) = (rs, ds)"
    by (cases "record_signals st e ?lc 0 ?ss (d_decisions d)")
  note spec = record_signals_spec [OF assms(2,3), where e = e and lc = ?lc and i = 0 and ss = ?ss, unfolded rs prod.case]
  have dec: "?dec = decision_build (st_decision_ulid st) (tenant_id e) \<lparr>ds_lifecycle_id = ?lc, ds_event_id = event_id e,
      ds_operation_id = Option.bind (operation e) operation_id\<rparr> ?r rs
      (st_now_ms st) (level_str (current_level (d_governor d))) (st_latency_us st)"
    "d_decisions (snd (project_event k st e ?d1)) = snd (write_decision (co_decisions k) ?dec ds)"
    using rs by (simp_all add: project_event_def Let_def split_def policy_unfold [symmetric])
  have f: "dr_decision_id ?dec = ?i" "dr_tenant_id ?dec = tenant_id e" "dr_timestamp_ms ?dec = st_now_ms st"
    "dr_action ?dec = pd_action ?r" "dr_mode ?dec = pd_mode ?r" "dr_reason_codes ?dec = pd_reason_codes ?r"
    "dr_policies_evaluated ?dec = [?r]" "dr_latency_us ?dec = st_latency_us st" "dr_signals_used ?dec = rs"
    "dr_degradation_level ?dec = level_str (current_level (d_governor d))"
    "dr_subject ?dec = \<lparr>ds_lifecycle_id = ?lc, ds_event_id = event_id e, ds_operation_id = Option.bind (operation e) operation_id\<rparr>"
    unfolding dec(1) by (simp_all add: decision_build_def)
  have ds': "d_decisions d' = ds\<lparr>decisions_table := replace_row dcr_decision_id (decision_row_of (co_decisions k) ?dec) (decisions_table ds)\<rparr>"
    using spec dec(2) by (cases ds) (simp add: d' split_def Let_def write_decision_def dec_ok_def dec_next_def)
  have t: "decisions_table (d_decisions d') = filter (\<lambda>q. dcr_decision_id q \<noteq> ?i) (decisions_table (d_decisions d)) @
      [decision_row_of (co_decisions k) ?dec]"
    using spec f(1) by (simp add: ds' replace_row_def)
  have ok: "dec_ok (d_decisions d')" using spec by (simp add: ds' dec_ok_def)
  have again: "get_decision (co_decisions k) (d_decisions d') ?i = dt_parse (co_decisions k) (dt_print (co_decisions k) ?dec)"
    using ok f(1) find_replace_row [of dcr_decision_id ?i "decision_row_of (co_decisions k) ?dec" "decisions_table ds"]
    by (simp add: get_decision_def ds')
  have conn: "d_conn d' = (if wants then snd (write_json_frame k (decision_response ?dec) (d_conn d)) else d_conn d)"
    by (simp add: d' split_def Let_def respond_def)
  have sigs: "signals_table (d_decisions d') = signals_table ds" by (simp add: ds')
  show ?thesis
    unfolding Let_def t sigs conn
    by (intro exI [of _ ?dec] conjI) (use spec f again in \<open>simp_all add: decision_row_of_def\<close>)
qed

lemma demo_log_append: "\<exists>r l. log_append [1, 2, 3] (slog_new log_config_defaults (disk_of [])) = (Inr r, l)"
proof -
  let ?l = "slog_new log_config_defaults (disk_of [])"
  have "quota_check (lc_quota (sl_config ?l)) (total_bytes ?l) (of_nat (4 + length [1, 2, 3 :: byte])) = FitsYes"
    by (simp add: quota_check_def slog_new_def log_config_defaults_def quota_new_def checked_add_def)
  moreover have "log_inv ?l" "next_seg_id ?l \<noteq> - 1" "length [1, 2, 3 :: byte] \<le> max_record_bytes (sl_config ?l)"
    using log_inv_new by (simp_all add: slog_new_def log_config_defaults_def)
  ultimately show ?thesis by (metis log_append_ok)
qed

lemma demo_observe:
  "\<exists>w. observe toy_crypto numbered_text 0 ''event'' [1, 2, 3] (audit_start toy_crypto numbered_text [9] ''tnt'' 2) = (Inr (), w)"
  using observe_refines [OF audit_start_inv(1) [OF numbered_text_ok] toy_crypto_ok audit_start_inv(2) [OF numbered_text_ok]]
  by fastforce

text \<open>A daemon whose rate limit is zero challenges every event.\<close>

definition hasty_daemon :: daemon where
  "hasty_daemon = demo_daemon\<lparr>d_signals := signal_engine_new (signal_config_default\<lparr>
     sc_velocity := \<lparr>v_window_ms = 60, v_threshold = 0, v_max_subjects = 3\<rparr>\<rparr>)\<rparr>"

definition fresh_stamps :: stamps where
  "fresh_stamps = (demo_stamps 5)\<lparr>st_signal_ulid := \<lambda>i. replicate i CHR ''S''\<rparr>"

lemma challenged: "HighVelocity \<in> ks \<Longrightarrow>
  pd_action (rule_decision (find (rule_matches ks) (rule_table policy_config_default))) = Challenge"
  by (simp add: rule_table_def rule_matches_def policy_config_default_def policy_rule_default_def rule_decision_def)

lemma accepted_event_has_decision_witness:
  "\<exists>d' row. ingest_event demo_codecs fresh_stamps True (demo_event ''e1'' ''payment.create'' ''t'') hasty_daemon = (Inr (), d') \<and>
     decisions_table (d_decisions d') = [row] \<and> dcr_event_id row = ''e1'' \<and> dcr_action row = ''CHALLENGE'' \<and>
     signals_table (d_decisions d') \<noteq> []"
proof -
  let ?e = "demo_event ''e1'' ''payment.create'' ''t''" and ?k = demo_codecs and ?st = fresh_stamps
  let ?ss = "fst (evaluate_signals ?e (st_signal_ms ?st) (d_signals hasty_daemon))"
  obtain r l w where "log_append [1, 2, 3] (d_log hasty_daemon) = (Inr r, l)"
    "observe toy_crypto numbered_text 0 ''event'' [1, 2, 3] (d_audit hasty_daemon) = (Inr (), w)"
    using demo_log_append demo_observe unfolding hasty_daemon_def demo_daemon_def by auto
  then obtain d' where d': "ingest_event ?k ?st True ?e hasty_daemon = (Inr (), d')"
    by (simp add: ingest_event_def Let_def bind_eff_def on_log_def on_audit_def demo_codecs_def fresh_stamps_def demo_stamps_def split_def)
  have i: "dec_script (d_decisions hasty_daemon) = []" "inj (st_signal_ulid ?st)" "d_policy hasty_daemon = policy_engine_new policy_config_default"
    "decisions_table (d_decisions hasty_daemon) = []"
    by (simp_all add: hasty_daemon_def demo_daemon_def dec_open_in_memory_def fresh_stamps_def inj_def)
  have "fst (v_observe x now (velocity_new \<lparr>v_window_ms = 60, v_threshold = 0, v_max_subjects = 3\<rparr>)) \<noteq> None" for x now
    by (simp add: v_observe_def velocity_new_def v_evict_def Let_def)
  then have "fired ?ss HighVelocity"
    unfolding evaluate_kinds by (simp add: hasty_daemon_def signal_engine_new_def)
  then have hv: "HighVelocity \<in> kinds ?ss" by (simp add: fired_kinds)
  then have ne: "?ss \<noteq> []" by (auto simp: kinds_def)
  have pol: "policy_snapshot (d_policy hasty_daemon) = policy_config_default"
    by (simp add: i(3) policy_snapshot_def policy_engine_new_def)
  from accepted_event_has_decision [OF d' i(1,2)] obtain dec where dec:
    "decisions_table (d_decisions d') = [\<lparr>dcr_decision_id = ''dec_'' @ st_decision_ulid ?st, dcr_tenant_id = tenant_id ?e,
       dcr_timestamp_ms = st_now_ms ?st, dcr_event_id = event_id ?e,
       dcr_lifecycle_id = outcome_lifecycle (fst (apply_event sql_ops ?e (st_apply_ms ?st) (d_lifecycles hasty_daemon))),
       dcr_action = action_str (pd_action (rule_decision (find (rule_matches (kinds ?ss)) (rule_table policy_config_default)))),
       dcr_mode = mode_str (pd_mode (rule_decision (find (rule_matches (kinds ?ss)) (rule_table policy_config_default)))),
       dcr_body_json = dt_print (co_decisions ?k) dec\<rparr>]"
    "map sig_kind (dr_signals_used dec) = map s_kind ?ss"
    "\<forall>q \<in> set (dr_signals_used dec). signal_row_of q \<in> set (signals_table (d_decisions d'))"
    unfolding Let_def pol i(4) by auto
  have "dr_signals_used dec \<noteq> []" using dec(2) ne by auto
  then obtain q where "q \<in> set (dr_signals_used dec)" by (meson list.set_sel(1))
  with dec(3) have "signals_table (d_decisions d') \<noteq> []" by auto
  with d' dec(1) challenged [OF hv] show ?thesis by (auto simp: demo_event_def)
qed

section \<open>The drop counters under concurrency\<close>

text \<open>The counters are three atomics without a lock.  The actions of a recorder and of \<open>take\<close>, one
  atomic operation each; a recorder's second action happens only after it saw zero.\<close>

datatype drop_action = AddFrame | StoreSince u64 | AddBytes u64 | SwapFrames | SwapBytes | SwapSince

fun drop_act :: "drop_action \<Rightarrow> drop_counters \<Rightarrow> drop_counters" where
  "drop_act AddFrame c = c\<lparr>dc_frames := dc_frames c + 1\<rparr>"
| "drop_act (StoreSince t) c = c\<lparr>dc_since_ms := t\<rparr>"
| "drop_act (AddBytes n) c = c\<lparr>dc_bytes := dc_bytes c + n\<rparr>"
| "drop_act SwapFrames c = c\<lparr>dc_frames := 0\<rparr>"
| "drop_act SwapBytes c = c\<lparr>dc_bytes := 0\<rparr>"
| "drop_act SwapSince c = c\<lparr>dc_since_ms := 0\<rparr>"

text \<open>Run alone, the actions are the operations.\<close>

lemma drop_actions_alone:
  "drop_record n t c = fold drop_act (if dc_frames c = 0 then [AddFrame, StoreSince t, AddBytes (of_nat n)]
     else [AddFrame, AddBytes (of_nat n)]) c"
  "dc_frames c \<noteq> 0 \<Longrightarrow> snd (drop_take c) = fold drop_act [SwapFrames, SwapBytes, SwapSince] c"
  by (simp_all add: drop_record_def drop_take_def Let_def)

text \<open>A recorder that runs between the first and the last swap of a \<open>take\<close> loses the start of its own
  window (and its bytes): the next gap says that it began at time 0.\<close>

lemma drop_window_lost:
  "fold drop_act [SwapFrames, AddFrame, StoreSince 900, AddBytes 40, SwapBytes, SwapSince]
     \<lparr>dc_frames = 3, dc_bytes = 100, dc_since_ms = 500\<rparr> = \<lparr>dc_frames = 1, dc_bytes = 0, dc_since_ms = 0\<rparr>"
  by simp

end
