(* ===== verification/Framing.thy ===== *)
theory Framing
  imports Ingest_Props
begin

text \<open>
  From the bytes of a connection to the frames of \<open>process_stream\<close>: what \<^verbatim>\<open>ingest.rs\<close> relies on of the
  codec it configures (\<^verbatim>\<open>LengthDelimitedCodec\<close> of \<^verbatim>\<open>tokio-util\<close>; a parameter), and what a client's bytes
  then amount to.
\<close>

section \<open>The codec\<close>

text \<open>The configuration: a big-endian length of four bytes and frames of at most 64 MiB.\<close>

definition LENGTH_FIELD :: nat where
  "LENGTH_FIELD = 4"

definition MAX_FRAME_LENGTH :: nat where
  "MAX_FRAME_LENGTH = 64 * 1024 * 1024"

text \<open>A frame as clients and daemon write it.\<close>

definition wire :: "byte list \<Rightarrow> byte list" where
  "wire f = u32_to_be (of_nat (length f)) @ f"

definition announced :: "byte list \<Rightarrow> nat" where
  "announced bs = nat_of_be (take LENGTH_FIELD bs)"

text \<open>Bytes in which a frame has begun and is not complete.\<close>

definition torn :: "byte list \<Rightarrow> bool" where
  "torn bs \<longleftrightarrow> length bs < LENGTH_FIELD \<or> announced bs \<le> MAX_FRAME_LENGTH \<and> length bs < LENGTH_FIELD + announced bs"

definition oversized :: "byte list \<Rightarrow> bool" where
  "oversized bs \<longleftrightarrow> LENGTH_FIELD \<le> length bs \<and> MAX_FRAME_LENGTH < announced bs"

text \<open>The documented behaviour: a complete frame is handed over, an oversized one is an error, and a torn one
  at the end of the stream is nothing or an error.\<close>

definition framing_ok :: "(byte list \<Rightarrow> frame_item list) \<Rightarrow> bool" where
  "framing_ok deframe \<longleftrightarrow>
     (\<forall>f bs. length f \<le> MAX_FRAME_LENGTH \<longrightarrow> deframe (wire f @ bs) = Frame f # deframe bs) \<and>
     (\<forall>bs. oversized bs \<longrightarrow> (\<exists>xs. deframe bs = FrameError # xs)) \<and>
     (\<forall>bs. torn bs \<longrightarrow> deframe bs = [] \<or> (\<exists>xs. deframe bs = FrameError # xs))"

section \<open>A connection\<close>

text \<open>The \<open>n\<close>-th item is handled with the \<open>n\<close>-th readings of the clocks.\<close>

fun stamped :: "(nat \<Rightarrow> stamps) \<Rightarrow> nat \<Rightarrow> frame_item list \<Rightarrow> (stamps \<times> frame_item) list" where
  "stamped st n [] = []"
| "stamped st n (x # xs) = (st n, x) # stamped st (Suc n) xs"

definition connection :: "codecs \<Rightarrow> (byte list \<Rightarrow> frame_item list) \<Rightarrow> (nat \<Rightarrow> stamps) \<Rightarrow> byte list \<Rightarrow> daemon \<Rightarrow> daemon" where
  "connection k deframe st bs d = process_stream k (stamped st 0 (deframe bs)) d"

fun ingest_all :: "codecs \<Rightarrow> (nat \<Rightarrow> stamps) \<Rightarrow> nat \<Rightarrow> byte list list \<Rightarrow> daemon \<Rightarrow> daemon" where
  "ingest_all k st n [] d = d"
| "ingest_all k st n (f # fs) d = ingest_all k st (Suc n) fs (snd (ingest_one k (st n) f d))"

lemma deframe_end:
  assumes "framing_ok deframe" "torn bs \<or> oversized bs"
  shows "process_stream k (stamped st n (deframe bs)) d = d"
  using assms unfolding framing_ok_def by (metis process_stream.simps(1,2) stamped.simps)

lemma connection_from:
  assumes "framing_ok deframe" "torn bs \<or> oversized bs" "\<forall>f \<in> set fs. length f \<le> MAX_FRAME_LENGTH"
  shows "process_stream k (stamped st n (deframe (concat (map wire fs) @ bs))) d = ingest_all k st n fs d"
  using assms(3)
proof (induction fs arbitrary: n d)
  case Nil
  then show ?case using deframe_end [OF assms(1,2)] by simp
next
  case (Cons f fs)
  then have "deframe (wire f @ concat (map wire fs) @ bs) = Frame f # deframe (concat (map wire fs) @ bs)"
    using assms(1) by (simp add: framing_ok_def)
  with Cons show ?case by simp
qed

lemma length_stamped [simp]: "length (stamped st n xs) = length xs"
  by (induction xs arbitrary: n) simp_all

lemma stamped_const: "stamped (\<lambda>_. st) n xs = map (Pair st) xs"
  by (induction xs arbitrary: n) simp_all

lemma process_stream_frames:
  "process_stream k (stamped st n (map Frame fs)) d = ingest_all k st n fs d"
  by (induction fs arbitrary: n d) simp_all

text \<open>Claim C25 (a connection is its complete frames): whatever a client sends after them, a torn or an oversized frame,
  the daemon ends in the state of having ingested exactly the complete frames, in order; the evidence it
  adds are canonical forms of some of these, in their order, each with its own commitment in the audit trail.\<close>

theorem connection_is_its_frames:
  assumes "framing_ok deframe" "torn bs \<or> oversized bs" "\<forall>f \<in> set fs. length f \<le> MAX_FRAME_LENGTH"
    and "crypto_ok (co_crypto k)" "logs_ok k key m (length fs) d segs a"
  shows "connection k deframe st (concat (map wire fs) @ bs) d = ingest_all k st 0 fs d \<and>
    (\<exists>segs' a' new. logs_ok k key m 0 (ingest_all k st 0 fs d) segs' a' \<and>
       log_payloads (d_log (ingest_all k st 0 fs d)) = log_payloads (d_log d) @ new \<and>
       trail a' = trail a @ map (Pair ''event'') new \<and> subseq new (candidates k (stamped st 0 (map Frame fs))))"
proof
  show "connection k deframe st (concat (map wire fs) @ bs) d = ingest_all k st 0 fs d"
    unfolding connection_def by (rule connection_from [OF assms(1-3)])
  have "logs_ok k key m (length (stamped st 0 (map Frame fs))) d segs a" using assms(5) by simp
  from process_stream_logs [OF this assms(4), unfolded process_stream_frames]
  show "\<exists>segs' a' new. logs_ok k key m 0 (ingest_all k st 0 fs d) segs' a' \<and>
       log_payloads (d_log (ingest_all k st 0 fs d)) = log_payloads (d_log d) @ new \<and>
       trail a' = trail a @ map (Pair ''event'') new \<and> subseq new (candidates k (stamped st 0 (map Frame fs)))"
    unfolding Let_def by blast
qed

section \<open>A codec that behaves so\<close>

text \<open>One such codec, for the witnesses: it reports what is left over at the end of the stream.\<close>

function length_delimited :: "byte list \<Rightarrow> frame_item list" where
  "length_delimited bs =
     (if bs = [] then []
      else if torn bs \<or> oversized bs then [FrameError]
      else Frame (take (announced bs) (drop LENGTH_FIELD bs)) # length_delimited (drop (LENGTH_FIELD + announced bs) bs))"
  by pat_completeness auto
termination by (relation "measure length") (auto simp: LENGTH_FIELD_def)

declare length_delimited.simps [simp del]

lemma announced_wire:
  assumes "length f \<le> MAX_FRAME_LENGTH"
  shows "announced (wire f @ bs) = length f"
proof -
  have "unat (of_nat (length f) :: u32) = length f"
    using assms by (simp add: MAX_FRAME_LENGTH_def unat_of_nat take_bit_nat_eq_self)
  then show ?thesis
    using assms by (simp add: announced_def wire_def LENGTH_FIELD_def u32_to_be_def nat_of_be_of_nat MAX_FRAME_LENGTH_def)
qed

lemma length_delimited_wire:
  assumes "length f \<le> MAX_FRAME_LENGTH"
  shows "length_delimited (wire f @ bs) = Frame f # length_delimited bs"
proof -
  have n: "length (u32_to_be (of_nat (length f))) = LENGTH_FIELD" by (simp add: LENGTH_FIELD_def)
  have "wire f @ bs \<noteq> []" using n by (cases "u32_to_be (of_nat (length f))") (simp_all add: wire_def LENGTH_FIELD_def)
  moreover have "\<not> torn (wire f @ bs)" "\<not> oversized (wire f @ bs)"
    using assms n by (simp_all add: torn_def oversized_def announced_wire) (simp_all add: wire_def)
  moreover have "drop LENGTH_FIELD (wire f @ bs) = f @ bs" using n by (simp add: wire_def)
  moreover have "drop (LENGTH_FIELD + length f) (wire f @ bs) = bs" using n by (simp add: wire_def)
  ultimately show ?thesis
    by (subst length_delimited.simps) (simp add: announced_wire [OF assms])
qed

lemma length_delimited_ok: "framing_ok length_delimited"
  unfolding framing_ok_def
proof (intro conjI allI impI)
  fix bs assume "oversized bs"
  then show "\<exists>xs. length_delimited bs = FrameError # xs"
    by (subst length_delimited.simps) (auto simp: oversized_def LENGTH_FIELD_def)
next
  fix bs assume "torn bs"
  then show "length_delimited bs = [] \<or> (\<exists>xs. length_delimited bs = FrameError # xs)"
    by (subst length_delimited.simps, subst (2) length_delimited.simps) simp
qed (rule length_delimited_wire)

theorem connection_is_its_frames_witness:
  "let d = fresh_logs demo_codecs [9] ''tnt'' 2 log_config_defaults demo_daemon in
    connection demo_codecs length_delimited (demo_stamps o of_nat) [0, 0, 0, 1, 7, 0, 0, 0, 1, 8, 0, 0] d =
      ingest_all demo_codecs (demo_stamps o of_nat) 0 [[7], [8]] d"
proof -
  let ?d = "fresh_logs demo_codecs [9] ''tnt'' 2 log_config_defaults demo_daemon"
  have "json_text_ok (co_segments demo_codecs)" "crypto_ok (co_crypto demo_codecs)"
    using numbered_text_ok toy_crypto_ok by (simp_all add: demo_codecs_def)
  moreover from this(1) have "logs_ok demo_codecs [9] 2 (length [[7], [8] :: byte list]) ?d [] ([], [])"
    by (rule fresh_logs_ok) (simp_all add: log_config_defaults_def)
  moreover have "torn [0, 0]" by (simp add: torn_def LENGTH_FIELD_def)
  moreover have "concat (map wire [[7], [8]]) @ [0, 0] = [0, 0, 0, 1, 7, 0, 0, 0, 1, 8, 0, 0]"
    by code_simp
  ultimately show ?thesis
    using connection_is_its_frames [OF length_delimited_ok, of "[0, 0]" "[[7], [8]]" demo_codecs "[9]" 2 ?d "[]" "([], [])"
      "demo_stamps o of_nat"]
    unfolding Let_def by (simp add: MAX_FRAME_LENGTH_def)
qed

end
