(* ===== verification/Float_Order.thy ===== *)
theory Float_Order
  imports Floats
begin

text \<open>
  Order facts about the rounding of \<open>Floats\<close>: rounding to nearest is monotone, and so are the
  conversions, quotients and products the sources compute with non-negative values.
\<close>

section \<open>The order\<close>

lemma flt_le_refl [simp]: "x \<noteq> NaN \<Longrightarrow> flt_le x x"
  by (cases x) (auto simp: flt_le_def)

lemma flt_le_trans: "flt_le x y \<Longrightarrow> flt_le y z \<Longrightarrow> flt_le x z"
  by (cases x; cases y; cases z) (auto simp: flt_le_def)

lemma flt_le_PosInf [simp]: "flt_le x PosInf \<longleftrightarrow> x \<noteq> NaN" "flt_le PosInf x \<longleftrightarrow> x = PosInf"
  by (cases x; simp add: flt_le_def)+

lemma flt_le_NegInf [simp]: "flt_le NegInf x \<longleftrightarrow> x \<noteq> NaN" "flt_le x NegInf \<longleftrightarrow> x = NegInf"
  by (cases x; simp add: flt_le_def)+

text \<open>Between finite bounds a float is finite.\<close>

lemma flt_between: "flt_le (Fin a) x \<Longrightarrow> flt_le x (Fin b) \<Longrightarrow> \<exists>q. x = Fin q \<and> a \<le> q \<and> q \<le> b"
  by (cases x) auto

section \<open>Rounding is monotone\<close>

lemma round_half_even_bounds: "\<lfloor>r\<rfloor> \<le> round_half_even r" "round_half_even r \<le> \<lfloor>r\<rfloor> + 1"
  by (auto simp: round_half_even_def Let_def)

lemma round_half_even_of_int [simp]: "round_half_even (of_int n) = n"
  by (simp add: round_half_even_def)

lemma round_half_even_mono: "r \<le> s \<Longrightarrow> round_half_even r \<le> round_half_even s"
proof (cases "\<lfloor>r\<rfloor> = \<lfloor>s\<rfloor>")
  case True
  moreover assume "r \<le> s"
  ultimately show ?thesis by (auto simp: round_half_even_def Let_def)
next
  case False
  assume "r \<le> s"
  with False have "\<lfloor>r\<rfloor> + 1 \<le> \<lfloor>s\<rfloor>" using floor_mono [of r s] by linarith
  with round_half_even_bounds(2) [of r] round_half_even_bounds(1) [of s] show ?thesis by linarith
qed

lemma bit_length_bounds: "0 < n \<Longrightarrow> 0 < bit_length n \<and> 2 ^ (bit_length n - 1) \<le> n \<and> n < 2 ^ bit_length n"
proof (induction n rule: bit_length.induct)
  case (1 n)
  show ?case
  proof (cases "n = 1")
    case True
    then show ?thesis by (simp add: bit_length.simps)
  next
    case False
    with 1 have "0 < n div 2" by simp
    with 1 have ih: "0 < bit_length (n div 2)" "2 ^ (bit_length (n div 2) - 1) \<le> n div 2" "n div 2 < 2 ^ bit_length (n div 2)"
      by auto
    have b: "bit_length n = Suc (bit_length (n div 2))" using 1 by (simp add: bit_length.simps [of n])
    obtain m where m: "bit_length (n div 2) = Suc m" using ih(1) by (cases "bit_length (n div 2)") auto
    show ?thesis using ih(2,3) unfolding b m by (simp, linarith)
  qed
qed

lemma powi_add: "(2 :: rat) powi i * 2 powi j = 2 powi (i + j)"
  by (simp add: power_int_add)

lemma binade_bounds:
  assumes "0 < x"
  shows "2 powi binade x \<le> x" "x < 2 powi (binade x + 1)"
proof -
  obtain n d where q: "quotient_of x = (n, d)" by (cases "quotient_of x")
  have d: "0 < d" using quotient_of_denom_pos [OF q] .
  have x: "x = of_int n / of_int d" using quotient_of_div [OF q] .
  with assms d have n: "0 < n" by (simp add: zero_less_divide_iff)
  let ?bn = "bit_length (nat n)" and ?bd = "bit_length (nat d)"
  have bn: "0 < ?bn" "2 ^ (?bn - 1) \<le> nat n" "nat n < 2 ^ ?bn" using bit_length_bounds [of "nat n"] n by auto
  have bd: "0 < ?bd" "2 ^ (?bd - 1) \<le> nat d" "nat d < 2 ^ ?bd" using bit_length_bounds [of "nat d"] d by auto
  have N: "2 powi (int ?bn - 1) \<le> (of_int n :: rat)" "(of_int n :: rat) < 2 powi int ?bn"
  proof -
    have "(of_nat (2 ^ (?bn - 1)) :: rat) \<le> of_nat (nat n)" using bn(2) by (rule of_nat_mono)
    then show "2 powi (int ?bn - 1) \<le> (of_int n :: rat)"
      using bn(1) n by (simp add: power_int_def nat_diff_distrib)
    have "(of_nat (nat n) :: rat) < of_nat (2 ^ ?bn)" using bn(3) by (simp only: of_nat_less_iff)
    then show "(of_int n :: rat) < 2 powi int ?bn" using n by simp
  qed
  have D: "2 powi (int ?bd - 1) \<le> (of_int d :: rat)" "(of_int d :: rat) < 2 powi int ?bd"
  proof -
    have "(of_nat (2 ^ (?bd - 1)) :: rat) \<le> of_nat (nat d)" using bd(2) by (rule of_nat_mono)
    then show "2 powi (int ?bd - 1) \<le> (of_int d :: rat)"
      using bd(1) d by (simp add: power_int_def nat_diff_distrib)
    have "(of_nat (nat d) :: rat) < of_nat (2 ^ ?bd)" using bd(3) by (simp only: of_nat_less_iff)
    then show "(of_int d :: rat) < 2 powi int ?bd" using d by simp
  qed
  define k where "k = int ?bn - int ?bd"
  have lo: "2 powi (k - 1) \<le> x"
  proof -
    have "(2 :: rat) powi (k - 1) * of_int d \<le> 2 powi (k - 1) * 2 powi int ?bd" using D(2) by (intro mult_left_mono) simp_all
    also have "\<dots> = 2 powi (int ?bn - 1)" unfolding powi_add by (simp add: k_def)
    also have "\<dots> \<le> of_int n" by (rule N(1))
    finally show ?thesis using d by (simp add: x pos_le_divide_eq)
  qed
  have hi: "x < 2 powi (k + 1)"
  proof -
    have "of_int n < (2 :: rat) powi int ?bn" by (rule N(2))
    also have "\<dots> = 2 powi (k + 1) * 2 powi (int ?bd - 1)" unfolding powi_add by (simp add: k_def)
    also have "\<dots> \<le> 2 powi (k + 1) * of_int d" using D(1) by (intro mult_left_mono) simp_all
    finally show ?thesis using d by (simp add: x pos_divide_less_eq)
  qed
  have b: "binade x = (if 2 powi k \<le> x then k else k - 1)" by (simp add: binade_def q k_def)
  show "2 powi binade x \<le> x" using lo by (simp add: b)
  show "x < 2 powi (binade x + 1)" using hi by (simp add: b)
qed

lemma binade_mono: "0 < x \<Longrightarrow> x \<le> y \<Longrightarrow> binade x \<le> binade y"
proof (rule ccontr)
  assume a: "0 < x" "x \<le> y" "\<not> binade x \<le> binade y"
  have "2 powi (binade y + 1) \<le> (2 :: rat) powi binade x" using a(3) by (intro power_int_increasing) simp_all
  with binade_bounds(1) [OF a(1)] binade_bounds(2) [of y] a(1,2) show False by simp
qed

text \<open>A multiple of the rounding unit is a bound that rounding respects.\<close>

lemma round_pos_below: "0 < x \<Longrightarrow> x \<le> of_int m * 2 powi max (binade x - (int p - 1)) emin \<Longrightarrow>
    round_pos p emin x \<le> of_int m * 2 powi max (binade x - (int p - 1)) emin"
proof -
  let ?u = "2 powi max (binade x - (int p - 1)) emin :: rat"
  assume "x \<le> of_int m * ?u"
  then have "x / ?u \<le> of_int m" by (simp add: pos_divide_le_eq)
  then have "round_half_even (x / ?u) \<le> m" using round_half_even_mono [of "x / ?u" "of_int m"] by simp
  then show ?thesis by (simp add: round_pos_def Let_def)
qed

lemma round_pos_above: "0 < x \<Longrightarrow> of_int m * 2 powi max (binade x - (int p - 1)) emin \<le> x \<Longrightarrow>
    of_int m * 2 powi max (binade x - (int p - 1)) emin \<le> round_pos p emin x"
proof -
  let ?u = "2 powi max (binade x - (int p - 1)) emin :: rat"
  assume "of_int m * ?u \<le> x"
  then have "of_int m \<le> x / ?u" by (simp add: pos_le_divide_eq)
  then have "m \<le> round_half_even (x / ?u)" using round_half_even_mono [of "of_int m" "x / ?u"] by simp
  then show ?thesis by (simp add: round_pos_def Let_def)
qed

lemma powi_split: "j \<le> i \<Longrightarrow> (2 :: rat) powi i = of_int (2 ^ nat (i - j)) * 2 powi j"
proof -
  assume "j \<le> i"
  then have "i = int (nat (i - j)) + j" by simp
  then have "(2 :: rat) powi i = 2 powi int (nat (i - j)) * 2 powi j" by (metis powi_add)
  then show ?thesis by (simp only: power_int_of_nat of_int_power of_int_numeral)
qed

lemma round_pos_mono:
  assumes "0 < x" "x \<le> y" "1 \<le> p"
  shows "round_pos p emin x \<le> round_pos p emin y"
proof -
  define qx where "qx = max (binade x - (int p - 1)) emin"
  define qy where "qy = max (binade y - (int p - 1)) emin"
  have y: "0 < y" using assms by simp
  have "qx \<le> qy" using binade_mono [OF assms(1,2)] by (simp add: qx_def qy_def)
  then consider "qx = qy" | "qx < qy" by linarith
  then show ?thesis
  proof cases
    case 1
    have "x / 2 powi qx \<le> y / 2 powi qx" using assms(2) by (intro divide_right_mono) simp_all
    then have "round_half_even (x / 2 powi qx) \<le> round_half_even (y / 2 powi qx)" by (rule round_half_even_mono)
    then show ?thesis using 1 by (simp add: round_pos_def Let_def qx_def [symmetric] qy_def [symmetric])
  next
    case 2
    then have b: "qy = binade y - (int p - 1)" "binade x < binade y" "qx \<le> binade y" "qy \<le> binade y"
      using assms(3) by (auto simp: qx_def qy_def max_def split: if_splits)
    have "x \<le> 2 powi binade y"
    proof -
      have "(2 :: rat) powi (binade x + 1) \<le> 2 powi binade y" using b(2) by (intro power_int_increasing) simp_all
      with binade_bounds(2) [OF assms(1)] show ?thesis by simp
    qed
    then have "round_pos p emin x \<le> 2 powi binade y"
      using round_pos_below [OF assms(1), where p = p and emin = emin] unfolding qx_def [symmetric] powi_split [OF b(3)] by blast
    also have "\<dots> \<le> round_pos p emin y"
      using round_pos_above [OF y, where p = p and emin = emin] binade_bounds(1) [OF y]
      unfolding qy_def [symmetric] powi_split [OF b(4)] by blast
    finally show ?thesis .
  qed
qed

lemma round_pos_nonneg: "0 < x \<Longrightarrow> 0 \<le> round_pos p emin x"
  using round_pos_above [of x 0] by simp

lemma flt_round_mono:
  assumes "0 \<le> x" "x \<le> y" "1 \<le> p"
  shows "flt_le (flt_round p emin emax x) (flt_round p emin emax y)"
proof (cases "x = 0")
  case True
  have "0 < y \<Longrightarrow> 0 \<le> round_pos p emin y" by (rule round_pos_nonneg)
  with True assms show ?thesis by (auto simp: flt_round_def Let_def)
next
  case False
  with assms have x: "0 < x" by simp
  have "round_pos p emin x \<le> round_pos p emin y" by (rule round_pos_mono [OF x assms(2,3)])
  with x assms(2) show ?thesis by (auto simp: flt_round_def Let_def)
qed

lemma flt_round_not_NaN [simp]: "round64 x \<noteq> NaN" "round32 x \<noteq> NaN"
  by (simp_all add: round64_def round32_def flt_round_def Let_def)

lemma round64_mono: "0 \<le> x \<Longrightarrow> x \<le> y \<Longrightarrow> flt_le (round64 x) (round64 y)"
  unfolding round64_def by (rule flt_round_mono) simp_all

lemma round32_mono: "0 \<le> x \<Longrightarrow> x \<le> y \<Longrightarrow> flt_le (round32 x) (round32 y)"
  unfolding round32_def by (rule flt_round_mono) simp_all

lemma round_zero [simp]: "round64 0 = Fin 0" "round32 0 = Fin 0"
  by (simp_all add: round64_def round32_def flt_round_def)

section \<open>The operations are monotone\<close>

lemma f64_as_f32_mono: "flt_le (Fin 0) a \<Longrightarrow> flt_le a b \<Longrightarrow> flt_le (f64_as_f32 a) (f64_as_f32 b)"
  by (cases a; cases b) (auto simp: round32_mono)

lemma f64_div_mono: "flt_le (Fin 0) a \<Longrightarrow> flt_le a b \<Longrightarrow> 0 < c \<Longrightarrow> flt_le (f64_div a (Fin c)) (f64_div b (Fin c))"
  by (cases a; cases b) (auto simp: round64_mono divide_right_mono)

lemma f64_mul_fin_mono: "flt_le (Fin 0) a \<Longrightarrow> flt_le a b \<Longrightarrow> 0 < c \<Longrightarrow> flt_le (f64_mul_fin a c) (f64_mul_fin b c)"
  by (cases a; cases b) (auto simp: round64_mono)

lemma u64_as_f64_mono: "unat a \<le> unat b \<Longrightarrow> flt_le (u64_as_f64 a) (u64_as_f64 b)"
  unfolding u64_as_f64_def by (rule round64_mono) (simp_all only: of_nat_0_le_iff of_nat_le_iff)

text \<open>A value on the grid of its binade is not rounded.\<close>

lemma binade_eq: "0 < x \<Longrightarrow> 2 powi k \<le> x \<Longrightarrow> x < 2 powi (k + 1) \<Longrightarrow> binade x = k"
proof (rule ccontr)
  assume x: "0 < x" "2 powi k \<le> x" "x < 2 powi (k + 1)" "binade x \<noteq> k"
  then consider "binade x + 1 \<le> k" | "k + 1 \<le> binade x" by linarith
  then show False
  proof cases
    case 1
    then have "(2 :: rat) powi (binade x + 1) \<le> 2 powi k" by (intro power_int_increasing) simp_all
    with x(2) binade_bounds(2) [OF x(1)] show False by simp
  next
    case 2
    then have "(2 :: rat) powi (k + 1) \<le> 2 powi binade x" by (intro power_int_increasing) simp_all
    with x(3) binade_bounds(1) [OF x(1)] show False by simp
  qed
qed

lemma flt_round_exact:
  assumes "0 < x" "2 powi k \<le> x" "x < 2 powi (k + 1)" "k + 1 \<le> emax"
    and "x = of_int m * 2 powi max (k - (int p - 1)) emin"
  shows "flt_round p emin emax x = Fin x"
proof -
  have b: "binade x = k" by (rule binade_eq [OF assms(1-3)])
  have "round_pos p emin x = x"
    using round_pos_below [OF assms(1), of m p emin] round_pos_above [OF assms(1), of m p emin] assms(5)
    unfolding b by (metis order_antisym order_refl)
  moreover have "(2 :: rat) powi (k + 1) \<le> 2 powi emax" using assms(4) by (intro power_int_increasing) simp_all
  ultimately show ?thesis using assms(1,3) by (simp add: flt_round_def)
qed

lemma round_constants: "round64 1 = Fin 1" "round64 100 = Fin 100" "round32 100 = Fin 100"
    "round64 (2 ^ 64) = Fin (2 ^ 64)"
proof -
  have "flt_round 53 (- 1074) 1024 1 = Fin 1"
    by (rule flt_round_exact [where k = 0 and m = "2 ^ 52"]) (simp_all add: power_int_minus)
  then show "round64 1 = Fin 1" by (simp add: round64_def)
  have "flt_round 53 (- 1074) 1024 100 = Fin 100"
    by (rule flt_round_exact [where k = 6 and m = "100 * 2 ^ 46"]) (simp_all add: power_int_minus)
  then show "round64 100 = Fin 100" by (simp add: round64_def)
  have "flt_round 24 (- 149) 128 100 = Fin 100"
    by (rule flt_round_exact [where k = 6 and m = "100 * 2 ^ 17"]) (simp_all add: power_int_minus)
  then show "round32 100 = Fin 100" by (simp add: round32_def)
  have "flt_round 53 (- 1074) 1024 (2 ^ 64) = Fin (2 ^ 64)"
    by (rule flt_round_exact [where k = 64 and m = "2 ^ 52"]) simp_all
  then show "round64 (2 ^ 64) = Fin (2 ^ 64)" by (simp add: round64_def)
qed

lemma unat_le_2_64: "of_nat (unat (n :: u64)) \<le> (2 ^ 64 :: rat)"
proof -
  have "unat n \<le> 2 ^ 64" using unat_u64_less [of n] by simp
  then show ?thesis by (metis of_nat_le_iff of_nat_numeral of_nat_power)
qed

text \<open>A positive count converts to a positive finite double, any count to a finite one.\<close>

lemma u64_as_f64_range:
  "\<exists>q. u64_as_f64 n = Fin q \<and> 0 \<le> q \<and> q \<le> 2 ^ 64" "n \<noteq> 0 \<Longrightarrow> \<exists>q. u64_as_f64 n = Fin q \<and> 1 \<le> q \<and> q \<le> 2 ^ 64"
proof -
  have top: "flt_le (u64_as_f64 n) (Fin (2 ^ 64))"
    unfolding u64_as_f64_def round_constants(4) [symmetric] by (rule round64_mono) (rule of_nat_0_le_iff, rule unat_le_2_64)
  have "flt_le (Fin 0) (u64_as_f64 n)"
    unfolding u64_as_f64_def round_zero(1) [symmetric] by (rule round64_mono) (rule order_refl, rule of_nat_0_le_iff)
  from flt_between [OF this top] show "\<exists>q. u64_as_f64 n = Fin q \<and> 0 \<le> q \<and> q \<le> 2 ^ 64" .
  assume "n \<noteq> 0"
  then have "1 \<le> unat n" by (metis less_one not_le unat_eq_0)
  then have "(1 :: rat) \<le> of_nat (unat n)" by (metis of_nat_1 of_nat_le_iff)
  then have "flt_le (Fin 1) (u64_as_f64 n)"
    unfolding u64_as_f64_def round_constants(1) [symmetric] by (intro round64_mono) simp_all
  from flt_between [OF this top] show "\<exists>q. u64_as_f64 n = Fin q \<and> 1 \<le> q \<and> q \<le> 2 ^ 64" .
qed

text \<open>The percentage \<open>(a as f64 / b as f64 * 100.0) as f32\<close> of the sources.\<close>

definition pct :: "u64 \<Rightarrow> u64 \<Rightarrow> flt" where
  "pct a b = f64_as_f32 (f64_mul_fin (f64_div (u64_as_f64 a) (u64_as_f64 b)) 100)"

lemma pct_mono: "unat a \<le> unat b \<Longrightarrow> c \<noteq> 0 \<Longrightarrow> flt_le (Fin 0) (pct a c) \<and> flt_le (pct a c) (pct b c)"
proof -
  assume ab: "unat a \<le> unat b" and c: "c \<noteq> 0"
  obtain r where r: "u64_as_f64 c = Fin r" "0 < r" using u64_as_f64_range(2) [OF c] by force
  have z: "flt_le (Fin 0) (u64_as_f64 a)" using u64_as_f64_range(1) [of a] by force
  have d: "flt_le (Fin 0) (f64_div (u64_as_f64 a) (Fin r))"
    using f64_div_mono [of "Fin 0" "u64_as_f64 a" r] z r(2) by simp
  have m: "flt_le (Fin 0) (f64_mul_fin (f64_div (u64_as_f64 a) (Fin r)) 100)"
    using f64_mul_fin_mono [of "Fin 0" _ 100, OF _ d] by simp
  have "flt_le (Fin 0) (pct a c)"
    using f64_as_f32_mono [of "Fin 0", OF _ m] by (simp add: pct_def r(1))
  moreover have "flt_le (pct a c) (pct b c)"
    unfolding pct_def r(1)
    by (intro f64_as_f32_mono f64_mul_fin_mono f64_div_mono u64_as_f64_mono) (use z d m r(2) ab in simp_all)
  ultimately show ?thesis ..
qed

lemma pct_self: "c \<noteq> 0 \<Longrightarrow> pct c c = Fin 100"
proof -
  assume "c \<noteq> 0"
  then obtain r where "u64_as_f64 c = Fin r" "1 \<le> r" using u64_as_f64_range(2) by blast
  then show ?thesis by (simp add: pct_def round_constants)
qed

lemma pct_range: "unat a \<le> unat c \<Longrightarrow> c \<noteq> 0 \<Longrightarrow> \<exists>q. pct a c = Fin q \<and> 0 \<le> q \<and> q \<le> 100"
  using pct_mono [of a c c] pct_self [of c] flt_between by metis

end
