(* ===== verification/Eviction_Driver.thy ===== *)
theory Eviction_Driver
  imports Float_Order Segment_Log_Evict
begin

text \<open>
  \<^verbatim>\<open>daemon/crates/athar-daemon/src/eviction.rs\<close>: one pass of the driver that evicts closed evidence
  segments between a high and a low water mark.  The pass takes the log's lock for each call
  separately; here the calls of one pass follow one another, \<open>Tasks\<close> takes them apart.
\<close>

section \<open>The pass\<close>

record eviction_config =
  high_water_pct :: flt
  low_water_pct :: flt
  ev_interval_secs :: u64
  max_evictions_per_tick :: nat

definition eviction_config_default :: eviction_config where
  "eviction_config_default = \<lparr>high_water_pct = Fin 85, low_water_pct = Fin 70,
     ev_interval_secs = 30, max_evictions_per_tick = 32\<rparr>"

record eviction_outcome =
  eo_evicted :: nat
  eo_initial_fill :: flt
  eo_final_fill :: flt
  eo_ran_dry :: bool

definition fill_pct :: "slog \<Rightarrow> flt" where
  "fill_pct l =
     (let total = total_bytes l; limit = limit_bytes (lc_quota (sl_config l)) in
      if limit = 0 then Fin 100
      else f64_as_f32 (f64_mul_fin (f64_div (u64_as_f64 total) (u64_as_f64 limit)) 100))"

text \<open>The loop, by the number of evictions the pass may still make.\<close>

fun eviction_loop :: "eviction_config \<Rightarrow> flt \<Rightarrow> nat \<Rightarrow> nat \<Rightarrow> slog \<Rightarrow> eviction_outcome \<times> slog" where
  "eviction_loop c initial 0 count l =
     (\<lparr>eo_evicted = count, eo_initial_fill = initial, eo_final_fill = fill_pct l, eo_ran_dry = False\<rparr>, l)"
| "eviction_loop c initial (Suc n) count l = (case evict_oldest_closed l of
      (Inr (Some i), l') \<Rightarrow>
        if flt_lt (fill_pct l') (low_water_pct c)
        then (\<lparr>eo_evicted = Suc count, eo_initial_fill = initial, eo_final_fill = fill_pct l', eo_ran_dry = False\<rparr>, l')
        else eviction_loop c initial n (Suc count) l'
    | (Inr None, l') \<Rightarrow>
        (\<lparr>eo_evicted = count, eo_initial_fill = initial, eo_final_fill = fill_pct l', eo_ran_dry = True\<rparr>, l')
    | (Inl e, l') \<Rightarrow>
        (\<lparr>eo_evicted = count, eo_initial_fill = initial, eo_final_fill = fill_pct l', eo_ran_dry = False\<rparr>, l'))"

definition run_once :: "eviction_config \<Rightarrow> slog \<Rightarrow> eviction_outcome \<times> slog" where
  "run_once c l =
     (let initial_fill = fill_pct l in
      if flt_lt initial_fill (high_water_pct c)
      then (\<lparr>eo_evicted = 0, eo_initial_fill = initial_fill, eo_final_fill = initial_fill, eo_ran_dry = False\<rparr>, l)
      else eviction_loop c initial_fill (max_evictions_per_tick c) 0 l)"

section \<open>What a pass does\<close>

definition evict_step :: "slog \<Rightarrow> slog" where
  "evict_step l = snd (evict_oldest_closed l)"

definition no_closed :: "slog \<Rightarrow> bool" where
  "no_closed l \<longleftrightarrow> (\<forall>i. file_at (sl_disk l) (closed_name i) = None)"

text \<open>What repeated evictions keep: the invariant, the active segment, the configuration and the
  newest payloads.\<close>

definition trimmed :: "slog \<Rightarrow> slog \<Rightarrow> bool" where
  "trimmed l l' \<longleftrightarrow> log_inv l' \<and> sl_active l' = sl_active l \<and> sl_config l' = sl_config l \<and>
     next_seg_id l' = next_seg_id l \<and> unat (total_bytes l') \<le> unat (total_bytes l) \<and> (\<exists>gone. log_payloads l = gone @ log_payloads l')"

lemma trimmed_refl: "log_inv l \<Longrightarrow> trimmed l l"
  by (simp add: trimmed_def)

lemma trimmed_trans: "trimmed l k \<Longrightarrow> trimmed k m \<Longrightarrow> trimmed l m"
  by (auto simp: trimmed_def)

lemma evict_cases:
  assumes "log_inv l"
  obtains (dry) "no_closed l" "evict_oldest_closed l = (Inr None, l)"
    | (some) i where "evict_oldest_closed l = (Inr (Some i), evict_step l)" "trimmed l (evict_step l)"
        "\<not> no_closed l"
proof -
  from evict_eq [OF assms] show ?thesis
  proof (elim disjE exE conjE)
    fix i assume i: "file_at (sl_disk l) (closed_name i) \<noteq> None" "\<forall>j<i. file_at (sl_disk l) (closed_name j) = None"
      "evict_oldest_closed l = (Inr (Some i), evicted l i)"
    then obtain c where c: "file_at (sl_disk l) (closed_name i) = Some c" by auto
    have s: "evict_step l = evicted l i" by (simp add: evict_step_def i(3))
    have "trimmed l (evicted l i)"
      using log_inv_evicted [OF assms c] log_payloads_evicted [OF assms c] evicted_total(1) [OF assms c] i(2)
      by (auto simp: trimmed_def evicted_def)
    then show ?thesis using some i(1,3) by (auto simp: s no_closed_def)
  qed (auto simp: no_closed_def intro: dry)
qed

lemma fill_mono:
  assumes "sl_config l' = sl_config l" "unat (total_bytes l') \<le> unat (total_bytes l)"
  shows "flt_le (fill_pct l') (fill_pct l)"
  using pct_mono [OF assms(2), of "limit_bytes (lc_quota (sl_config l))"] assms(1)
  by (simp add: fill_pct_def Let_def pct_def)

text \<open>Within its quota the log is between empty and full.\<close>

lemma fill_range:
  "unat (total_bytes l) \<le> unat (limit_bytes (lc_quota (sl_config l))) \<Longrightarrow> \<exists>q. fill_pct l = Fin q \<and> 0 \<le> q \<and> q \<le> 100"
  using pct_range [of "total_bytes l" "limit_bytes (lc_quota (sl_config l))"]
  by (auto simp: fill_pct_def Let_def pct_def)

lemma eviction_loop_spec:
  assumes "log_inv l" "eviction_loop c initial n count l = (out, l')"
  shows "\<exists>k \<le> n. eo_evicted out = count + k \<and> l' = (evict_step ^^ k) l \<and> trimmed l l' \<and>
    eo_initial_fill out = initial \<and> eo_final_fill out = fill_pct l' \<and>
    (\<forall>j. 0 < j \<and> j < k \<longrightarrow> \<not> flt_lt (fill_pct ((evict_step ^^ j) l)) (low_water_pct c)) \<and>
    (if eo_ran_dry out then no_closed l' \<and> k < n
     else k = n \<or> 0 < k \<and> flt_lt (fill_pct l') (low_water_pct c))"
  using assms
proof (induction n arbitrary: count l)
  case 0
  then show ?case by (auto simp: trimmed_refl)
next
  case (Suc n)
  from Suc.prems(1) show ?case
  proof (cases rule: evict_cases)
    case dry
    with Suc.prems show ?thesis by (intro exI [of _ 0]) (auto simp: trimmed_refl)
  next
    case (some i)
    show ?thesis
    proof (cases "flt_lt (fill_pct (evict_step l)) (low_water_pct c)")
      case True
      with Suc.prems(2) some show ?thesis by (intro exI [of _ 1]) auto
    next
      case False
      with Suc.prems(2) some have "eviction_loop c initial n (Suc count) (evict_step l) = (out, l')" by simp
      from Suc.IH [OF _ this] some(2)
      obtain k where k: "k \<le> n" "eo_evicted out = Suc count + k" "l' = (evict_step ^^ k) (evict_step l)"
        "trimmed (evict_step l) l'" "eo_initial_fill out = initial" "eo_final_fill out = fill_pct l'"
        "\<forall>j. 0 < j \<and> j < k \<longrightarrow> \<not> flt_lt (fill_pct ((evict_step ^^ j) (evict_step l))) (low_water_pct c)"
        "if eo_ran_dry out then no_closed l' \<and> k < n
         else k = n \<or> 0 < k \<and> flt_lt (fill_pct l') (low_water_pct c)"
        by (auto simp: trimmed_def)
      have "\<not> flt_lt (fill_pct ((evict_step ^^ j) l)) (low_water_pct c)" if "0 < j" "j < Suc k" for j
      proof (cases "j = 1")
        case False
        then obtain i where "j = Suc i" "0 < i" "i < k" using \<open>0 < j\<close> \<open>j < Suc k\<close> by (cases j) auto
        with k(7) show ?thesis by (simp add: funpow_swap1)
      qed (use \<open>\<not> flt_lt _ _\<close> in simp)
      with k trimmed_trans [OF some(2) k(4)] show ?thesis
        by (intro exI [of _ "Suc k"]) (auto simp: funpow_swap1 split: if_splits)
    qed
  qed
qed

text \<open>Claim C35 (eviction pass): below the high water mark a pass does nothing.  Otherwise it evicts
  oldest segments one at a time, at most the configured number, never past the first log that is
  under the low water mark, and stops only there, at the number, or when no closed segment is
  left, which it reports.  The invariant and the active segment survive, the fills reported are
  those of the logs, the fill never rises, and the log loses the oldest of its payloads only.\<close>

theorem eviction_pass_correct:
  assumes "log_inv l" "run_once c l = (out, l')"
  shows "eo_initial_fill out = fill_pct l \<and> eo_final_fill out = fill_pct l' \<and>
    flt_le (fill_pct l') (fill_pct l) \<and> eo_evicted out \<le> max_evictions_per_tick c \<and> l' = (evict_step ^^ eo_evicted out) l \<and> trimmed l l' \<and>
    (\<forall>j. 0 < j \<and> j < eo_evicted out \<longrightarrow> \<not> flt_lt (fill_pct ((evict_step ^^ j) l)) (low_water_pct c)) \<and>
    (if flt_lt (fill_pct l) (high_water_pct c) then eo_evicted out = 0 \<and> \<not> eo_ran_dry out
     else if eo_ran_dry out then no_closed l'
     else eo_evicted out = max_evictions_per_tick c \<or>
          0 < eo_evicted out \<and> flt_lt (fill_pct l') (low_water_pct c))"
proof (cases "flt_lt (fill_pct l) (high_water_pct c)")
  case True
  with assms show ?thesis by (auto simp: run_once_def Let_def trimmed_refl fill_mono)
next
  case False
  with assms(2) have "eviction_loop c (fill_pct l) (max_evictions_per_tick c) 0 l = (out, l')"
    by (simp add: run_once_def Let_def)
  note spec = eviction_loop_spec [OF assms(1) this]
  then have "flt_le (fill_pct l') (fill_pct l)" by (intro fill_mono) (auto simp: trimmed_def)
  with spec False show ?thesis by (auto split: if_splits)
qed

theorem eviction_pass_correct_witness:
  "\<exists>l out l'. log_payloads l = [[7]] \<and> run_once (eviction_config_default\<lparr>high_water_pct := Fin 0, max_evictions_per_tick := 1\<rparr>) l = (out, l') \<and>
     eo_evicted out = 1 \<and> log_inv l'"
proof -
  let ?c = "eviction_config_default\<lparr>high_water_pct := Fin 0, max_evictions_per_tick := 1\<rparr>"
  obtain l where l: "log_inv l" "log_payloads l = [[7]]" "\<not> no_closed l"
    using one_closed_segment by (auto simp: no_closed_def)
  obtain out l' where r: "run_once ?c l = (out, l')" by (cases "run_once ?c l")
  have "flt_le (Fin 0) (fill_pct l)"
    using pct_mono [of "total_bytes l" "total_bytes l" "limit_bytes (lc_quota (sl_config l))"]
    by (simp add: fill_pct_def Let_def pct_def)
  then have "\<not> flt_lt (fill_pct l) (Fin 0)" by (cases "fill_pct l") auto
  then have s: "eo_evicted out \<le> 1" "l' = (evict_step ^^ eo_evicted out) l" "trimmed l l'"
    "if eo_ran_dry out then no_closed l' else eo_evicted out = 1 \<or> 0 < eo_evicted out"
    using eviction_pass_correct [OF l(1) r] by (auto simp: eviction_config_default_def)
  have "eo_evicted out \<noteq> 0"
  proof
    assume z: "eo_evicted out = 0"
    then have "l' = l" using s(2) by simp
    with s(4) l(3) z show False by (simp split: if_splits)
  qed
  with s l(2) r show ?thesis by (intro exI [of _ l] exI [of _ out] exI [of _ l']) (auto simp: trimmed_def)
qed

section \<open>Water marks that are not numbers\<close>

text \<open>The marks come from the environment through \<open>str::parse\<close>, which reads \<open>nan\<close>: then every pass
  evicts the largest number of segments, however empty the log is.\<close>

lemma nan_marks_evict_always:
  assumes "log_inv l" "run_once c l = (out, l')" "high_water_pct c = NaN" "low_water_pct c = NaN"
  shows "eo_evicted out = max_evictions_per_tick c \<or> eo_ran_dry out"
proof -
  from assms have "eviction_loop c (fill_pct l) (max_evictions_per_tick c) 0 l = (out, l')"
    by (simp add: run_once_def Let_def)
  from eviction_loop_spec [OF assms(1) this] assms(4) show ?thesis by (auto split: if_splits)
qed

end
