(* ===== verification/Host_Metrics.thy ===== *)
theory Host_Metrics
  imports Governor Float_Order
begin

text \<open>
  \<^verbatim>\<open>daemon/crates/athar-daemon/src/host_metrics.rs\<close>: the collector that feeds the governor.  What
  \<^verbatim>\<open>sysinfo\<close> measures is the input (\<open>sys_reading\<close>); the arithmetic on it and the report are the
  source's.
\<close>

section \<open>One sample\<close>

record sys_reading =
  sys_cpu_usage :: flt
  sys_total_memory :: u64
  sys_used_memory :: u64

fun f32_sub :: "flt \<Rightarrow> flt \<Rightarrow> flt" where
  "f32_sub (Fin x) (Fin y) = round32 (x - y)"
| "f32_sub (Fin x) PosInf = NegInf"
| "f32_sub (Fin x) NegInf = PosInf"
| "f32_sub PosInf (Fin y) = PosInf"
| "f32_sub NegInf (Fin y) = NegInf"
| "f32_sub PosInf NegInf = PosInf"
| "f32_sub NegInf PosInf = NegInf"
| "f32_sub _ _ = NaN"

text \<open>\<open>f32::clamp\<close>: a value that is not a number stays what it is.\<close>

definition f32_clamp :: "flt \<Rightarrow> flt \<Rightarrow> flt \<Rightarrow> flt" where
  "f32_clamp lo hi x = (let x = (if flt_lt x lo then lo else x) in if flt_lt hi x then hi else x)"

definition memory_free :: "u64 \<Rightarrow> u64 \<Rightarrow> flt" where
  "memory_free tot used =
     (if 0 < tot
      then f64_as_f32 (f64_mul_fin (f64_div (u64_as_f64 (sat_sub tot used)) (u64_as_f64 tot)) 100)
      else Fin 100)"

definition host_sample :: "sys_reading \<Rightarrow> instant \<Rightarrow> host_metrics" where
  "host_sample r now = \<lparr>
     cpu_headroom_pct = f32_clamp (Fin 0) (Fin 100) (f32_sub (Fin 100) (sys_cpu_usage r)),
     memory_free_pct = memory_free (sys_total_memory r) (sys_used_memory r),
     disk_free_pct = Fin 100, hm_taken_at = now\<rparr>"

definition collector_tick :: "governor \<Rightarrow> sys_reading \<times> instant \<Rightarrow> governor" where
  "collector_tick g = (\<lambda>(r, now). report_host g (host_sample r now))"

section \<open>Properties\<close>

lemma memory_free_range: "\<exists>q. memory_free tot used = Fin q \<and> 0 \<le> q \<and> q \<le> 100"
proof (cases "tot = 0")
  case False
  have "unat (sat_sub tot used) \<le> unat tot" by (simp add: unat_sat_sub)
  from pct_range [OF this False] False show ?thesis
    by (simp add: memory_free_def pct_def word_gt_0)
qed (simp add: memory_free_def)

lemma f32_clamp_range: "x \<noteq> NaN \<Longrightarrow> \<exists>q. f32_clamp (Fin 0) (Fin 100) x = Fin q \<and> 0 \<le> q \<and> q \<le> 100"
  by (cases x) (auto simp: f32_clamp_def Let_def)

lemma f32_sub_not_NaN: "x \<noteq> NaN \<Longrightarrow> f32_sub (Fin 100) x \<noteq> NaN"
  by (cases x) simp_all

lemma collector_run_ops:
  "foldl collector_tick g xs = foldl gov_step g (map (\<lambda>(r, now). ReportHost (host_sample r now)) xs)"
  by (induction xs arbitrary: g) (auto simp: collector_tick_def)

text \<open>Claim C36 (host feed): every sample reports percentages between 0 and 100 (the disk always as
  free) unless the reported CPU usage is not a number, and a governor that the collector alone
  feeds, whatever it measures, never leaves the levels L0 to L2, never trips and always admits
  evidence, so the daemon never drops a frame.\<close>

theorem host_feed_never_drops:
  "(\<exists>m. memory_free_pct (host_sample r now) = Fin m \<and> 0 \<le> m \<and> m \<le> 100) \<and>
   disk_free_pct (host_sample r now) = Fin 100 \<and>
   (sys_cpu_usage r = NaN \<or> (\<exists>p. cpu_headroom_pct (host_sample r now) = Fin p \<and> 0 \<le> p \<and> p \<le> 100)) \<and>
   current_level (foldl collector_tick (governor_new c t0) xs) \<le> L2Defer \<and>
   current_deadman (foldl collector_tick (governor_new c t0) xs) = DeadmanOk \<and>
   allows (current_level (foldl collector_tick (governor_new c t0) xs)) P1"
proof -
  let ?g = "foldl collector_tick (governor_new c t0) xs"
  have "host_only (governor_new c t0)" by (simp add: host_only_def governor_new_def)
  moreover have "list_all is_report_host (map (\<lambda>(r, now). ReportHost (host_sample r now)) xs)"
    by (auto simp: list_all_iff)
  ultimately have "host_only ?g" unfolding collector_run_ops by (rule host_only_run)
  moreover have "gov_synced ?g"
    unfolding collector_run_ops using gov_reachable_run [OF gov_init] by (rule gov_reachable_synced)
  ultimately have "current_level ?g \<le> L2Defer \<and> current_deadman ?g = DeadmanOk \<and> allows (current_level ?g) P1"
    by (auto simp: host_only_def gov_synced_def current_level_def current_deadman_def level_le_L2)
  then show ?thesis
    using memory_free_range [of "sys_total_memory r" "sys_used_memory r"] f32_clamp_range f32_sub_not_NaN
    by (auto simp: host_sample_def)
qed

text \<open>A CPU usage that is not a number reads as full headroom.\<close>

lemma nan_usage_reads_healthy:
  "sys_cpu_usage r = NaN \<Longrightarrow> bucket3 (cpu_headroom_pct (host_sample r now)) l1 l2 = L0Normal"
  by (simp add: host_sample_def f32_clamp_def Let_def bucket3_def)

end
