(* ===== verification/Policy_Reload.thy ===== *)
theory Policy_Reload
  imports Detection_Config
begin

text \<open>
  \<^verbatim>\<open>daemon/crates/athar-daemon/src/policy_reload.rs\<close>: the watcher that swaps the policy engine's
  configuration when the modification time of the policy file changes.  What one poll sees of
  the file is an \<open>observation\<close>: the result of the \<open>stat\<close> and the text a read would return.  Only
  the watcher writes the engine's configuration.
\<close>

section \<open>The watcher\<close>

datatype stat_result = StatNotFound | StatFailed | StatOk "nat option"

record observation =
  ob_stat :: stat_result
  ob_text :: "byte list option"

record watcher =
  w_last_mtime :: "nat option"
  w_last_applied :: "policy_config option"
  w_engine :: policy_engine

definition watcher_start :: "policy_engine \<Rightarrow> watcher" where
  "watcher_start engine = \<lparr>w_last_mtime = None, w_last_applied = Some (policy_snapshot engine), w_engine = engine\<rparr>"

definition parse_config :: "json_text \<Rightarrow> byte list \<Rightarrow> detection_config option" where
  "parse_config k text = opt_bind (from_slice k text) config_of_json"

definition watcher_tick :: "json_text \<Rightarrow> observation \<Rightarrow> watcher \<Rightarrow> watcher" where
  "watcher_tick k ob w = (case ob_stat ob of
      StatOk mtime \<Rightarrow>
        if mtime = w_last_mtime w then w
        else let w = w\<lparr>w_last_mtime := mtime\<rparr> in
          (case ob_text ob of
             None \<Rightarrow> w
           | Some text \<Rightarrow>
              (case parse_config k text of
                 None \<Rightarrow> w
               | Some new_cfg \<Rightarrow>
                   if w_last_applied w \<noteq> Some (dc_policies new_cfg)
                   then w\<lparr>w_engine := policy_reload (dc_policies new_cfg) (w_engine w),
                     w_last_applied := Some (dc_policies new_cfg)\<rparr>
                   else w))
    | StatNotFound \<Rightarrow> if w_last_mtime w \<noteq> None then w\<lparr>w_last_mtime := None\<rparr> else w
    | StatFailed \<Rightarrow> w)"

text \<open>\<open>spawn_watcher\<close>: an interval of zero disables it.\<close>

definition watch :: "json_text \<Rightarrow> u64 \<Rightarrow> observation list \<Rightarrow> policy_engine \<Rightarrow> policy_engine" where
  "watch k interval_secs obs engine =
     (if interval_secs = 0 then engine else w_engine (fold (watcher_tick k) obs (watcher_start engine)))"

definition summarise_rule :: "string \<Rightarrow> policy_rule \<Rightarrow> string" where
  "summarise_rule name r = name @ ''={'' @ (if pr_enabled r then ''on'' else ''off'') @ '':'' @
     mode_str (pr_mode r) @ '':'' @ fail_mode_str (pr_fail_mode r) @ ''}''"

definition summarise :: "policy_config \<Rightarrow> string" where
  "summarise p = summarise_rule ''hi_amt_new_ben'' (pc_high_amount_new_beneficiary p) @ '' '' @
     summarise_rule ''hi_vel'' (pc_high_velocity p) @ '' '' @
     summarise_rule ''dist_tgt'' (pc_distinct_targets p)"

section \<open>What is in force\<close>

text \<open>The specification: the modification time remembered after a poll, and the rules that the polls
  noticed, a poll noticing the file when its time is not the remembered one.\<close>

definition remembered :: "nat option \<Rightarrow> observation \<Rightarrow> nat option" where
  "remembered m ob = (case ob_stat ob of StatOk t \<Rightarrow> t | StatNotFound \<Rightarrow> None | StatFailed \<Rightarrow> m)"

definition notices :: "nat option \<Rightarrow> observation \<Rightarrow> bool" where
  "notices m ob \<longleftrightarrow> (\<exists>t. ob_stat ob = StatOk t \<and> t \<noteq> m)"

fun noticed :: "json_text \<Rightarrow> nat option \<Rightarrow> observation list \<Rightarrow> policy_config list" where
  "noticed k m [] = []"
| "noticed k m (ob # obs) =
     (case opt_bind (if notices m ob then ob_text ob else None) (parse_config k) of
        None \<Rightarrow> [] | Some cfg \<Rightarrow> [dc_policies cfg]) @ noticed k (remembered m ob) obs"

lemma opt_bind_None [simp]: "opt_bind None f = None"
  by (simp add: opt_bind_def)

lemma watcher_run:
  assumes "w_last_applied w = Some (policy_snapshot (w_engine w))"
  shows "w_last_applied (fold (watcher_tick k) obs w) = Some (policy_snapshot (w_engine (fold (watcher_tick k) obs w))) \<and>
    policy_snapshot (w_engine (fold (watcher_tick k) obs w)) = last (policy_snapshot (w_engine w) # noticed k (w_last_mtime w) obs)"
  using assms
proof (induction obs arbitrary: w)
  case (Cons ob obs)
  let ?w = "watcher_tick k ob w"
  let ?n = "case opt_bind (if notices (w_last_mtime w) ob then ob_text ob else None) (parse_config k) of
        None \<Rightarrow> [] | Some cfg \<Rightarrow> [dc_policies cfg]"
  have step: "w_last_applied ?w = Some (policy_snapshot (w_engine ?w))" "w_last_mtime ?w = remembered (w_last_mtime w) ob"
    "policy_snapshot (w_engine ?w) = last (policy_snapshot (w_engine w) # ?n)"
    using Cons.prems
    by (auto simp: watcher_tick_def remembered_def notices_def Let_def policy_reload_def policy_snapshot_def
        split: stat_result.split option.split)
  have "last (last (a # xs) # ys) = last (a # xs @ ys)" for a :: policy_config and xs ys by simp
  with Cons.IH [OF step(1)] step(2,3) show ?case by simp
qed simp

text \<open>Live reload: with the watcher running the rules in force are those of the last valid
  text that a poll noticed, or the ones at the start while there is none: a deleted, unreadable
  or malformed file never replaces rules and never brings the defaults back; a disabled watcher
  changes nothing.\<close>

theorem reload_keeps_last_valid:
  "policy_snapshot (watch k interval obs engine) =
     (if interval = 0 then policy_snapshot engine else last (policy_snapshot engine # noticed k None obs))"
  using watcher_run [of "watcher_start engine" k obs]
  by (simp add: watch_def watcher_start_def)

lemma noticed_append: "noticed k m (xs @ ys) = noticed k m xs @ noticed k (fold (\<lambda>ob m. remembered m ob) xs m) ys"
  by (induction xs arbitrary: m) auto

text \<open>Claim C37 (edits take effect): a configuration saved as JSON with a modification time other than the
  remembered one is in force from the next poll on, and stays so while the file keeps that time.\<close>

theorem saved_edit_in_force:
  assumes "interval \<noteq> 0" "config_fits c" "from_slice k text = Some (config_to_json c)"
    and "fold (\<lambda>ob m. remembered m ob) before None \<noteq> Some t"
    and "list_all (\<lambda>ob. ob_stat ob = StatOk (Some t)) later"
  shows "policy_snapshot (watch k interval (before @ \<lparr>ob_stat = StatOk (Some t), ob_text = Some text\<rparr> # later) engine)
    = dc_policies c"
proof -
  have "noticed k (Some t) later = []" using assms(5)
    by (induction later) (auto simp: notices_def remembered_def)
  then have "noticed k None (before @ \<lparr>ob_stat = StatOk (Some t), ob_text = Some text\<rparr> # later) =
      noticed k None before @ [dc_policies c]"
    using assms(2-4) by (auto simp: noticed_append notices_def remembered_def parse_config_def config_json)
  then show ?thesis
    using watcher_run [of "watcher_start engine" k "before @ \<lparr>ob_stat = StatOk (Some t), ob_text = Some text\<rparr> # later"] assms(1)
    by (simp add: watch_def watcher_start_def)
qed

lemma saved_edit_in_force_witness:
  "policy_snapshot (watch \<lparr>to_vec_pretty = \<lambda>_. [7], from_slice = \<lambda>_. Some (config_to_json detection_config_default)\<rparr> 5
     ([] @ \<lparr>ob_stat = StatOk (Some 9), ob_text = Some [7]\<rparr> # [\<lparr>ob_stat = StatOk (Some 9), ob_text = None\<rparr>])
     (policy_engine_new (policy_config_default\<lparr>pc_high_velocity := policy_rule_default\<lparr>pr_enabled := False\<rparr>\<rparr>))) = policy_config_default"
proof -
  have "dc_policies detection_config_default = policy_config_default" by (simp add: detection_config_default_def)
  moreover have "config_fits detection_config_default"
    by (simp add: config_fits_def detection_config_default_def signal_config_default_def velocity_fits_def
        velocity_config_default_def targets_fit_def target_config_default_def stuffing_fits_def credential_stuffing_default_def)
  ultimately show ?thesis
    using saved_edit_in_force [of 5 detection_config_default
        "\<lparr>to_vec_pretty = \<lambda>_. [7], from_slice = \<lambda>_. Some (config_to_json detection_config_default)\<rparr>" "[7]" "[]" 9
        "[\<lparr>ob_stat = StatOk (Some 9), ob_text = None\<rparr>]"]
    by simp
qed

section \<open>A poll that fails\<close>

text \<open>The time is remembered before the file is read: when the read fails, or finds a half-written
  text, the edit is not looked at again until the modification time changes once more.\<close>

lemma failed_poll_is_not_retried:
  assumes "ob_stat first = StatOk (Some t)" "opt_bind (ob_text first) (parse_config k) = None"
    and "list_all (\<lambda>ob. ob_stat ob = StatOk (Some t)) later"
  shows "policy_snapshot (watch k interval (first # later) engine) = policy_snapshot engine"
proof -
  have "noticed k (Some t) later = []" using assms(3)
    by (induction later) (auto simp: notices_def remembered_def)
  then have "noticed k None (first # later) = []"
    using assms(1,2) by (simp add: notices_def remembered_def)
  then show ?thesis
    using watcher_run [of "watcher_start engine" k "first # later"]
    by (simp add: watch_def watcher_start_def policy_snapshot_def)
qed

text \<open>The summary in the log leaves the credential-stuffing rule out.\<close>

lemma summary_omits_rule: "summarise (p\<lparr>pc_credential_stuffing := r\<rparr>) = summarise p"
  by (simp add: summarise_def)

end
