(* ===== verification/Shim_Spool.thy ===== *)
theory Shim_Spool
  imports Ingest_Props
begin

text \<open>
  \<^verbatim>\<open>daemon/crates/athar-daemon/src/shim_spool.rs\<close>: the collector of the loss records the shim
  spools while the daemon is unreachable.  Every line of a \<^verbatim>\<open>.jsonl\<close> file becomes a coverage gap
  in the evidence log and the audit chain; a file is deleted when all its lines are through.
\<close>

section \<open>Text of a spool file\<close>

text \<open>\<open>read_to_string\<close> wants well-formed UTF-8.\<close>

definition cont :: "byte \<Rightarrow> bool" where
  "cont b \<longleftrightarrow> 128 \<le> unat b \<and> unat b \<le> 191"

text \<open>The length of the first character, 0 when it is not well formed.\<close>

definition utf8_step :: "byte list \<Rightarrow> nat" where
  "utf8_step bs = (case map unat (take 4 bs) of
      [] \<Rightarrow> 0
    | a # r \<Rightarrow>
        let c1 = take 1 (drop 1 bs); c2 = take 1 (drop 2 bs); c3 = take 1 (drop 3 bs);
            ok = (\<lambda>c. c \<noteq> [] \<and> cont (hd c)); second = (case r of [] \<Rightarrow> 0 | b # _ \<Rightarrow> b)
        in if a < 128 then 1
           else if 194 \<le> a \<and> a \<le> 223 \<and> ok c1 then 2
           else if 224 \<le> a \<and> a \<le> 239 \<and> ok c1 \<and> ok c2 \<and> (a = 224 \<longrightarrow> 160 \<le> second) \<and> (a = 237 \<longrightarrow> second \<le> 159) then 3
           else if 240 \<le> a \<and> a \<le> 244 \<and> ok c1 \<and> ok c2 \<and> ok c3 \<and> (a = 240 \<longrightarrow> 144 \<le> second) \<and> (a = 244 \<longrightarrow> second \<le> 143) then 4
           else 0)"

function utf8_ok :: "byte list \<Rightarrow> bool" where
  "utf8_ok bs = (if bs = [] then True else if utf8_step bs = 0 then False else utf8_ok (drop (utf8_step bs) bs))"
  by auto
termination by (relation "measure length") auto

declare utf8_ok.simps [simp del]

text \<open>\<open>str::lines\<close>: split at line feeds, a last empty piece and one carriage return at the end of a
  line dropped.\<close>

definition strip_cr :: "byte list \<Rightarrow> byte list" where
  "strip_cr l = (if l \<noteq> [] \<and> last l = 13 then butlast l else l)"

fun split_lf :: "byte list \<Rightarrow> byte list list" where
  "split_lf [] = [[]]"
| "split_lf (b # bs) = (case split_lf bs of l # ls \<Rightarrow> if b = 10 then [] # l # ls else (b # l) # ls)"

definition text_lines :: "byte list \<Rightarrow> byte list list" where
  "text_lines bs = (let ls = split_lf bs in map strip_cr (if last ls = [] then butlast ls else ls))"

text \<open>\<open>str::trim\<close>: the characters with the property \<open>White_Space\<close>, by their UTF-8 bytes.\<close>

definition white_chars :: "byte list list" where
  "white_chars = map (\<lambda>b. [b]) [9, 10, 11, 12, 13, 32] @ [[0xC2, 0x85], [0xC2, 0xA0], [0xE1, 0x9A, 0x80]] @
     map (\<lambda>b. [0xE2, 0x80, b]) [0x80, 0x81, 0x82, 0x83, 0x84, 0x85, 0x86, 0x87, 0x88, 0x89, 0x8A, 0xA8, 0xA9, 0xAF] @
     [[0xE2, 0x81, 0x9F], [0xE3, 0x80, 0x80]]"

definition white_prefix :: "byte list list \<Rightarrow> byte list \<Rightarrow> nat" where
  "white_prefix ws bs = (case find (\<lambda>w. take (length w) bs = w) ws of None \<Rightarrow> 0 | Some w \<Rightarrow> length w)"

function skip_white :: "byte list list \<Rightarrow> byte list \<Rightarrow> byte list" where
  "skip_white ws bs = (if bs = [] \<or> white_prefix ws bs = 0 then bs else skip_white ws (drop (white_prefix ws bs) bs))"
  by auto
termination by (relation "measure (\<lambda>(ws, bs). length bs)") auto

declare skip_white.simps [simp del]

definition trim :: "byte list \<Rightarrow> byte list" where
  "trim bs = rev (skip_white (map rev white_chars) (rev (skip_white white_chars bs)))"

text \<open>\<open>Path::extension\<close> of a file name.\<close>

definition extension :: "string \<Rightarrow> string option" where
  "extension n = map_option snd (split_ext n)"

section \<open>Records\<close>

record shim_loss_record =
  sl_kind :: string
  sl_reason :: string
  sl_shim_pid :: i64
  sl_at_ms :: u64
  sl_frames_lost :: u64
  sl_bytes_lost :: u64
  sl_tenant_id :: string

definition default_tenant :: string where
  "default_tenant = ''tnt_unknown''"

definition loss_of_json :: "json \<Rightarrow> shim_loss_record option" where
  "loss_of_json j =
     opt_bind (opt_bind (json_field j ''kind'') json_as_str) (\<lambda>kd.
     opt_bind (opt_bind (json_field j ''reason'') json_as_str) (\<lambda>rs.
     opt_bind (opt_bind (json_field j ''shim_pid'') i64_of_json) (\<lambda>pid.
     opt_bind (opt_bind (json_field j ''at_ms'') u64_of_json) (\<lambda>ms.
     opt_bind (opt_bind (json_field j ''frames_lost'') u64_of_json) (\<lambda>fl.
     opt_bind (opt_bind (json_field j ''bytes_lost'') u64_of_json) (\<lambda>bl.
     opt_bind (json_default json_as_str default_tenant j ''tenant_id'') (\<lambda>tn.
     Some \<lparr>sl_kind = kd, sl_reason = rs, sl_shim_pid = pid, sl_at_ms = ms, sl_frames_lost = fl,
       sl_bytes_lost = bl, sl_tenant_id = tn\<rparr>)))))))"

definition loss_payload :: "shim_loss_record \<Rightarrow> u64 \<Rightarrow> json" where
  "loss_payload r now = JObject [
     (''bytes'', u64_to_json (sl_bytes_lost r)), (''cause'', JString ''SHIM_DAEMON_UNREACHABLE''),
     (''frames'', u64_to_json (sl_frames_lost r)), (''kind'', JString ''coverage_gap''),
     (''reason'', JString (sl_reason r)), (''recorded_at_ms'', u64_to_json now),
     (''shim_pid'', i64_to_json (sl_shim_pid r)), (''tenant_id'', JString (sl_tenant_id r)),
     (''window_started_at_ms'', u64_to_json (sl_at_ms r))]"

section \<open>The collector\<close>

text \<open>The spool directory and whether it exists; the clock readings of a record, by file and line.\<close>

record spool =
  sp_present :: bool
  sp_disk :: disk

type_synonym loss_clock = "string \<Rightarrow> nat \<Rightarrow> u64 \<times> i64"

datatype spool_error = SpRead io_error | SpNotUtf8 | SpIngest ingest_error

definition ingest_record :: "codecs \<Rightarrow> u64 \<times> i64 \<Rightarrow> shim_loss_record \<Rightarrow> unit daemon_eff" where
  "ingest_record k t r =
     (let payload = co_to_vec k (loss_payload r (fst t)) in
      bind_eff (on_log (log_append payload)) (\<lambda>_.
      on_audit (observe (co_crypto k) (co_segments k) (snd t) ''coverage_gap'' payload)))"

text \<open>The lines of a text that are records; blank and malformed lines are skipped.\<close>

definition line_record :: "codecs \<Rightarrow> byte list \<Rightarrow> shim_loss_record option" where
  "line_record k raw = (let raw = trim raw in
     if raw = [] then None else opt_bind (co_from_slice k raw) loss_of_json)"

definition ingest_line :: "codecs \<Rightarrow> (nat \<Rightarrow> u64 \<times> i64) \<Rightarrow> nat \<times> byte list \<Rightarrow> nat \<Rightarrow> nat daemon_eff" where
  "ingest_line k clk = (\<lambda>(line_no, raw) n. case line_record k raw of
      None \<Rightarrow> return_eff n
    | Some r \<Rightarrow> bind_eff (ingest_record k (clk line_no) r) (\<lambda>_. return_eff (Suc n)))"

definition ingest_file :: "codecs \<Rightarrow> loss_clock \<Rightarrow> string \<Rightarrow> spool \<Rightarrow> daemon \<Rightarrow> (spool_error, nat) result \<times> spool \<times> daemon" where
  "ingest_file k clk name sp d = (case io_read name (sp_disk sp) of
      (Inl e, dk) \<Rightarrow> (Inl (SpRead e), sp\<lparr>sp_disk := dk\<rparr>, d)
    | (Inr content, dk) \<Rightarrow>
        if \<not> utf8_ok content then (Inl SpNotUtf8, sp\<lparr>sp_disk := dk\<rparr>, d)
        else (case for_each (ingest_line k (clk name)) (enumerate 0 (text_lines content)) 0 d of
          (r, d) \<Rightarrow> (map_err SpIngest r, sp\<lparr>sp_disk := dk\<rparr>, d)))"

definition is_file :: "string \<Rightarrow> disk \<Rightarrow> bool \<times> disk" where
  "is_file n dk = io_exists n dk"

definition drain_file :: "codecs \<Rightarrow> loss_clock \<Rightarrow> string \<Rightarrow> nat \<times> spool \<times> daemon \<Rightarrow> nat \<times> spool \<times> daemon" where
  "drain_file k clk name = (\<lambda>(ingested, sp, d). case is_file name (sp_disk sp) of
      (b, dk) \<Rightarrow> let sp = sp\<lparr>sp_disk := dk\<rparr> in
        if \<not> b \<or> extension name \<noteq> Some ''jsonl'' then (ingested, sp, d)
        else (case ingest_file k clk name sp d of
           (Inr n, sp, d) \<Rightarrow> (ingested + n, sp\<lparr>sp_disk := snd (io_remove name (sp_disk sp))\<rparr>, d)
         | (Inl e, sp, d) \<Rightarrow> (ingested, sp, d)))"

definition drain :: "codecs \<Rightarrow> loss_clock \<Rightarrow> spool \<Rightarrow> daemon \<Rightarrow> nat \<times> spool \<times> daemon" where
  "drain k clk sp d =
     (if \<not> sp_present sp then (0, sp, d)
      else case io_read_dir (sp_disk sp) of
        (Inl e, dk) \<Rightarrow> (0, sp\<lparr>sp_disk := dk\<rparr>, d)
      | (Inr names, dk) \<Rightarrow> fold (drain_file k clk) names (0, sp\<lparr>sp_disk := dk\<rparr>, d))"

section \<open>What a drain commits\<close>

lemma ingest_record_commit:
  "ingest_record k t r = commit k (snd t) ''coverage_gap'' (co_to_vec k (loss_payload r (fst t)))"
  by (simp add: ingest_record_def commit_def Let_def)

text \<open>The payloads of numbered lines, of a file's text, and of a name in the spool.\<close>

fun line_payloads :: "codecs \<Rightarrow> (nat \<Rightarrow> u64 \<times> i64) \<Rightarrow> (nat \<times> byte list) list \<Rightarrow> byte list list" where
  "line_payloads k clk [] = []"
| "line_payloads k clk ((i, raw) # ls) = (case line_record k raw of None \<Rightarrow> []
     | Some r \<Rightarrow> [co_to_vec k (loss_payload r (fst (clk i)))]) @ line_payloads k clk ls"

definition spool_payloads :: "codecs \<Rightarrow> loss_clock \<Rightarrow> disk \<Rightarrow> string \<Rightarrow> byte list list" where
  "spool_payloads k clk dk x = (case file_at dk x of None \<Rightarrow> []
     | Some c \<Rightarrow> if extension x = Some ''jsonl'' \<and> utf8_ok c
         then line_payloads k (clk x) (enumerate 0 (text_lines c)) else [])"

text \<open>The daemon after the payloads \<open>ps\<close> went through evidence and audit as coverage gaps.\<close>

definition same_rest :: "daemon \<Rightarrow> daemon \<Rightarrow> bool" where
  "same_rest d d' \<longleftrightarrow> d_governor d' = d_governor d \<and> d_drops d' = d_drops d \<and> d_lifecycles d' = d_lifecycles d \<and>
     d_signals d' = d_signals d \<and> d_policy d' = d_policy d \<and> d_decisions d' = d_decisions d \<and> d_conn d' = d_conn d"

definition gaps_committed :: "codecs \<Rightarrow> byte list \<Rightarrow> u64 \<Rightarrow> nat \<Rightarrow> daemon \<Rightarrow> audit_spec \<Rightarrow> byte list list \<Rightarrow>
    daemon \<Rightarrow> audit_segment list \<Rightarrow> audit_spec \<Rightarrow> bool" where
  "gaps_committed k key m n d a ps d' segs' a' \<longleftrightarrow> logs_ok k key m n d' segs' a' \<and>
     log_payloads (d_log d') = log_payloads (d_log d) @ ps \<and>
     trail a' = trail a @ map (Pair ''coverage_gap'') ps \<and> same_rest d d'"

lemma gaps_committed_trans:
  "gaps_committed k key m i d a ps d1 segs1 a1 \<Longrightarrow> gaps_committed k key m j d1 a1 qs d2 segs2 a2 \<Longrightarrow>
   gaps_committed k key m j d a (ps @ qs) d2 segs2 a2"
  by (auto simp: gaps_committed_def same_rest_def)

lemma logs_ok_mono: "logs_ok k key m i d segs a \<Longrightarrow> j \<le> i \<Longrightarrow> logs_ok k key m j d segs a"
  by (simp add: logs_ok_def)

lemma gaps_committed_refl: "logs_ok k key m i d segs a \<Longrightarrow> j \<le> i \<Longrightarrow> gaps_committed k key m j d a [] d segs a"
  by (simp add: gaps_committed_def logs_ok_mono same_rest_def)

lemma ingest_line_skip: "line_record k raw = None \<Longrightarrow> ingest_line k clk (i, raw) c d = (Inr c, d)"
  by (simp add: ingest_line_def return_eff_def)

lemma ingest_line_record:
  "line_record k raw = Some r \<Longrightarrow> ingest_line k clk (i, raw) c d =
     (case commit k (snd (clk i)) ''coverage_gap'' (co_to_vec k (loss_payload r (fst (clk i)))) d of
        (Inl e, d') \<Rightarrow> (Inl e, d') | (Inr u, d') \<Rightarrow> (Inr (Suc c), d'))"
  by (simp add: ingest_line_def ingest_record_commit bind_eff_def return_eff_def split: prod.split sum.split)

lemma for_each_Cons: "for_each f (x # xs) c s = (case f x c s of (Inl e, s') \<Rightarrow> (Inl e, s') | (Inr c', s') \<Rightarrow> for_each f xs c' s')"
  by (simp add: bind_eff_def)

text \<open>What a log of so much room takes of a list of payloads: the first ones, up to one that is too large or does not
  fit any more.\<close>

fun admitted :: "nat \<Rightarrow> nat \<Rightarrow> byte list list \<Rightarrow> byte list list" where
  "admitted largest free [] = []"
| "admitted largest free (p # ps) =
     (if length p \<le> largest \<and> 4 + length p \<le> free then p # admitted largest (free - (4 + length p)) ps else [])"

definition cost :: "byte list list \<Rightarrow> nat" where
  "cost ps = sum_list (map (\<lambda>p. 4 + length p) ps)"

lemma cost_simps [simp]: "cost [] = 0" "cost (p # ps) = 4 + length p + cost ps"
  by (simp_all add: cost_def)

definition lines_done :: "codecs \<Rightarrow> byte list \<Rightarrow> u64 \<Rightarrow> nat \<Rightarrow> daemon \<Rightarrow> audit_spec \<Rightarrow> byte list list \<Rightarrow>
    daemon \<Rightarrow> audit_segment list \<Rightarrow> audit_spec \<Rightarrow> bool" where
  "lines_done k key m n d a qs d' segs' a' \<longleftrightarrow> gaps_committed k key m n d a qs d' segs' a' \<and>
     sl_config (d_log d') = sl_config (d_log d) \<and> room (d_log d') = room (d_log d) - cost qs"

lemma lines_commit:
  assumes "crypto_ok (co_crypto k)" "logs_ok k key m (length (line_payloads k clk ls) + n) d segs a"
    and "qs = admitted (max_record_bytes (sl_config (d_log d))) (room (d_log d)) (line_payloads k clk ls)"
  shows "\<exists>segs' a'. case for_each (ingest_line k clk) ls c d of (r, d') \<Rightarrow>
    lines_done k key m n d a qs d' segs' a' \<and>
    (if qs = line_payloads k clk ls then r = Inr (c + length qs) else \<exists>e. r = Inl e)"
  using assms(2,3)
proof (induction ls arbitrary: c d segs a qs)
  case Nil
  have "logs_ok k key m n d segs a" using Nil(1) by simp
  from gaps_committed_refl [OF this, of n] Nil(2) show ?case
    by (intro exI [of _ segs] exI [of _ a]) (simp add: return_eff_def lines_done_def)
next
  case (Cons l ls)
  obtain i raw where l: "l = (i, raw)" by (cases l)
  show ?case
  proof (cases "line_record k raw")
    case None
    have "for_each (ingest_line k clk) (l # ls) c d = for_each (ingest_line k clk) ls c d"
      unfolding l for_each_Cons ingest_line_skip [OF None] by simp
    moreover have "line_payloads k clk (l # ls) = line_payloads k clk ls" using None by (simp add: l)
    ultimately show ?thesis using Cons.IH [of d segs a qs c] Cons.prems by (simp only:)
  next
    case (Some r)
    let ?p = "co_to_vec k (loss_payload r (fst (clk i)))"
    let ?n = "length (line_payloads k clk ls) + n" and ?ps = "line_payloads k clk ls"
    have ps: "line_payloads k clk (l # ls) = ?p # ?ps" using Some by (simp add: l)
    have ok: "logs_ok k key m (Suc ?n) d segs a" using Cons.prems(1) unfolding ps by simp
    note cm = commit_exact [OF ok assms(1), of ?p "snd (clk i)" "''coverage_gap''"]
    show ?thesis
    proof (cases "fits (d_log d) ?p")
      case False
      then obtain e where "commit k (snd (clk i)) ''coverage_gap'' ?p d = (Inl e, d)" using cm by auto
      then have "for_each (ingest_line k clk) (l # ls) c d = (Inl e, d)"
        unfolding l for_each_Cons ingest_line_record [OF Some] by simp
      moreover have "qs = []" using Cons.prems(2) False unfolding ps by (auto simp: fits_def)
      ultimately show ?thesis using gaps_committed_refl [OF ok, of n] ps
        by (intro exI [of _ segs] exI [of _ a]) (simp add: lines_done_def)
    next
      case True
      then obtain lg w segs1 a1 where cm1: "commit k (snd (clk i)) ''coverage_gap'' ?p d = (Inr (), d\<lparr>d_log := lg, d_audit := w\<rparr>)"
        and ok1: "logs_ok k key m ?n (d\<lparr>d_log := lg, d_audit := w\<rparr>) segs1 a1" "log_payloads lg = log_payloads (d_log d) @ [?p]"
          "trail a1 = trail a @ [(''coverage_gap'', ?p)]"
        and lg: "sl_config lg = sl_config (d_log d)" "room lg = room (d_log d) - (4 + length ?p)"
        using cm by auto
      let ?d1 = "d\<lparr>d_log := lg, d_audit := w\<rparr>"
      define qs1 where "qs1 = admitted (max_record_bytes (sl_config (d_log ?d1))) (room (d_log ?d1)) ?ps"
      have qs: "qs = ?p # qs1" using Cons.prems(2) True lg unfolding ps by (simp add: fits_def qs1_def)
      have g1: "gaps_committed k key m ?n d a [?p] ?d1 segs1 a1" using ok1 by (simp add: gaps_committed_def same_rest_def)
      have run: "for_each (ingest_line k clk) (l # ls) c d = for_each (ingest_line k clk) ls (Suc c) ?d1"
        unfolding l for_each_Cons ingest_line_record [OF Some] cm1 by simp
      obtain r' d' where r': "for_each (ingest_line k clk) ls (Suc c) ?d1 = (r', d')"
        by (cases "for_each (ingest_line k clk) ls (Suc c) ?d1")
      from Cons.IH [OF ok1(1) qs1_def, of "Suc c"] obtain segs' a' where q:
        "lines_done k key m n ?d1 a1 qs1 d' segs' a'"
        "if qs1 = ?ps then r' = Inr (Suc c + length qs1) else \<exists>e. r' = Inl e"
        unfolding r' by auto
      have "gaps_committed k key m n d a qs d' segs' a'"
        using gaps_committed_trans [OF g1] q(1) unfolding qs lines_done_def by auto
      then have "lines_done k key m n d a qs d' segs' a'"
        using q(1) lg by (simp add: lines_done_def qs)
      then show ?thesis using q(2) unfolding run r' ps
        by (intro exI [of _ segs'] exI [of _ a']) (auto simp: qs)
    qed
  qed
qed

text \<open>A file whose lines are read.\<close>

definition loss_file :: "disk \<Rightarrow> string \<Rightarrow> bool" where
  "loss_file dk x \<longleftrightarrow> extension x = Some ''jsonl'' \<and> (\<exists>c. file_at dk x = Some c \<and> utf8_ok c)"

lemma not_loss_file: "\<not> loss_file dk x \<Longrightarrow> spool_payloads k clk dk x = []"
  by (auto simp: loss_file_def spool_payloads_def split: option.split)

lemma drain_file_commit:
  assumes "crypto_ok (co_crypto k)" "quiet (sp_disk sp)"
    and ok: "logs_ok k key m (length (spool_payloads k clk (sp_disk sp) x) + n) d segs a"
    and qs: "qs = admitted (max_record_bytes (sl_config (d_log d))) (room (d_log d)) (spool_payloads k clk (sp_disk sp) x)"
  shows "\<exists>segs' a'. case drain_file k clk x (c, sp, d) of (c', sp', d') \<Rightarrow>
    lines_done k key m n d a qs d' segs' a' \<and> quiet (sp_disk sp') \<and>
    (if loss_file (sp_disk sp) x \<and> qs = spool_payloads k clk (sp_disk sp) x
     then c' = c + length qs \<and> (\<forall>y. file_at (sp_disk sp') y = (if y = x then None else file_at (sp_disk sp) y))
     else c' = c \<and> sp' = sp)"
proof (cases "loss_file (sp_disk sp) x")
  case False
  then have "drain_file k clk x (c, sp, d) = (c, sp, d)"
    using assms(2) by (cases "file_at (sp_disk sp) x") (auto simp: drain_file_def is_file_def io_exists_def ingest_file_def loss_file_def)
  moreover have "qs = []" using qs not_loss_file [OF False] by simp
  ultimately show ?thesis using gaps_committed_refl [OF ok, of n] assms(2) False
    by (intro exI [of _ segs] exI [of _ a]) (simp add: lines_done_def)
next
  case True
  then obtain content where content: "file_at (sp_disk sp) x = Some content" "utf8_ok content" "extension x = Some ''jsonl''"
    by (auto simp: loss_file_def)
  let ?ls = "enumerate 0 (text_lines content)"
  have ps: "spool_payloads k clk (sp_disk sp) x = line_payloads k (clk x) ?ls"
    using content by (simp add: spool_payloads_def)
  obtain r d' where r: "for_each (ingest_line k (clk x)) ?ls 0 d = (r, d')"
    by (cases "for_each (ingest_line k (clk x)) ?ls 0 d")
  from lines_commit [OF assms(1) ok [unfolded ps] qs [unfolded ps], of 0] obtain segs' a' where q:
    "lines_done k key m n d a qs d' segs' a'"
    "if qs = line_payloads k (clk x) ?ls then r = Inr (0 + length qs) else \<exists>e. r = Inl e"
    unfolding r by auto
  have run: "drain_file k clk x (c, sp, d) = (case r of
      Inr n \<Rightarrow> (c + n, sp\<lparr>sp_disk := (sp_disk sp)\<lparr>files := al_del x (files (sp_disk sp))\<rparr>\<rparr>, d') | Inl e \<Rightarrow> (c, sp, d'))"
    using assms(2) content r
    by (cases r) (simp_all add: drain_file_def is_file_def io_exists_def ingest_file_def)
  show ?thesis unfolding run ps using q assms(2) True
    by (cases "qs = line_payloads k (clk x) ?ls"; intro exI [of _ segs'] exI [of _ a']) (auto simp: file_at_def)
qed

text \<open>The files one after the other, each with what the log takes of it; the files that are gone are those that are read
  and of which it takes everything.\<close>

fun spool_spec :: "nat \<Rightarrow> nat \<Rightarrow> (string \<times> byte list list) list \<Rightarrow> (string \<times> byte list list) list" where
  "spool_spec largest free [] = []"
| "spool_spec largest free ((x, ps) # fs) =
     (let qs = admitted largest free ps in (x, qs) # spool_spec largest (free - cost qs) fs)"

definition finished :: "codecs \<Rightarrow> loss_clock \<Rightarrow> disk \<Rightarrow> string \<times> byte list list \<Rightarrow> bool" where
  "finished k clk dk = (\<lambda>(x, qs). loss_file dk x \<and> qs = spool_payloads k clk dk x)"

lemma spool_spec_names: "map fst (spool_spec m f fs) = map fst fs"
  by (induction m f fs rule: spool_spec.induct) (simp_all add: Let_def)

lemma spool_cong:
  assumes "\<And>y. y \<in> set ns \<Longrightarrow> file_at dk' y = file_at dk y"
  shows "map (\<lambda>x. (x, spool_payloads k clk dk' x)) ns = map (\<lambda>x. (x, spool_payloads k clk dk x)) ns"
    "z \<in> set ns \<Longrightarrow> finished k clk dk' (z, qs) = finished k clk dk (z, qs)"
  using assms by (auto simp: spool_payloads_def finished_def loss_file_def)

lemma drain_files_commit:
  assumes "crypto_ok (co_crypto k)" "quiet (sp_disk sp)" "distinct ns"
    and "logs_ok k key m (length (concat (map (spool_payloads k clk (sp_disk sp)) ns)) + n) d segs a"
    and "out = spool_spec (max_record_bytes (sl_config (d_log d))) (room (d_log d)) (map (\<lambda>x. (x, spool_payloads k clk (sp_disk sp) x)) ns)"
  shows "\<exists>segs' a'. case fold (drain_file k clk) ns (c, sp, d) of (c', sp', d') \<Rightarrow>
    gaps_committed k key m n d a (concat (map snd out)) d' segs' a' \<and>
    (\<forall>y. file_at (sp_disk sp') y = (if y \<in> fst ` set (filter (finished k clk (sp_disk sp)) out) then None else file_at (sp_disk sp) y)) \<and>
    c' = c + length (concat (map snd (filter (finished k clk (sp_disk sp)) out)))"
  using assms(2-5)
proof (induction ns arbitrary: c sp d segs a out)
  case Nil
  have "logs_ok k key m n d segs a" using Nil(3) by simp
  from gaps_committed_refl [OF this, of n] Nil(4) show ?case
    by (intro exI [of _ segs] exI [of _ a]) simp
next
  case (Cons x ns)
  let ?P = "spool_payloads k clk (sp_disk sp)" and ?F = "finished k clk (sp_disk sp)"
  define qs where "qs = admitted (max_record_bytes (sl_config (d_log d))) (room (d_log d)) (?P x)"
  obtain c1 sp1 d1 where 1: "drain_file k clk x (c, sp, d) = (c1, sp1, d1)"
    by (cases "drain_file k clk x (c, sp, d)")
  have ok: "logs_ok k key m (length (?P x) + (length (concat (map ?P ns)) + n)) d segs a"
    using Cons.prems(3) by (simp add: add.assoc)
  from drain_file_commit [OF assms(1) Cons.prems(1) ok qs_def, of c] obtain segs1 a1 where q:
    "lines_done k key m (length (concat (map ?P ns)) + n) d a qs d1 segs1 a1" "quiet (sp_disk sp1)"
    "if ?F (x, qs) then c1 = c + length qs \<and> (\<forall>y. file_at (sp_disk sp1) y = (if y = x then None else file_at (sp_disk sp) y))
     else c1 = c \<and> sp1 = sp"
    unfolding 1 finished_def by auto
  have x1: "file_at (sp_disk sp1) y = (if y = x \<and> ?F (x, qs) then None else file_at (sp_disk sp) y)" for y
    using q(3) by (auto split: if_splits)
  have nx: "x \<notin> set ns" "distinct ns" using Cons.prems(2) by auto
  then have same: "file_at (sp_disk sp1) y = file_at (sp_disk sp) y" if "y \<in> set ns" for y using that x1 by auto
  have cong: "map (\<lambda>x. (x, spool_payloads k clk (sp_disk sp1) x)) ns = map (\<lambda>x. (x, ?P x)) ns"
    "\<And>z qs. z \<in> set ns \<Longrightarrow> finished k clk (sp_disk sp1) (z, qs) = ?F (z, qs)"
    using spool_cong [where ns = ns and dk' = "sp_disk sp1" and dk = "sp_disk sp" and k = k and clk = clk] same by blast+
  define rest where "rest = spool_spec (max_record_bytes (sl_config (d_log d1))) (room (d_log d1))
      (map (\<lambda>x. (x, spool_payloads k clk (sp_disk sp1) x)) ns)"
  have out: "out = (x, qs) # rest"
    unfolding rest_def cong(1) using Cons.prems(4) q(1) by (simp add: qs_def lines_done_def Let_def)
  have names: "fst ` set rest = set ns"
  proof -
    have "map fst rest = ns" unfolding rest_def spool_spec_names by (simp add: o_def)
    then show ?thesis using list.set_map [of fst rest] by simp
  qed
  have flt: "filter (finished k clk (sp_disk sp1)) rest = filter ?F rest"
    using cong(2) names by (intro filter_cong refl) force
  obtain c2 sp2 d2 where 2: "fold (drain_file k clk) ns (c1, sp1, d1) = (c2, sp2, d2)"
    by (cases "fold (drain_file k clk) ns (c1, sp1, d1)")
  have P2: "map (spool_payloads k clk (sp_disk sp1)) ns = map ?P ns"
    using same by (intro map_cong refl) (simp add: spool_payloads_def)
  have g1: "gaps_committed k key m (length (concat (map ?P ns)) + n) d a qs d1 segs1 a1" using q(1) by (simp add: lines_done_def)
  then have "logs_ok k key m (length (concat (map (spool_payloads k clk (sp_disk sp1)) ns)) + n) d1 segs1 a1"
    unfolding P2 by (simp add: gaps_committed_def)
  from Cons.IH [OF q(2) nx(2) this rest_def, of c1] obtain segs2 a2 where g:
    "gaps_committed k key m n d1 a1 (concat (map snd rest)) d2 segs2 a2"
    "\<And>y. file_at (sp_disk sp2) y = (if y \<in> fst ` set (filter ?F rest) then None else file_at (sp_disk sp1) y)"
    "c2 = c1 + length (concat (map snd (filter ?F rest)))"
    unfolding 2 flt by auto
  have x_rest: "x \<notin> fst ` set (filter ?F rest)" using names nx(1) by auto
  have "gaps_committed k key m n d a (concat (map snd out)) d2 segs2 a2"
    using gaps_committed_trans [OF g1 g(1)] by (simp add: out)
  moreover have "file_at (sp_disk sp2) y = (if y \<in> fst ` set (filter ?F out) then None else file_at (sp_disk sp) y)" for y
    using g(2) [of y] x1 [of y] x_rest by (auto simp: out)
  moreover have "c2 = c + length (concat (map snd (filter ?F out)))"
    using g(3) q(3) by (auto simp: out)
  moreover have "fold (drain_file k clk) (x # ns) (c, sp, d) = (c2, sp2, d2)" using 1 2 by simp
  ultimately show ?case by (intro exI [of _ segs2] exI [of _ a2]) simp
qed

text \<open>Claim C38 (spool): what a drain that nobody disturbs does, exactly, when no I/O fails.  It takes the files one after the
  other and of each the records in order, as long as the evidence log accepts them; each accepted record becomes a
  coverage gap in the evidence log and in the audit trail.  A file is deleted exactly when it is a readable
  \<^verbatim>\<open>.jsonl\<close> file all of whose records were accepted; every other file stays as it is.  The number reported is
  that of the records of the deleted files, and nothing else of the daemon changes.\<close>

theorem spool_drain_exact:
  assumes "crypto_ok (co_crypto k)" "sp_present sp" "quiet (sp_disk sp)" "distinct (map fst (files (sp_disk sp)))"
    and "logs_ok k key m (length (concat (map (spool_payloads k clk (sp_disk sp)) (map fst (files (sp_disk sp)))))) d segs a"
  shows "let taken = spool_spec (max_record_bytes (sl_config (d_log d))) (room (d_log d))
        (map (\<lambda>x. (x, spool_payloads k clk (sp_disk sp) x)) (map fst (files (sp_disk sp))));
      deleted = filter (finished k clk (sp_disk sp)) taken
    in \<exists>segs' a'. case drain k clk sp d of (n, sp', d') \<Rightarrow>
      gaps_committed k key m 0 d a (concat (map snd taken)) d' segs' a' \<and>
      (\<forall>x. file_at (sp_disk sp') x = (if x \<in> fst ` set deleted then None else file_at (sp_disk sp) x)) \<and>
      n = length (concat (map snd deleted))"
proof -
  have "drain k clk sp d = fold (drain_file k clk) (map fst (files (sp_disk sp))) (0, sp, d)"
    using assms(2,3) by (simp add: drain_def)
  moreover have "logs_ok k key m (length (concat (map (spool_payloads k clk (sp_disk sp)) (map fst (files (sp_disk sp))))) + 0) d segs a"
    using assms(5) by simp
  note drain_files_commit [OF assms(1,3,4) this refl, where c = 0]
  ultimately show ?thesis unfolding Let_def by (elim ex_forward) (auto split: prod.splits)
qed

definition loss_codecs :: codecs where
  "loss_codecs = demo_codecs\<lparr>co_from_slice := \<lambda>bs. Some (JObject [(''kind'', JString ''shim_loss''), (''reason'', JString ''refused''),
     (''shim_pid'', JInt 7), (''at_ms'', JInt 5), (''frames_lost'', JInt 2), (''bytes_lost'', JInt 80)])\<rparr>"

lemma loss_line: "line_record loss_codecs [120] = Some \<lparr>sl_kind = ''shim_loss'', sl_reason = ''refused'', sl_shim_pid = 7,
    sl_at_ms = 5, sl_frames_lost = 2, sl_bytes_lost = 80, sl_tenant_id = ''tnt_unknown''\<rparr>"
  by (simp add: line_record_def loss_codecs_def loss_of_json_def json_default_def default_tenant_def trim_def
      skip_white.simps white_prefix_def white_chars_def)

lemma loss_text: "utf8_ok [120, 10]" "text_lines [120, 10] = [[120]]" "extension ''a.jsonl'' = Some ''jsonl''"
  by (simp_all add: utf8_ok.simps utf8_step_def text_lines_def strip_cr_def extension_def split_ext_def)

theorem spool_drain_exact_witness:
  "\<exists>sp' d'. drain loss_codecs (\<lambda>_ _. (9, 9)) \<lparr>sp_present = True, sp_disk = disk_of [(''a.jsonl'', [120, 10]), (''b.txt'', [120])]\<rparr>
      (fresh_logs loss_codecs [9] ''tnt'' 2 log_config_defaults demo_daemon) = (1, sp', d') \<and>
    log_payloads (d_log d') = [[1, 2, 3]] \<and>
    file_at (sp_disk sp') ''a.jsonl'' = None \<and> file_at (sp_disk sp') ''b.txt'' = Some [120]"
proof -
  let ?fs = "[(''a.jsonl'', [120, 10]), (''b.txt'', [120])]"
  let ?sp = "\<lparr>sp_present = True, sp_disk = disk_of ?fs\<rparr>"
  let ?d = "fresh_logs loss_codecs [9] ''tnt'' 2 log_config_defaults demo_daemon" and ?clk = "\<lambda>_ _. (9, 9)"
  have f: "file_at (disk_of ?fs) ''a.jsonl'' = Some [120, 10]" "file_at (disk_of ?fs) ''b.txt'' = Some [120]"
    "map fst (files (sp_disk ?sp)) = [''a.jsonl'', ''b.txt'']" "quiet (sp_disk ?sp)"
    by (simp_all add: disk_of_def file_at_def quiet_def)
  have x: "extension ''b.txt'' \<noteq> Some ''jsonl''" by (simp add: extension_def split_ext_def)
  have ps: "spool_payloads loss_codecs ?clk (disk_of ?fs) ''a.jsonl'' = [[1, 2, 3]]" "spool_payloads loss_codecs ?clk (disk_of ?fs) ''b.txt'' = []"
    using loss_line x by (simp_all add: spool_payloads_def f loss_text) (simp add: loss_codecs_def demo_codecs_def)
  have k: "co_crypto loss_codecs = toy_crypto" "co_segments loss_codecs = numbered_text"
    by (simp_all add: loss_codecs_def demo_codecs_def)
  have c: "crypto_ok (co_crypto loss_codecs)" using toy_crypto_ok by (simp add: k)
  have ok: "logs_ok loss_codecs [9] 2 1 ?d [] ([], [])"
    using fresh_logs_ok [of loss_codecs log_config_defaults 1 "[9]" 2 "''tnt''" demo_daemon] numbered_text_ok
    by (simp add: k log_config_defaults_def)
  have log: "log_payloads (d_log ?d) = []" "7 \<le> room (d_log ?d)" "max_record_bytes (sl_config (d_log ?d)) = max_record_bytes log_config_defaults"
    by (simp_all add: fresh_logs_def log_payloads_def slog_new_def room_def log_config_defaults_def quota_new_def)
  have taken: "spool_spec (max_record_bytes (sl_config (d_log ?d))) (room (d_log ?d))
      (map (\<lambda>x. (x, spool_payloads loss_codecs ?clk (sp_disk ?sp) x)) (map fst (files (sp_disk ?sp)))) = [(''a.jsonl'', [[1, 2, 3]]), (''b.txt'', [])]"
    unfolding f(3) log(3) using log(2) by (simp add: ps log_config_defaults_def)
  have del: "filter (finished loss_codecs ?clk (sp_disk ?sp)) [(''a.jsonl'', [[1, 2, 3]]), (''b.txt'', [])] = [(''a.jsonl'', [[1, 2, 3]])]"
    using x by (simp add: finished_def loss_file_def ps f loss_text)
  obtain n sp' d' where dr: "drain loss_codecs ?clk ?sp ?d = (n, sp', d')" by (cases "drain loss_codecs ?clk ?sp ?d")
  have need: "length (concat (map (spool_payloads loss_codecs ?clk (sp_disk ?sp)) (map fst (files (sp_disk ?sp))))) = 1"
    "distinct (map fst (files (sp_disk ?sp)))"
    unfolding f(3) by (simp_all add: ps)
  from spool_drain_exact [of loss_codecs ?sp "[9]" 2 ?clk ?d "[]" "([], [])", unfolded taken del need(1) Let_def dr, OF c _ f(4) need(2) ok]
  obtain segs' a' where g: "gaps_committed loss_codecs [9] 2 0 ?d ([], []) [[1, 2, 3]] d' segs' a'" "n = 1"
    "\<forall>x. file_at (sp_disk sp') x = (if x = ''a.jsonl'' then None else file_at (sp_disk ?sp) x)"
    by auto
  then show ?thesis using dr log(1) f(2) by (auto simp: gaps_committed_def)
qed

section \<open>A file that cannot be finished\<close>

text \<open>When a record of a file is refused, for its size say, the file stays with its earlier records
  committed, and every later drain commits those again: the log grows by them each time.\<close>

lemma unfinished_file_is_repeated:
  assumes "sp_present sp" "quiet (sp_disk sp)" "files (sp_disk sp) = [(x, c)]" "extension x = Some ''jsonl''" "utf8_ok c"
    and "text_lines c = [raw1, raw2]" "line_record k raw1 = Some r1" "line_record k raw2 = Some r2"
    and "commit k (snd (clk x 0)) ''coverage_gap'' (co_to_vec k (loss_payload r1 (fst (clk x 0)))) d = (Inr (), d1)"
    and "max_record_bytes (sl_config (d_log d1)) < length (co_to_vec k (loss_payload r2 (fst (clk x 1))))"
  shows "drain k clk sp d = (0, sp, d1)"
proof -
  let ?q = "co_to_vec k (loss_payload r2 (fst (clk x 1)))"
  have "\<exists>e. log_append ?q (d_log d1) = (Inl e, d_log d1)"
    using assms(10) by (simp add: log_append_def bind_eff_def eff_defs)
  then have "\<exists>e. commit k (snd (clk x 1)) ''coverage_gap'' ?q d1 = (Inl e, d1)"
    by (auto simp: commit_def bind_eff_def on_log_def)
  then obtain e where e: "commit k (snd (clk x (Suc 0))) ''coverage_gap'' (co_to_vec k (loss_payload r2 (fst (clk x (Suc 0))))) d1 = (Inl e, d1)"
    by auto
  have "for_each (ingest_line k (clk x)) (enumerate 0 (text_lines c)) 0 d = (Inl e, d1)"
    using assms(6,9) e ingest_line_record [OF assms(7)] ingest_line_record [OF assms(8)]
    by (simp add: for_each_Cons del: for_each.simps(2))
  then show ?thesis
    using assms(1-5) by (simp add: drain_def drain_file_def is_file_def io_exists_def ingest_file_def file_at_def)
qed

end
