(* ===== verification/Server.thy ===== *)
theory Server
  imports Shim_Spool Eviction_Driver Host_Metrics Policy_Reload Float_Text
begin

text \<open>
  The daemon's configuration (\<^verbatim>\<open>daemon/crates/athar-daemon/src/config.rs\<close>) and its start
  (\<open>IngestServer::new\<close> in \<^verbatim>\<open>ingest.rs\<close>): every part is opened on what the data directory holds.
  The directories under the data directory are \<open>disk\<close>s of their own, the two databases are their
  contents.
\<close>

section \<open>Configuration from the environment\<close>

type_synonym environment = "string \<Rightarrow> string option"

record daemon_config =
  dcf_listen_addr :: string
  dcf_data_dir :: string
  dcf_quota_bytes :: u64
  dcf_max_segment_bytes :: u64
  dcf_max_record_bytes :: nat
  dcf_audit_records_per_segment :: u64
  dcf_staleness_scan_interval_secs :: u64
  dcf_host_metrics_interval_secs :: u64
  dcf_eviction_interval_secs :: u64
  dcf_eviction_high_water_pct :: flt
  dcf_eviction_low_water_pct :: flt
  dcf_shim_spool_dir :: string
  dcf_shim_spool_scan_interval_secs :: u64
  dcf_policy_reload_interval_secs :: u64

text \<open>\<open>u64::from_str\<close>: an optional plus sign, digits, and a value that fits; \<open>f32::from_str\<close> as for
  doubles, rounded to the narrower format.\<close>

definition parse_decimal :: "string \<Rightarrow> nat option" where
  "parse_decimal s = (let t = (case s of [] \<Rightarrow> [] | c # cs \<Rightarrow> if c = CHR ''+'' then cs else s) in
     if t = [] \<or> \<not> list_all is_digit t then None
     else if digits_value t < 2 ^ 64 then Some (digits_value t) else None)"

definition u64_parse :: "string \<Rightarrow> u64 option" where
  "u64_parse s = map_option of_nat (parse_decimal s)"

definition f32_parse :: "string \<Rightarrow> flt option" where
  "f32_parse s =
     (let (neg, r) = split_sign s; l = map lower_char r in
      if l = ''inf'' \<or> l = ''infinity'' then Some (if neg then NegInf else PosInf)
      else if l = ''nan'' then Some NaN
      else case parse_number r of None \<Rightarrow> None
        | Some x \<Rightarrow> Some (round32 (if neg then - x else x)))"

definition env_or :: "environment \<Rightarrow> string \<Rightarrow> string \<Rightarrow> string" where
  "env_or env name d = (case env name of None \<Rightarrow> d | Some v \<Rightarrow> v)"

definition env_or_parse :: "(string \<Rightarrow> 'a option) \<Rightarrow> environment \<Rightarrow> string \<Rightarrow> 'a \<Rightarrow> 'a" where
  "env_or_parse parse env name d = (case opt_bind (env name) parse of None \<Rightarrow> d | Some v \<Rightarrow> v)"

text \<open>\<open>std::env::temp_dir\<close> on Unix, and \<open>Path::join\<close> with a relative name.\<close>

definition temp_dir :: "environment \<Rightarrow> string" where
  "temp_dir env = env_or env ''TMPDIR'' ''/tmp''"

definition path_join :: "string \<Rightarrow> string \<Rightarrow> string" where
  "path_join p q = (if p = [] \<or> last p = CHR ''/'' then p @ q else p @ ''/'' @ q)"

definition spool_default_dir :: "environment \<Rightarrow> string" where
  "spool_default_dir env = path_join (temp_dir env) ''athar-shim-spool''"

definition from_env :: "environment \<Rightarrow> daemon_config" where
  "from_env env = \<lparr>
     dcf_listen_addr = env_or env ''ATHAR_LISTEN_ADDR'' ''127.0.0.1:11223'',
     dcf_data_dir = env_or env ''ATHAR_DATA_DIR'' ''./athar-data'',
     dcf_quota_bytes = env_or_parse u64_parse env ''ATHAR_QUOTA_BYTES'' (2 * 1024 * 1024 * 1024),
     dcf_max_segment_bytes = env_or_parse u64_parse env ''ATHAR_MAX_SEGMENT_BYTES'' (64 * 1024 * 1024),
     dcf_max_record_bytes = env_or_parse parse_decimal env ''ATHAR_MAX_RECORD_BYTES'' (8 * 1024 * 1024),
     dcf_audit_records_per_segment = env_or_parse u64_parse env ''ATHAR_AUDIT_RECORDS_PER_SEGMENT'' 1000,
     dcf_staleness_scan_interval_secs = env_or_parse u64_parse env ''ATHAR_STALENESS_SCAN_INTERVAL_SECS'' 60,
     dcf_host_metrics_interval_secs = env_or_parse u64_parse env ''ATHAR_HOST_METRICS_INTERVAL_SECS'' 5,
     dcf_eviction_interval_secs = env_or_parse u64_parse env ''ATHAR_EVICTION_INTERVAL_SECS'' 30,
     dcf_eviction_high_water_pct = env_or_parse f32_parse env ''ATHAR_EVICTION_HIGH_WATER_PCT'' (Fin 85),
     dcf_eviction_low_water_pct = env_or_parse f32_parse env ''ATHAR_EVICTION_LOW_WATER_PCT'' (Fin 70),
     dcf_shim_spool_dir = env_or env ''ATHAR_SHIM_SPOOL_DIR'' (spool_default_dir env),
     dcf_shim_spool_scan_interval_secs = env_or_parse u64_parse env ''ATHAR_SHIM_SPOOL_SCAN_INTERVAL_SECS'' 30,
     dcf_policy_reload_interval_secs = env_or_parse u64_parse env ''ATHAR_POLICY_RELOAD_INTERVAL_SECS'' 5\<rparr>"

text \<open>The water marks of the eviction driver as \<open>run\<close> sets them up.\<close>

definition eviction_of_config :: "daemon_config \<Rightarrow> eviction_config" where
  "eviction_of_config c = \<lparr>high_water_pct = dcf_eviction_high_water_pct c,
     low_water_pct = dcf_eviction_low_water_pct c, ev_interval_secs = dcf_eviction_interval_secs c,
     max_evictions_per_tick = 32\<rparr>"

section \<open>Start\<close>

text \<open>What the data directory holds: the evidence, key, audit-segment, configuration and state
  directories, the two databases and whether SQLite can open them.\<close>

record data_dir =
  dd_evidence :: disk
  dd_keys :: disk
  dd_segments :: disk
  dd_config :: disk
  dd_state :: disk
  dd_lifecycles :: sqlite_store
  dd_lifecycles_open :: bool
  dd_decisions :: decision_store
  dd_decisions_open :: bool

datatype startup_error = OpenEvidence storage_error | OpenKey file_key_error | OpenAudit writer_error
  | CreateState io_error | OpenLifecycles | OpenDecisions

definition log_config_of :: "daemon_config \<Rightarrow> log_config" where
  "log_config_of c = \<lparr>max_segment_bytes = dcf_max_segment_bytes c, max_record_bytes = dcf_max_record_bytes c,
     lc_quota = quota_new (dcf_quota_bytes c)\<rparr>"

definition on_evidence :: "(disk \<Rightarrow> (storage_error, 'a) result \<times> disk) \<Rightarrow> (data_dir, startup_error, 'a) eff" where
  "on_evidence m dd = (case m (dd_evidence dd) of (r, d) \<Rightarrow> (map_err OpenEvidence r, dd\<lparr>dd_evidence := d\<rparr>))"

definition on_keys :: "(disk, file_key_error, 'a) eff \<Rightarrow> (data_dir, startup_error, 'a) eff" where
  "on_keys m dd = (case m (dd_keys dd) of (r, d) \<Rightarrow> (map_err OpenKey r, dd\<lparr>dd_keys := d\<rparr>))"

definition on_segments :: "(disk \<Rightarrow> (writer_error, 'a) result \<times> disk) \<Rightarrow> (data_dir, startup_error, 'a) eff" where
  "on_segments m dd = (case m (dd_segments dd) of (r, d) \<Rightarrow> (map_err OpenAudit r, dd\<lparr>dd_segments := d\<rparr>))"

definition on_state :: "(disk, io_error, 'a) eff \<Rightarrow> (data_dir, startup_error, 'a) eff" where
  "on_state m dd = (case m (dd_state dd) of (r, d) \<Rightarrow> (map_err CreateState r, dd\<lparr>dd_state := d\<rparr>))"

definition load_policies :: "json_text \<Rightarrow> (data_dir, startup_error, detection_config) eff" where
  "load_policies k dd = (case load_or_default k ''policies.json'' (dd_config dd) of
     (c, d) \<Rightarrow> (Inr c, dd\<lparr>dd_config := d\<rparr>))"

text \<open>\<open>fresh\<close> are the bytes of a new key, \<open>t0\<close> is the start time of the governor.  The daemon has no
  connection yet.\<close>

definition server_new :: "codecs \<Rightarrow> daemon_config \<Rightarrow> byte list \<Rightarrow> instant \<Rightarrow> (data_dir, startup_error, daemon) eff" where
  "server_new k c fresh t0 =
     bind_eff (on_evidence (log_open (log_config_of c))) (\<lambda>log.
     bind_eff (on_keys (load_or_create_dev (co_crypto k) fresh ''segment.key'')) (\<lambda>key.
     bind_eff (on_segments (\<lambda>d. writer_open (co_segments k) d ''tnt_default'' key)) (\<lambda>audit.
     bind_eff (on_state io_create_dir) (\<lambda>_.
     bind_eff get_eff (\<lambda>dd.
     if \<not> dd_lifecycles_open dd then throw_eff OpenLifecycles
     else if \<not> dd_decisions_open dd then throw_eff OpenDecisions
     else bind_eff (load_policies (co_segments k)) (\<lambda>cfg.
     return_eff \<lparr>d_log = log,
       d_audit = with_max_records_per_segment (dcf_audit_records_per_segment c) audit,
       d_governor = governor_new gov_config_default t0, d_drops = drop_counters_default,
       d_lifecycles = dd_lifecycles dd, d_signals = signal_engine_new (dc_signals cfg),
       d_policy = policy_engine_new (dc_policies cfg), d_decisions = dd_decisions dd,
       d_conn = \<lparr>cn_bytes = [], cn_script = []\<rparr>\<rparr>))))))"

text \<open>What a daemon leaves behind when its process ends.\<close>

definition left_behind :: "daemon \<Rightarrow> data_dir \<Rightarrow> data_dir" where
  "left_behind d dd = dd\<lparr>dd_evidence := sl_disk (d_log d), dd_segments := aw_disk (d_audit d),
     dd_lifecycles := d_lifecycles d, dd_decisions := d_decisions d\<rparr>"

section \<open>Starting again\<close>

text \<open>What the other directories must offer: the key in its file, and no failures.\<close>

definition host_ready :: "byte list \<Rightarrow> data_dir \<Rightarrow> bool" where
  "host_ready key dd \<longleftrightarrow> quiet (dd_keys dd) \<and> file_at (dd_keys dd) ''segment.key'' = Some key \<and> length key = 32 \<and>
     quiet (dd_state dd) \<and> dd_lifecycles_open dd \<and> dd_decisions_open dd"

lemma load_existing_key:
  "quiet d \<Longrightarrow> file_at d path = Some key \<Longrightarrow> length key = 32 \<Longrightarrow>
   load_or_create_dev c fresh path d = (Inr (software_signer c key), d)"
  by (simp add: load_or_create_dev_def bind_eff_def eff_defs key_io_def)

text \<open>Starting on an evidence directory that opens and an audit directory that holds a chain.\<close>

lemma server_new_ok:
  assumes "log_open (log_config_of c) (dd_evidence dd) = (Inr l, sl_disk l)"
    and "host_ready key dd" "chain_on_disk (co_crypto k) (co_segments k) (dd_segments dd) segs"
    and "json_text_ok (co_segments k)"
  obtains w and cfg :: detection_config and dd' where "aw_inv (co_crypto k) (co_segments k) key (dcf_audit_records_per_segment c)
       (with_max_records_per_segment (dcf_audit_records_per_segment c) w) segs" "cw_records (inner w) = []"
    "host_ready key dd'"
    "server_new k c fresh t0 dd = (Inr \<lparr>d_log = l,
      d_audit = with_max_records_per_segment (dcf_audit_records_per_segment c) w,
      d_governor = governor_new gov_config_default t0, d_drops = drop_counters_default,
      d_lifecycles = dd_lifecycles dd, d_signals = signal_engine_new (dc_signals cfg),
      d_policy = policy_engine_new (dc_policies cfg), d_decisions = dd_decisions dd,
      d_conn = \<lparr>cn_bytes = [], cn_script = []\<rparr>\<rparr>, dd')"
proof -
  obtain w where w: "writer_open (co_segments k) (dd_segments dd) ''tnt_default'' (software_signer (co_crypto k) key) = (Inr w, dd_segments dd)"
    "aw_inv (co_crypto k) (co_segments k) key (dcf_audit_records_per_segment c)
       (with_max_records_per_segment (dcf_audit_records_per_segment c) w) segs" "cw_records (inner w) = []"
    using writer_open_eq [OF assms(3,4)] by blast
  have h: "quiet (dd_keys dd)" "file_at (dd_keys dd) ''segment.key'' = Some key" "length key = 32"
    "quiet (dd_state dd)" "dd_lifecycles_open dd" "dd_decisions_open dd"
    using assms(2) by (simp_all add: host_ready_def)
  obtain cfg dc where cfg: "load_or_default (co_segments k) ''policies.json'' (dd_config dd) = (cfg, dc)"
    by (cases "load_or_default (co_segments k) ''policies.json'' (dd_config dd)")
  have new: "server_new k c fresh t0 dd = (Inr \<lparr>d_log = l,
      d_audit = with_max_records_per_segment (dcf_audit_records_per_segment c) w,
      d_governor = governor_new gov_config_default t0, d_drops = drop_counters_default,
      d_lifecycles = dd_lifecycles dd, d_signals = signal_engine_new (dc_signals cfg),
      d_policy = policy_engine_new (dc_policies cfg), d_decisions = dd_decisions dd,
      d_conn = \<lparr>cn_bytes = [], cn_script = []\<rparr>\<rparr>, dd\<lparr>dd_evidence := sl_disk l, dd_config := dc\<rparr>)"
    using w(1) h assms(1) cfg load_existing_key [OF h(1-3), of "co_crypto k" fresh]
    by (simp add: server_new_def bind_eff_def eff_defs on_evidence_def on_keys_def on_segments_def on_state_def
        load_policies_def io_create_dir_def)
  have hr: "host_ready key (dd\<lparr>dd_evidence := sl_disk l, dd_config := dc\<rparr>)"
    using assms(2) by (simp add: host_ready_def)
  show thesis by (rule that [OF w(2,3) hr new])
qed

end
