(* ===== verification/Tasks.thy ===== *)
theory Tasks
  imports Server Lifecycle_Flaky
begin

text \<open>
  The daemon's tasks at the grain of their locks.  What \<open>Ingest\<close>, \<open>Shim_Spool\<close> and \<open>Eviction_Driver\<close> model as whole
  operations is here cut where the code releases one lock and takes the next one: each task has a
  phase, and a function from a phase to the next one that does what happens under one lock.  Left
  alone, a task does what the whole operation does; the lemmas at the end of each section say so.
\<close>

section \<open>Iteration\<close>

definition iterates :: "('a \<Rightarrow> 'a) \<Rightarrow> 'a \<Rightarrow> 'a \<Rightarrow> bool" where
  "iterates f x y \<longleftrightarrow> (\<exists>n. (f ^^ n) x = y)"

lemma iterates_refl [simp]: "iterates f x x"
  unfolding iterates_def by (rule exI [of _ 0]) simp

lemma iterates_step: "f x = y \<Longrightarrow> iterates f y z \<Longrightarrow> iterates f x z"
  unfolding iterates_def by (elim exE) (rule_tac x = "Suc n" in exI, simp add: funpow_swap1)

lemma iterates_once: "f x = y \<Longrightarrow> iterates f x y"
  by (rule iterates_step [OF _ iterates_refl])

lemma iterates_trans: "iterates f x y \<Longrightarrow> iterates f y z \<Longrightarrow> iterates f x z"
  unfolding iterates_def by (elim exE) (rule_tac x = "na + n" in exI, simp add: funpow_add)

section \<open>A connection\<close>

text \<open>A connection between two frames, before it appends the payload of its event, before it commits to it,
  before it takes the engine's lock, while it holds it (with the lifecycle it has found), before it detects, records
  the signals, reads the policy, reads the level, writes the decision and answers.\<close>

datatype frame_phase =
    Reading
  | Evidence stamps bool event "byte list"
  | Commitment stamps bool event "byte list"
  | Projecting stamps bool event
  | Applying stamps bool event
  | Detecting stamps bool event "string option"
  | Recording stamps bool event "string option" "signal list" "signal_record list"
  | Judging stamps bool event "string option" "signal list" "signal_record list"
  | Building stamps bool event "string option" policy_decision "signal_record list"
  | Deciding bool decision_record
  | Answering decision_record

text \<open>A frame arrives: admission, the status request, parsing and validation.\<close>

definition frame_begin :: "codecs \<Rightarrow> stamps \<Rightarrow> byte list \<Rightarrow> daemon \<Rightarrow> frame_phase \<times> daemon" where
  "frame_begin k st f d =
     (if \<not> allows (current_level (d_governor d)) P1
      then (Reading, d\<lparr>d_drops := drop_record (length f) (st_drop_ms st) (d_drops d)\<rparr>)
      else case co_from_slice k f of
        None \<Rightarrow> (Reading, d)
      | Some raw \<Rightarrow>
          if json_flag raw ''__status__''
          then (Reading, respond k (build_status_body (st_now_ms st) d) d)
          else case co_event_of k raw of
            None \<Rightarrow> (Reading, d)
          | Some e \<Rightarrow>
              (case validate e of
                 Inl v \<Rightarrow> (Reading, d)
               | Inr u \<Rightarrow>
                   let e = e\<lparr>received_at := rfc3339 (st_received_secs st) (st_received_micros st)\<rparr>
                   in (Evidence st (json_flag raw ''__evaluate__'') e (co_to_vec k (co_event_to k e)), d)))"

text \<open>The lifecycle an event ends up bound to, by the last phase of the engine.\<close>

fun bound_to :: "apply_phase \<Rightarrow> string option" where
  "bound_to (Holding e now i tier lc) = Some i"
| "bound_to (Binding e i) = Some i"
| "bound_to _ = None"

text \<open>What follows under the next lock.  \<open>apply_phase\<close> is what the holder of \<open>apply_lock\<close> does; a connection that
  finds the lock taken waits.\<close>

fun conn_next :: "codecs \<Rightarrow> frame_phase \<times> apply_phase \<times> daemon \<Rightarrow> frame_phase \<times> apply_phase \<times> daemon" where
  "conn_next k (Reading, a, d) = (Reading, a, d)"
| "conn_next k (Evidence st w e p, a, d) = (case on_log (log_append p) d of
      (Inl x, d) \<Rightarrow> (Reading, a, d) | (Inr r, d) \<Rightarrow> (Commitment st w e p, a, d))"
| "conn_next k (Commitment st w e p, a, d) =
     (case on_audit (observe (co_crypto k) (co_segments k) (st_audit_us st) ''event'' p) d of
      (Inl x, d) \<Rightarrow> (Reading, a, d) | (Inr u, d) \<Rightarrow> (Projecting st w e, a, d))"
| "conn_next k (Projecting st w e, a, d) =
     (if a = Idle then (Applying st w e, apply_begin sql_ops e (st_apply_ms st) (d_lifecycles d), d) else (Projecting st w e, a, d))"
| "conn_next k (Applying st w e, a, d) =
     (let (b, s) = apply_next sql_ops a (d_lifecycles d) in
      (if b = Idle then Detecting st w e (bound_to a) else Applying st w e, b, d\<lparr>d_lifecycles := s\<rparr>))"
| "conn_next k (Detecting st w e lc, a, d) =
     (let (signals, se) = evaluate_signals e (st_signal_ms st) (d_signals d) in
      (Recording st w e lc signals [], a, d\<lparr>d_signals := se\<rparr>))"
| "conn_next k (Recording st w e lc ss rs, a, d) = (case drop (length rs) ss of
      [] \<Rightarrow> (Judging st w e lc ss rs, a, d)
    | s # _ \<Rightarrow>
        let r = record_from_signal (st_signal_ulid st (length rs)) s (tenant_id e) (event_id e) lc (st_now_ms st) tracker_version
        in (Recording st w e lc ss (rs @ [r]), a, d\<lparr>d_decisions := snd (write_signal r (d_decisions d))\<rparr>))"
| "conn_next k (Judging st w e lc ss rs, a, d) = (Building st w e lc (policy_evaluate (d_policy d) ss) rs, a, d)"
| "conn_next k (Building st w e lc policy rs, a, d) =
     (Deciding w (decision_build (st_decision_ulid st) (tenant_id e)
        \<lparr>ds_lifecycle_id = lc, ds_event_id = event_id e, ds_operation_id = Option.bind (operation e) operation_id\<rparr>
        policy rs (st_now_ms st) (level_str (current_level (d_governor d))) (st_latency_us st)), a, d)"
| "conn_next k (Deciding w decision, a, d) =
     (if w then Answering decision else Reading, a,
      d\<lparr>d_decisions := snd (write_decision (co_decisions k) decision (d_decisions d))\<rparr>)"
| "conn_next k (Answering decision, a, d) = (Reading, a, respond k (decision_response decision) d)"

text \<open>Left alone, a connection does what \<open>ingest_one\<close> says.\<close>

lemmas conn_step = iterates_step [where f = "conn_next k"] for k

lemma engine_alone:
  "iterates (conn_next k) (Projecting st w e, Idle, d)
     (Detecting st w e (outcome_lifecycle (fst (apply_event sql_ops e (st_apply_ms st) (d_lifecycles d)))), Idle,
      d\<lparr>d_lifecycles := snd (apply_event sql_ops e (st_apply_ms st) (d_lifecycles d))\<rparr>)"
proof -
  let ?now = "st_apply_ms st" and ?s = "d_lifecycles d"
  have 1: "conn_next k (Projecting st w e, Idle, d) = (Applying st w e, Correlated e ?now (correlate sql_ops ?s e), d)"
    by (simp add: apply_begin_def)
  show ?thesis
  proof (cases "correlate sql_ops ?s e")
    case (Match i tier)
    show ?thesis
    proof (cases "st_get sql_ops ?s i")
      case None
      then show ?thesis using Match
        by (intro conn_step [OF 1] iterates_once) (simp add: apply_event_def)
    next
      case (Some lc)
      have 2: "conn_next k (Applying st w e, Correlated e ?now (correlate sql_ops ?s e), d) = (Applying st w e, Holding e ?now i tier lc, d)"
        using Match Some by simp
      show ?thesis
      proof (cases "is_closed (lc_closure lc)")
        case True
        then show ?thesis using Match Some
          by (intro conn_step [OF 1] conn_step [OF 2] iterates_once) (simp add: apply_event_def)
      next
        case False
        have 3: "conn_next k (Applying st w e, Holding e ?now i tier lc, d) = (Applying st w e, Binding (event_id e) i,
            d\<lparr>d_lifecycles := st_upsert sql_ops (updated_version lc e tier ?now) ?s\<rparr>)"
          using False by simp
        show ?thesis using Match Some False
          by (intro conn_step [OF 1] conn_step [OF 2] conn_step [OF 3] iterates_once) (simp add: apply_event_def Let_def)
      qed
    qed
  next
    case (New t r b)
    let ?lc = "created_lifecycle e t r b ?now"
    have 2: "conn_next k (Applying st w e, Correlated e ?now (correlate sql_ops ?s e), d) = (Applying st w e,
        Binding (event_id e) (lc_id ?lc), d\<lparr>d_lifecycles := st_upsert sql_ops ?lc ?s\<rparr>)"
      using New by (simp add: Let_def)
    show ?thesis using New
      by (intro conn_step [OF 1] conn_step [OF 2] iterates_once) (simp add: apply_event_def Let_def)
  next
    case NoCorr
    then show ?thesis by (intro conn_step [OF 1] iterates_once) (simp add: apply_event_def)
  qed
qed

lemma recording_alone:
  assumes "record_signals st e lc (length rs) (drop (length rs) ss) (d_decisions d) = (rs', ds)"
  shows "iterates (conn_next k) (Recording st w e lc ss rs, a, d) (Judging st w e lc ss (rs @ rs'), a, d\<lparr>d_decisions := ds\<rparr>)"
  using assms
proof (induction "drop (length rs) ss" arbitrary: rs rs' d)
  case Nil
  then show ?case by (intro iterates_once) simp
next
  case (Cons s todo)
  let ?r = "record_from_signal (st_signal_ulid st (length rs)) s (tenant_id e) (event_id e) lc (st_now_ms st) tracker_version"
  let ?d = "d\<lparr>d_decisions := snd (write_signal ?r (d_decisions d))\<rparr>"
  have todo: "drop (length (rs @ [?r])) ss = todo" using Cons.hyps(2) by (metis drop_Suc length_append_singleton list.sel(3) tl_drop)
  obtain rs1 where rs1: "record_signals st e lc (length (rs @ [?r])) todo (d_decisions ?d) = (rs1, ds)" "rs' = ?r # rs1"
    using Cons.prems by (auto simp: Cons.hyps(2) [symmetric] Let_def split: prod.splits)
  have "conn_next k (Recording st w e lc ss rs, a, d) = (Recording st w e lc ss (rs @ [?r]), a, ?d)"
    by (simp add: Cons.hyps(2) [symmetric] Let_def)
  moreover have "iterates (conn_next k) (Recording st w e lc ss (rs @ [?r]), a, ?d) (Judging st w e lc ss (rs @ rs'), a, d\<lparr>d_decisions := ds\<rparr>)"
    using Cons.hyps(1) [OF todo [symmetric], of ?d rs1] rs1 todo by simp
  ultimately show ?case by (rule iterates_step)
qed

lemma projection_alone:
  "iterates (conn_next k) (Projecting st w e, Idle, d)
     (Reading, Idle, let (decision, d) = project_event k st e d in if w then respond k (decision_response decision) d else d)"
proof -
  let ?ap = "apply_event sql_ops e (st_apply_ms st) (d_lifecycles d)"
  let ?lc = "outcome_lifecycle (fst ?ap)" and ?d1 = "d\<lparr>d_lifecycles := snd ?ap\<rparr>"
  obtain ss se where ev: "evaluate_signals e (st_signal_ms st) (d_signals d) = (ss, se)" by fastforce
  obtain rs ds where rec: "record_signals st e ?lc 0 ss (d_decisions d) = (rs, ds)" by fastforce
  let ?d2 = "?d1\<lparr>d_signals := se\<rparr>" and ?d3 = "?d1\<lparr>d_signals := se, d_decisions := ds\<rparr>"
  define policy where "policy = policy_evaluate (d_policy d) ss"
  define dec where "dec = decision_build (st_decision_ulid st) (tenant_id e)
      \<lparr>ds_lifecycle_id = ?lc, ds_event_id = event_id e, ds_operation_id = Option.bind (operation e) operation_id\<rparr>
      policy rs (st_now_ms st) (level_str (current_level (d_governor d))) (st_latency_us st)"
  let ?d4 = "?d3\<lparr>d_decisions := snd (write_decision (co_decisions k) dec ds)\<rparr>"
  have 1: "iterates (conn_next k) (Projecting st w e, Idle, d) (Detecting st w e ?lc, Idle, ?d1)" by (rule engine_alone)
  have 2: "conn_next k (Detecting st w e ?lc, Idle, ?d1) = (Recording st w e ?lc ss [], Idle, ?d2)" by (simp add: ev)
  have 3: "iterates (conn_next k) (Recording st w e ?lc ss [], Idle, ?d2) (Judging st w e ?lc ss rs, Idle, ?d3)"
    using recording_alone [of st e ?lc "[]" ss ?d2 rs ds k w Idle] rec by simp
  have 4: "conn_next k (Judging st w e ?lc ss rs, Idle, ?d3) = (Building st w e ?lc policy rs, Idle, ?d3)" by (simp add: policy_def)
  have 5: "conn_next k (Building st w e ?lc policy rs, Idle, ?d3) = (Deciding w dec, Idle, ?d3)" by (simp add: dec_def)
  have 6: "conn_next k (Deciding w dec, Idle, ?d3) = (if w then Answering dec else Reading, Idle, ?d4)" by simp
  have 7: "iterates (conn_next k) (if w then Answering dec else Reading, Idle, ?d4)
      (Reading, Idle, if w then respond k (decision_response dec) ?d4 else ?d4)"
    by (cases w) (simp_all add: iterates_once)
  have p: "project_event k st e d = (dec, ?d4)"
    by (simp add: project_event_def split_def Let_def) (simp add: ev rec policy_def [symmetric] dec_def [symmetric])
  show ?thesis unfolding p Let_def prod.case
    by (rule iterates_trans [OF 1 conn_step [OF 2 iterates_trans [OF 3 conn_step [OF 4 conn_step [OF 5 conn_step [OF 6 7]]]]]])
qed

lemma ingest_alone:
  "iterates (conn_next k) (fst (frame_begin k st f d), Idle, snd (frame_begin k st f d)) (Reading, Idle, snd (ingest_one k st f d))"
proof -
  have ev: "iterates (conn_next k) (Evidence st w e (co_to_vec k (co_event_to k e)), Idle, d) (Reading, Idle, snd (ingest_event k st w e d))" for w e
  proof -
    let ?p = "co_to_vec k (co_event_to k e)"
    obtain r1 d1 where 1: "on_log (log_append ?p) d = (r1, d1)" by fastforce
    show ?thesis
    proof (cases r1)
      case (Inl x)
      then show ?thesis using 1 by (intro iterates_once) (simp add: ingest_event_def Let_def bind_eff_def)
    next
      case (Inr rc)
      have s1: "conn_next k (Evidence st w e ?p, Idle, d) = (Commitment st w e ?p, Idle, d1)" using 1 Inr by simp
      obtain r2 d2 where 2: "on_audit (observe (co_crypto k) (co_segments k) (st_audit_us st) ''event'' ?p) d1 = (r2, d2)" by fastforce
      show ?thesis
      proof (cases r2)
        case (Inl x)
        then show ?thesis using 1 2 Inr
          by (intro conn_step [OF s1] iterates_once) (simp add: ingest_event_def Let_def bind_eff_def)
      next
        case (Inr u)
        have s2: "conn_next k (Commitment st w e ?p, Idle, d1) = (Projecting st w e, Idle, d2)" using 2 Inr by simp
        have "snd (ingest_event k st w e d) =
            (let (decision, d) = project_event k st e d2 in if w then respond k (decision_response decision) d else d)"
          using 1 2 Inr \<open>r1 = Inr rc\<close> by (simp add: ingest_event_def Let_def bind_eff_def split: prod.split)
        then show ?thesis using projection_alone [of k st w e d2] by (intro conn_step [OF s1] conn_step [OF s2]) simp
      qed
    qed
  qed
  show ?thesis unfolding frame_begin_def ingest_one_def
    using ev by (auto simp: Let_def split: option.split sum.split)
qed

section \<open>The coverage gap\<close>

text \<open>The gap emitter before it appends a gap and before it commits to it, with the time of the commitment.  It
  commits to a gap that the log has refused as well.\<close>

datatype gap_phase =
    NoGap
  | GapAppend i64 "byte list"
  | GapObserve i64 "byte list"

definition gap_begin :: "codecs \<Rightarrow> u64 \<Rightarrow> i64 \<Rightarrow> daemon \<Rightarrow> gap_phase \<times> daemon" where
  "gap_begin k now us d = (case drop_take (d_drops d) of (s, c) \<Rightarrow>
     (case s of None \<Rightarrow> NoGap | Some summary \<Rightarrow> GapAppend us (co_to_vec k (coverage_gap_json summary now)), d\<lparr>d_drops := c\<rparr>))"

fun gap_next :: "codecs \<Rightarrow> gap_phase \<times> daemon \<Rightarrow> gap_phase \<times> daemon" where
  "gap_next k (NoGap, d) = (NoGap, d)"
| "gap_next k (GapAppend us p, d) = (GapObserve us p, snd (on_log (log_append p) d))"
| "gap_next k (GapObserve us p, d) =
     (NoGap, snd (on_audit (observe (co_crypto k) (co_segments k) us ''coverage_gap'' p) d))"

lemma gap_alone: "iterates (gap_next k) (gap_begin k now us d) (NoGap, emit_coverage_gap k now us d)"
proof (cases "fst (drop_take (d_drops d))")
  case None
  then show ?thesis by (simp add: gap_begin_def emit_coverage_gap_def split_def)
next
  case (Some summary)
  let ?p = "co_to_vec k (coverage_gap_json summary now)" and ?d = "d\<lparr>d_drops := snd (drop_take (d_drops d))\<rparr>"
  have 1: "gap_next k (gap_begin k now us d) = (GapObserve us ?p, snd (on_log (log_append ?p) ?d))"
    using Some by (simp add: gap_begin_def split_def)
  show ?thesis using Some
    by (intro iterates_step [where f = "gap_next k", OF 1] iterates_once) (simp add: emit_coverage_gap_def split_def Let_def)
qed

text \<open>The watcher of the pressure level wakes up.\<close>

definition watch_begin :: "codecs \<Rightarrow> u64 \<Rightarrow> i64 \<Rightarrow> bool \<times> daemon \<Rightarrow> bool \<times> gap_phase \<times> daemon" where
  "watch_begin k now us = (\<lambda>(was_l4, d).
     let is_l4 = current_level (d_governor d) = L4SafeMode in
     (is_l4, if was_l4 \<and> \<not> is_l4 then gap_begin k now us d else (NoGap, d)))"

lemma watch_alone:
  "fst (watch_begin k now us (was, d)) = fst (watch_pressure k now us (was, d)) \<and>
   iterates (gap_next k) (snd (watch_begin k now us (was, d))) (NoGap, snd (watch_pressure k now us (was, d)))"
  using gap_alone [of k now us d] by (simp add: watch_begin_def watch_pressure_def Let_def)

section \<open>The spool collector\<close>

text \<open>Between two files (those to come, what is ingested so far), between two lines of a file, and between the append
  and the commitment of a record.\<close>

datatype drain_phase =
    Files loss_clock "string list" nat
  | Lines loss_clock string "(nat \<times> byte list) list" nat "string list" nat
  | LossObserve i64 "byte list" loss_clock string "(nat \<times> byte list) list" nat "string list" nat

definition drain_begin :: "loss_clock \<Rightarrow> spool \<Rightarrow> drain_phase \<times> spool" where
  "drain_begin clk sp =
     (if \<not> sp_present sp then (Files clk [] 0, sp)
      else case io_read_dir (sp_disk sp) of
        (Inl e, dk) \<Rightarrow> (Files clk [] 0, sp\<lparr>sp_disk := dk\<rparr>)
      | (Inr names, dk) \<Rightarrow> (Files clk names 0, sp\<lparr>sp_disk := dk\<rparr>))"

fun drain_next :: "codecs \<Rightarrow> drain_phase \<times> spool \<times> daemon \<Rightarrow> drain_phase \<times> spool \<times> daemon" where
  "drain_next k (Files clk [] i, sp, d) = (Files clk [] i, sp, d)"
| "drain_next k (Files clk (x # xs) i, sp, d) = (case is_file x (sp_disk sp) of (b, dk) \<Rightarrow>
     if \<not> b \<or> extension x \<noteq> Some ''jsonl'' then (Files clk xs i, sp\<lparr>sp_disk := dk\<rparr>, d)
     else (case io_read x dk of
        (Inl e, dk) \<Rightarrow> (Files clk xs i, sp\<lparr>sp_disk := dk\<rparr>, d)
      | (Inr content, dk) \<Rightarrow>
          (if utf8_ok content then Lines clk x (enumerate 0 (text_lines content)) 0 xs i else Files clk xs i,
           sp\<lparr>sp_disk := dk\<rparr>, d)))"
| "drain_next k (Lines clk x [] n xs i, sp, d) = (Files clk xs (i + n), sp\<lparr>sp_disk := snd (io_remove x (sp_disk sp))\<rparr>, d)"
| "drain_next k (Lines clk x ((j, raw) # ls) n xs i, sp, d) = (case line_record k raw of
      None \<Rightarrow> (Lines clk x ls n xs i, sp, d)
    | Some r \<Rightarrow>
        let p = co_to_vec k (loss_payload r (fst (clk x j))) in
        (case on_log (log_append p) d of
           (Inl e, d) \<Rightarrow> (Files clk xs i, sp, d)
         | (Inr rc, d) \<Rightarrow> (LossObserve (snd (clk x j)) p clk x ls n xs i, sp, d)))"
| "drain_next k (LossObserve us p clk x ls n xs i, sp, d) =
     (case on_audit (observe (co_crypto k) (co_segments k) us ''coverage_gap'' p) d of
        (Inl e, d) \<Rightarrow> (Files clk xs i, sp, d)
      | (Inr u, d) \<Rightarrow> (Lines clk x ls (Suc n) xs i, sp, d))"

lemmas drain_step = iterates_step [where f = "drain_next k"] for k

lemma lines_alone:
  "iterates (drain_next k) (Lines clk x ls n xs i, sp, d)
     (case for_each (ingest_line k (clk x)) ls n d of
        (Inl e, d') \<Rightarrow> (Files clk xs i, sp, d')
      | (Inr n', d') \<Rightarrow> (Files clk xs (i + n'), sp\<lparr>sp_disk := snd (io_remove x (sp_disk sp))\<rparr>, d'))"
proof (induction ls arbitrary: n d)
  case Nil
  show ?case by (rule iterates_once) (simp add: return_eff_def)
next
  case (Cons l ls)
  obtain j raw where l: "l = (j, raw)" by fastforce
  show ?case
  proof (cases "line_record k raw")
    case None
    have "drain_next k (Lines clk x (l # ls) n xs i, sp, d) = (Lines clk x ls n xs i, sp, d)" using None by (simp add: l)
    moreover have "for_each (ingest_line k (clk x)) (l # ls) n d = for_each (ingest_line k (clk x)) ls n d"
      using None unfolding for_each_Cons by (simp add: l ingest_line_skip)
    ultimately show ?thesis using Cons.IH [of n d] by (simp only:) (rule drain_step)
  next
    case (Some r)
    let ?p = "co_to_vec k (loss_payload r (fst (clk x j)))" and ?us = "snd (clk x j)"
    obtain r1 d1 where 1: "on_log (log_append ?p) d = (r1, d1)" by fastforce
    have line: "ingest_line k (clk x) l n d = (case commit k ?us ''coverage_gap'' ?p d of
        (Inl e, d') \<Rightarrow> (Inl e, d') | (Inr u, d') \<Rightarrow> (Inr (Suc n), d'))"
      unfolding l by (rule ingest_line_record [OF Some])
    show ?thesis
    proof (cases r1)
      case (Inl e)
      then have "for_each (ingest_line k (clk x)) (l # ls) n d = (Inl e, d1)"
        using 1 unfolding for_each_Cons line by (simp add: commit_def bind_eff_def)
      moreover have "drain_next k (Lines clk x (l # ls) n xs i, sp, d) = (Files clk xs i, sp, d1)"
        using Some 1 Inl by (simp add: l Let_def)
      ultimately show ?thesis by (simp add: iterates_once)
    next
      case (Inr rc)
      have s1: "drain_next k (Lines clk x (l # ls) n xs i, sp, d) = (LossObserve ?us ?p clk x ls n xs i, sp, d1)"
        using Some 1 Inr by (simp add: l Let_def)
      obtain r2 d2 where 2: "on_audit (observe (co_crypto k) (co_segments k) ?us ''coverage_gap'' ?p) d1 = (r2, d2)" by fastforce
      have c: "commit k ?us ''coverage_gap'' ?p d = (r2, d2)" using 1 2 Inr by (simp add: commit_def bind_eff_def)
      show ?thesis
      proof (cases r2)
        case (Inl e)
        then have "for_each (ingest_line k (clk x)) (l # ls) n d = (Inl e, d2)"
          unfolding for_each_Cons line c by simp
        moreover have "drain_next k (LossObserve ?us ?p clk x ls n xs i, sp, d1) = (Files clk xs i, sp, d2)" using 2 Inl by simp
        ultimately show ?thesis by (intro drain_step [OF s1]) (simp add: iterates_once)
      next
        case (Inr u)
        then have "for_each (ingest_line k (clk x)) (l # ls) n d = for_each (ingest_line k (clk x)) ls (Suc n) d2"
          unfolding for_each_Cons line c by simp
        moreover have "drain_next k (LossObserve ?us ?p clk x ls n xs i, sp, d1) = (Lines clk x ls (Suc n) xs i, sp, d2)" using 2 Inr by simp
        ultimately show ?thesis using Cons.IH [of "Suc n" d2] by (intro drain_step [OF s1]) (simp only:, rule drain_step)
      qed
    qed
  qed
qed

lemma files_alone:
  "iterates (drain_next k) (Files clk xs i, sp, d)
     (case fold (drain_file k clk) xs (i, sp, d) of (i', sp', d') \<Rightarrow> (Files clk [] i', sp', d'))"
proof (induction xs arbitrary: i sp d)
  case Nil
  show ?case by (simp add: iterates_refl)
next
  case (Cons x xs)
  obtain b dk where b: "is_file x (sp_disk sp) = (b, dk)" by fastforce
  have go: "iterates (drain_next k) (Files clk (x # xs) i, sp, d)
      (case fold (drain_file k clk) (x # xs) (i, sp, d) of (i', sp', d') \<Rightarrow> (Files clk [] i', sp', d'))"
    if "iterates (drain_next k) (Files clk (x # xs) i, sp, d) (Files clk xs i1, sp1, d1)"
      "drain_file k clk x (i, sp, d) = (i1, sp1, d1)" for i1 sp1 d1
    using iterates_trans [OF that(1) Cons.IH [of i1 sp1 d1]] that(2) by simp
  show ?case
  proof (cases "\<not> b \<or> extension x \<noteq> Some ''jsonl''")
    case True
    then show ?thesis using b by (intro go) (auto intro!: iterates_once simp: drain_file_def Let_def)
  next
    case False
    obtain r dk1 where r: "io_read x dk = (r, dk1)" by fastforce
    let ?sp = "sp\<lparr>sp_disk := dk1\<rparr>"
    show ?thesis
    proof (cases r)
      case (Inl e)
      then show ?thesis using b r False by (intro go) (auto intro!: iterates_once simp: drain_file_def ingest_file_def Let_def)
    next
      case (Inr content)
      show ?thesis
      proof (cases "utf8_ok content")
        case no: False
        then show ?thesis using b r False Inr
          by (intro go) (auto intro!: iterates_once simp: drain_file_def ingest_file_def Let_def)
      next
        case True
        let ?ls = "enumerate 0 (text_lines content)"
        have s: "drain_next k (Files clk (x # xs) i, sp, d) = (Lines clk x ?ls 0 xs i, ?sp, d)" using b r False Inr True by simp
        obtain q d1 where q: "for_each (ingest_line k (clk x)) ?ls 0 d = (q, d1)" by fastforce
        show ?thesis
          using drain_step [OF s lines_alone] b r False Inr True q
          by (cases q; intro go) (auto simp: drain_file_def ingest_file_def Let_def)
      qed
    qed
  qed
qed

lemma drain_alone:
  "iterates (drain_next k) (fst (drain_begin clk sp), snd (drain_begin clk sp), d)
     (case drain k clk sp d of (i, sp', d') \<Rightarrow> (Files clk [] i, sp', d'))"
proof (cases "io_read_dir (sp_disk sp)")
  case (Pair r dk)
  then show ?thesis
    using files_alone [of k clk "case r of Inl e \<Rightarrow> [] | Inr names \<Rightarrow> names" 0 "sp\<lparr>sp_disk := dk\<rparr>" d]
    by (cases r) (simp_all add: drain_begin_def drain_def)
qed

section \<open>The eviction driver\<close>

text \<open>Before an eviction and before the look at the fill after one, with the evictions the pass may still make.\<close>

datatype evict_phase = NoPass | Evicting nat | Weighing nat

definition evict_begin :: "eviction_config \<Rightarrow> slog \<Rightarrow> evict_phase" where
  "evict_begin c l = (if flt_lt (fill_pct l) (high_water_pct c) then NoPass else Evicting (max_evictions_per_tick c))"

fun evict_next :: "eviction_config \<Rightarrow> evict_phase \<times> slog \<Rightarrow> evict_phase \<times> slog" where
  "evict_next c (NoPass, l) = (NoPass, l)"
| "evict_next c (Evicting 0, l) = (NoPass, l)"
| "evict_next c (Evicting (Suc n), l) = (case evict_oldest_closed l of
      (Inr (Some i), l') \<Rightarrow> (Weighing n, l') | (Inr None, l') \<Rightarrow> (NoPass, l') | (Inl e, l') \<Rightarrow> (NoPass, l'))"
| "evict_next c (Weighing n, l) = (if flt_lt (fill_pct l) (low_water_pct c) then NoPass else Evicting n, l)"

lemma eviction_loop_alone:
  "iterates (evict_next c) (Evicting n, l) (NoPass, snd (eviction_loop c initial n count l))"
proof (induction n arbitrary: count l)
  case 0
  show ?case by (rule iterates_once) simp
next
  case (Suc n)
  obtain r l' where r: "evict_oldest_closed l = (r, l')" by fastforce
  show ?case
  proof (cases r)
    case (Inl e)
    then show ?thesis using r by (intro iterates_once) simp
  next
    case (Inr o')
    show ?thesis
    proof (cases o')
      case None
      then show ?thesis using r Inr by (intro iterates_once) simp
    next
      case (Some i)
      have s: "evict_next c (Evicting (Suc n), l) = (Weighing n, l')" using r Inr Some by simp
      show ?thesis
      proof (cases "flt_lt (fill_pct l') (low_water_pct c)")
        case True
        then show ?thesis using r Inr Some by (intro iterates_step [where f = "evict_next c", OF s] iterates_once) simp
      next
        case False
        then have t: "evict_next c (Weighing n, l') = (Evicting n, l')" by simp
        show ?thesis using iterates_step [where f = "evict_next c", OF s iterates_step [where f = "evict_next c", OF t Suc.IH]] r Inr Some False
          by simp
      qed
    qed
  qed
qed

lemma pass_alone: "iterates (evict_next c) (evict_begin c l, l) (NoPass, snd (run_once c l))"
  using eviction_loop_alone by (simp add: evict_begin_def run_once_def Let_def)

section \<open>Shutdown\<close>

text \<open>The server serves, emits the last gap while its tasks still run, has aborted them, has flushed the audit chain, and
  has returned.  \<open>borrowed\<close>: a task or a connection still holds the log.\<close>

datatype stop_phase =
    Serving
  | LastGap gap_phase
  | Flushing
  | Unwrapping
  | Stopped "(shutdown_error, unit) result"

definition stop_begin :: "codecs \<Rightarrow> u64 \<Rightarrow> i64 \<Rightarrow> daemon \<Rightarrow> stop_phase \<times> daemon" where
  "stop_begin k now us d = apfst LastGap (gap_begin k now us d)"

fun stop_next :: "codecs \<Rightarrow> bool \<Rightarrow> stop_phase \<times> daemon \<Rightarrow> stop_phase \<times> daemon" where
  "stop_next k borrowed (Serving, d) = (Serving, d)"
| "stop_next k borrowed (LastGap g, d) = (if g = NoGap then (Flushing, d) else apfst LastGap (gap_next k (g, d)))"
| "stop_next k borrowed (Flushing, d) = (Unwrapping, snd (on_audit (flush (co_segments k)) d))"
| "stop_next k borrowed (Unwrapping, d) =
     (if borrowed then (Stopped (Inl LogBorrowed), d)
      else case log_close (d_log d) of (r, l) \<Rightarrow> (Stopped (map_err ClosingLog r), d\<lparr>d_log := l\<rparr>))"
| "stop_next k borrowed (Stopped r, d) = (Stopped r, d)"

lemma stop_alone:
  "iterates (stop_next k borrowed) (stop_begin k now us d) (apfst Stopped (shutdown k now us borrowed d))"
proof -
  let ?f = "stop_next k borrowed" and ?d1 = "emit_coverage_gap k now us d"
  let ?d2 = "snd (on_audit (flush (co_segments k)) ?d1)"
  have lift: "iterates ?f (apfst LastGap x) (apfst LastGap y)" if "(gap_next k ^^ n) x = y" for n x y
    using that
  proof (induction n arbitrary: x)
    case (Suc n)
    have tail: "iterates ?f (apfst LastGap (gap_next k x)) (apfst LastGap y)"
      by (rule Suc.IH) (use Suc.prems in \<open>simp add: funpow_swap1\<close>)
    show ?case
    proof (cases "fst x = NoGap")
      case True
      then have "gap_next k x = x" by (cases x) simp
      with tail show ?thesis by simp
    next
      case False
      then show ?thesis by (cases x) (intro iterates_step [where f = ?f, OF _ tail]; simp)
    qed
  qed simp
  obtain n where "(gap_next k ^^ n) (gap_begin k now us d) = (NoGap, ?d1)"
    using gap_alone [of k now us d] unfolding iterates_def by blast
  from lift [OF this] have 1: "iterates ?f (stop_begin k now us d) (LastGap NoGap, ?d1)" by (simp add: stop_begin_def)
  have 2: "iterates ?f (LastGap NoGap, ?d1) (apfst Stopped (shutdown k now us borrowed d))"
  proof (rule iterates_step [where f = ?f and y = "(Flushing, ?d1)"])
    show "iterates ?f (Flushing, ?d1) (apfst Stopped (shutdown k now us borrowed d))"
      by (rule iterates_step [where f = ?f and y = "(Unwrapping, ?d2)"], simp, rule iterates_once)
        (simp add: shutdown_def Let_def split: prod.split)
  qed simp
  show ?thesis by (rule iterates_trans [OF 1 2])
qed

end
