(* ===== verification/System.thy ===== *)
theory System
  imports Tasks "HOL-Library.Multiset"
begin

text \<open>
  The daemon as a running system: the tasks of \<open>Tasks\<close> step by step, in any order, any number of connections among
  them, with shutdowns, kills and new starts in between.  A step is what one task does under one lock.  The daemon starts on
  empty directories whose I/O does not fail (the theories of the parts treat the failures); the databases may refuse
  any statement and any query, the spool directory may fail.  A run counts its steps, each of which numbers at most one record of the evidence and
  one of the audit trail, and what is lost when a process ends or a task is aborted.
\<close>

section \<open>First start and crash\<close>

definition empty_dir :: data_dir where
  "empty_dir = \<lparr>dd_evidence = disk_of [], dd_keys = disk_of [], dd_segments = disk_of [], dd_config = disk_of [],
     dd_state = disk_of [], dd_lifecycles = sql_open_in_memory, dd_lifecycles_open = True,
     dd_decisions = dec_open_in_memory, dd_decisions_open = True\<rparr>"

text \<open>A process that ends, killed or after its shutdown, leaves the directories as they are and loses everything in
  memory; this is what the next one makes of them.\<close>

definition crash :: "codecs \<Rightarrow> daemon_config \<Rightarrow> byte list \<Rightarrow> instant \<Rightarrow> daemon \<Rightarrow> data_dir \<Rightarrow>
    (startup_error, daemon) result \<times> data_dir" where
  "crash k c fresh t0 d dd = server_new k c fresh t0 (left_behind d dd)"

lemma log_open_empty: "log_open c (disk_of []) = (Inr (slog_new c (disk_of [])), disk_of [])"
  by (simp add: log_open_def bind_eff_def eff_defs on_disk_def on_disk_as_def io_create_dir_def io_call_def
      io_read_dir_def slog_new_def disk_of_def)

lemma first_start:
  assumes "crypto_ok (co_crypto k)" "json_text_ok (co_segments k)" "length fresh = 32"
    and "dcf_max_record_bytes c < 2 ^ 32" "n < 2 ^ 64 - 2"
  shows "\<exists>d dd. server_new k c fresh t0 empty_dir = (Inr d, dd) \<and> host_ready fresh dd \<and>
    logs_ok k fresh (dcf_audit_records_per_segment c) n d [] ([], []) \<and>
    d_log d = slog_new (log_config_of c) (disk_of []) \<and> d_governor d = governor_new gov_config_default t0"
proof -
  let ?m = "dcf_audit_records_per_segment c" and ?tn = "''tnt_default''"
  have "chain_on_disk (co_crypto k) (co_segments k) (disk_of []) []"
    by (simp add: chain_on_disk_def files_ok_def disk_of_def quiet_def file_at_def)
  then obtain w where w: "writer_open (co_segments k) (disk_of []) ?tn (software_signer (co_crypto k) fresh) = (Inr w, disk_of [])"
    "aw_inv (co_crypto k) (co_segments k) fresh ?m (with_max_records_per_segment ?m w) []" "cw_records (inner w) = []"
    using writer_open_eq [OF _ assms(2)] by blast
  obtain cfg dc where cfg: "load_or_default (co_segments k) ''policies.json'' (disk_of []) = (cfg, dc)"
    by (cases "load_or_default (co_segments k) ''policies.json'' (disk_of [])")
  have io: "io_call (disk_of []) = (Inr (), disk_of [])" by (simp add: io_call_def disk_of_def)
  let ?dk = "\<lparr>files = [(''segment.key'', fresh)], script = []\<rparr>"
  have key: "load_or_create_dev (co_crypto k) fresh ''segment.key'' (disk_of []) =
      (Inr (software_signer (co_crypto k) fresh), ?dk)"
    by (simp add: load_or_create_dev_def bind_eff_def eff_defs key_io_def io_create_dir_def io_call_def io_create_def
        io_write_def append_bytes_def disk_of_def file_at_def)
  let ?d = "\<lparr>d_log = slog_new (log_config_of c) (disk_of []), d_audit = with_max_records_per_segment ?m w,
      d_governor = governor_new gov_config_default t0, d_drops = drop_counters_default,
      d_lifecycles = sql_open_in_memory, d_signals = signal_engine_new (dc_signals cfg),
      d_policy = policy_engine_new (dc_policies cfg), d_decisions = dec_open_in_memory,
      d_conn = \<lparr>cn_bytes = [], cn_script = []\<rparr>\<rparr>"
  let ?dd = "empty_dir\<lparr>dd_keys := ?dk, dd_config := dc\<rparr>"
  have "server_new k c fresh t0 empty_dir = (Inr ?d, ?dd)"
    using w(1) key cfg log_open_empty [of "log_config_of c"]
    by (simp add: server_new_def empty_dir_def bind_eff_def eff_defs on_evidence_def on_keys_def on_segments_def on_state_def
        load_policies_def io_create_dir_def io)
  moreover have "host_ready fresh ?dd"
    using assms(3) by (simp add: host_ready_def empty_dir_def quiet_def file_at_def disk_of_def)
  moreover have "logs_ok k fresh ?m n ?d [] ([], [])"
    using w(2,3) assms(4,5) log_inv_new [of "log_config_of c"]
    by (simp add: logs_ok_def slog_new_def log_config_of_def trail_def refines_def with_max_records_per_segment_def)
  ultimately show ?thesis by (intro exI [of _ ?d] exI [of _ ?dd]) simp
qed

text \<open>What a crash leaves of the evidence: the payloads of the closed segments, a prefix.\<close>

lemma crash_payloads:
  assumes i: "log_inv l" and h: "highest_ok h (map fst (recovered_files l))"
  shows "prefix (log_payloads (reopened c l h)) (log_payloads l)"
proof (cases "sl_active l")
  case None
  then show ?thesis using log_payloads_reopened [OF i h] by simp
next
  case (Some act)
  let ?r = "reopened c l h"
  let ?f = "\<lambda>k. seg_payloads (sl_disk l) (of_nat k)" and ?g = "\<lambda>k. seg_payloads (sl_disk ?r) (of_nat k)"
  have act: "active_ok l act" using log_inv_active [OF i Some] .
  have a: "a_id act < next_seg_id l" "next_seg_id l = a_id act + 1" using act by (auto simp: active_ok_def)
  have "a_id act \<noteq> - 1" using a(1) by (auto simp: word_order.extremum_strict)
  then have nx: "unat (next_seg_id l) = Suc (unat (a_id act))" unfolding a(2) by (rule less_next(3))
  have nw: "\<not> no_wip (wip_name j)" for j by (simp add: no_wip_def wip_name_def)
  have fat: "file_at (sl_disk ?r) (closed_name j) = file_at (sl_disk l) (closed_name j)"
    "file_at (sl_disk ?r) (wip_name j) = None" for j
  proof -
    show "file_at (sl_disk ?r) (closed_name j) = file_at (sl_disk l) (closed_name j)"
      using Some by (simp add: reopened_file recovered_file [OF i])
    show "file_at (sl_disk ?r) (wip_name j) = None"
      using recovered_no_wip [OF i, of "wip_name j"] nw [of j] unfolding reopened_file
      by (cases "map_of (recovered_files l) (wip_name j)") blast+
  qed
  have small: "unat (of_nat n :: u64) = n" if "n < unat (next_seg_id l)" for n
    using that unat_u64_less [of "next_seg_id l"] by (intro unat_of_nat_u64) simp
  have cut: "?g n = []" if "unat (next_seg_id ?r) \<le> n" "n < unat (next_seg_id l)" for n
  proof -
    have "\<not> of_nat n < next_seg_id ?r" using that small [of n] by (simp add: word_less_nat_alt)
    then have "file_at (sl_disk ?r) (closed_name (of_nat n)) = None"
      using reopened_next [OF i h, of "closed_name (of_nat n)"] unfolding reopened_file
      by (cases "map_of (recovered_files l) (closed_name (of_nat n))") auto
    then show ?thesis by (simp add: seg_payloads_def seg_bytes_def fat)
  qed
  have "?g n = ?f n" if "n < unat (a_id act)" for n
  proof -
    have "of_nat n \<noteq> a_id act" using small [of n] that nx by auto
    then have "file_at (sl_disk l) (wip_name (of_nat n)) = None"
      using log_inv_wip [OF i, of "of_nat n"] Some by (metis option.sel)
    then show ?thesis by (simp add: seg_payloads_def seg_bytes_def fat split: option.split)
  qed
  then have same: "concat (map ?g [0..<unat (a_id act)]) = concat (map ?f [0..<unat (a_id act)])"
    by (intro arg_cong [of _ _ concat] map_cong) simp_all
  have last: "?g (unat (a_id act)) = []" using act by (simp add: seg_payloads_def seg_bytes_def fat active_ok_def)
  have "log_payloads ?r = concat (map ?g [0..<unat (next_seg_id l)])"
    unfolding log_payloads_def using cut reopened_next_le [OF i h, of c]
    by (intro concat_cut [symmetric]) (auto simp: word_le_nat_alt)
  also have "\<dots> = concat (map ?f [0..<unat (a_id act)])" using same last by (simp add: nx)
  finally show ?thesis by (simp add: log_payloads_def nx)
qed

text \<open>A shutdown that finds the log borrowed is an orderly one for the audit chain and a crash for the
  evidence: the next start moves the active segment into quarantine, where no reader looks.\<close>

lemma active_closed_file: "log_inv l \<Longrightarrow> sl_active l = Some act \<Longrightarrow> file_at (sl_disk l) (closed_name (a_id act)) = None"
  using log_inv_active [of l act] by (simp add: active_ok_def)

lemma borrowed_shutdown_quarantines:
  assumes i: "log_inv (d_log d)" and act: "sl_active (d_log d) = Some act" and none: "fst (drop_take (d_drops d)) = None"
  shows "\<exists>d' l'. shutdown k now us True d = (Inl LogBorrowed, d') \<and> log_open c (sl_disk (d_log d')) = (Inr l', sl_disk l') \<and>
    file_at (sl_disk l') (quar_name (a_id act)) = file_at (sl_disk (d_log d)) (wip_name (a_id act)) \<and>
    seg_payloads (sl_disk l') (a_id act) = []"
proof -
  obtain d' where d': "shutdown k now us True d = (Inl LogBorrowed, d')" "d_log d' = d_log d"
    using none by (cases "drop_take (d_drops d)") (simp add: shutdown_def emit_coverage_gap_def Let_def on_audit_def split_def)
  obtain h where h: "log_open c (sl_disk (d_log d)) = (Inr (reopened c (d_log d) h), sl_disk (reopened c (d_log d) h))"
    using log_open_eq [OF i] by blast
  have "file_at (sl_disk (reopened c (d_log d) h)) (closed_name (a_id act)) = None"
    using active_closed_file [OF i act] act by (simp add: reopened_file recovered_file [OF i])
  moreover have "file_at (sl_disk (reopened c (d_log d) h)) (wip_name (a_id act)) = None"
    "file_at (sl_disk (reopened c (d_log d) h)) (quar_name (a_id act)) = file_at (sl_disk (d_log d)) (wip_name (a_id act))"
    using act by (simp_all add: reopened_file recovered_file [OF i])
  ultimately show ?thesis using d' h by (simp add: seg_payloads_def seg_bytes_def)
qed

lemma crash_logs:
  assumes ok: "logs_ok k key (dcf_audit_records_per_segment c) n d segs a" and k: "json_text_ok (co_segments k)"
    and h: "host_ready key dd" and c: "dcf_max_record_bytes c < 2 ^ 32"
  shows "\<exists>d' dd'. crash k c fresh t0 d dd = (Inr d', dd') \<and> host_ready key dd' \<and>
    logs_ok k key (dcf_audit_records_per_segment c) n d' segs (fst a, []) \<and>
    prefix (log_payloads (d_log d')) (log_payloads (d_log d)) \<and>
    d_lifecycles d' = d_lifecycles d \<and> d_decisions d' = d_decisions d"
proof -
  let ?m = "dcf_audit_records_per_segment c" and ?dd = "left_behind d dd"
  have i: "log_inv (d_log d)" and ch: "chain_on_disk (co_crypto k) (co_segments k) (aw_disk (d_audit d)) segs"
    and nid: "unat (next_seg_id (d_log d)) + n < 2 ^ 64 - 1" and len: "length (trail a) + n < 2 ^ 64 - 2"
    and rf: "refines (co_crypto k) a (d_audit d) segs"
    using ok by (simp_all add: logs_ok_def aw_inv_def)
  obtain h where op: "log_open (log_config_of c) (sl_disk (d_log d)) =
      (Inr (reopened (log_config_of c) (d_log d) h), sl_disk (reopened (log_config_of c) (d_log d) h))"
    and hi: "highest_ok h (map fst (recovered_files (d_log d)))"
    using log_open_eq [OF i] by blast
  let ?l = "reopened (log_config_of c) (d_log d) h"
  have dd: "log_open (log_config_of c) (dd_evidence ?dd) = (Inr ?l, sl_disk ?l)"
    "chain_on_disk (co_crypto k) (co_segments k) (dd_segments ?dd) segs" "host_ready key ?dd"
    "dd_lifecycles ?dd = d_lifecycles d" "dd_decisions ?dd = d_decisions d"
    using op ch h by (simp_all add: left_behind_def host_ready_def)
  obtain w and cfg :: detection_config and dd' where n: "aw_inv (co_crypto k) (co_segments k) key ?m (with_max_records_per_segment ?m w) segs"
    "cw_records (inner w) = []" "host_ready key dd'"
    "server_new k c fresh t0 ?dd = (Inr \<lparr>d_log = ?l, d_audit = with_max_records_per_segment ?m w,
      d_governor = governor_new gov_config_default t0, d_drops = drop_counters_default,
      d_lifecycles = dd_lifecycles ?dd, d_signals = signal_engine_new (dc_signals cfg),
      d_policy = policy_engine_new (dc_policies cfg), d_decisions = dd_decisions ?dd,
      d_conn = \<lparr>cn_bytes = [], cn_script = []\<rparr>\<rparr>, dd')"
    by (rule server_new_ok [OF dd(1,3,2) k, where fresh = fresh and ?t0.0 = t0])
  let ?d' = "\<lparr>d_log = ?l, d_audit = with_max_records_per_segment ?m w,
      d_governor = governor_new gov_config_default t0, d_drops = drop_counters_default,
      d_lifecycles = dd_lifecycles ?dd, d_signals = signal_engine_new (dc_signals cfg),
      d_policy = policy_engine_new (dc_policies cfg), d_decisions = dd_decisions ?dd,
      d_conn = \<lparr>cn_bytes = [], cn_script = []\<rparr>\<rparr>"
  have "unat (next_seg_id ?l) \<le> unat (next_seg_id (d_log d))"
    using reopened_next_le [OF i hi] by (simp add: word_le_nat_alt)
  moreover have "max_record_bytes (sl_config ?l) < 2 ^ 32" using c by (simp add: reopened_def log_config_of_def)
  moreover have "refines (co_crypto k) (fst a, []) (with_max_records_per_segment ?m w) segs"
    using rf n(2) by (simp add: refines_def with_max_records_per_segment_def)
  ultimately have "logs_ok k key ?m n ?d' segs (fst a, [])"
    using n(1) nid len log_inv_reopened [OF i hi] by (simp add: logs_ok_def trail_def)
  then show ?thesis using n(3,4) dd(4,5) crash_payloads [OF i hi] unfolding crash_def
    by (intro exI [of _ ?d'] exI [of _ dd']) simp
qed

section \<open>Steps and runs\<close>

text \<open>Every connection has its writer and its phase; \<open>sy_engine\<close> is what the holder of the engine's lock does and \<open>sy_scan\<close>
  the staleness scan in progress.  The pressure watcher remembers whether the level was safe mode; the policy watcher has its own
  memory of the file; the shim writes into the spool.\<close>

record system =
  sy_daemon :: daemon
  sy_dir :: data_dir
  sy_spool :: spool
  sy_watcher :: watcher
  sy_conns :: "(conn \<times> frame_phase) list"
  sy_engine :: apply_phase
  sy_scan :: scan
  sy_was_l4 :: bool
  sy_gap :: gap_phase
  sy_drain :: drain_phase
  sy_evict :: evict_phase
  sy_stop :: stop_phase

definition drained :: "drain_phase \<Rightarrow> bool" where
  "drained p \<longleftrightarrow> (case p of Files clk xs i \<Rightarrow> xs = [] | _ \<Rightarrow> False)"

definition serving :: "daemon \<Rightarrow> data_dir \<Rightarrow> spool \<Rightarrow> system" where
  "serving d dd sp = \<lparr>sy_daemon = d, sy_dir = dd, sy_spool = sp, sy_watcher = watcher_start (d_policy d),
     sy_conns = [], sy_engine = Idle, sy_scan = None, sy_was_l4 = (current_level (d_governor d) = L4SafeMode),
     sy_gap = NoGap, sy_drain = Files (\<lambda>_ _. (0, 0)) [] 0, sy_evict = NoPass, sy_stop = Serving\<rparr>"

definition boot :: "codecs \<Rightarrow> daemon_config \<Rightarrow> byte list \<Rightarrow> instant \<Rightarrow> system option" where
  "boot k c fresh t0 = (case server_new k c fresh t0 empty_dir of
     (Inr d, dd) \<Rightarrow> Some (serving d dd \<lparr>sp_present = False, sp_disk = disk_of []\<rparr>) | (Inl e, dd) \<Rightarrow> None)"

text \<open>The payloads in flight: of the tasks that have been to the evidence log and not yet to the audit chain.\<close>

fun frame_flight :: "frame_phase \<Rightarrow> (string \<times> byte list) list" where
  "frame_flight (Commitment st w e p) = [(''event'', p)]"
| "frame_flight _ = []"

fun gap_flight :: "gap_phase \<Rightarrow> (string \<times> byte list) list" where
  "gap_flight (GapObserve us p) = [(''coverage_gap'', p)]"
| "gap_flight _ = []"

fun drain_flight :: "drain_phase \<Rightarrow> (string \<times> byte list) list" where
  "drain_flight (LossObserve us p clk x ls n xs i) = [(''coverage_gap'', p)]"
| "drain_flight _ = []"

fun stop_flight :: "stop_phase \<Rightarrow> (string \<times> byte list) list" where
  "stop_flight (LastGap g) = gap_flight g"
| "stop_flight _ = []"

definition in_flight :: "system \<Rightarrow> (string \<times> byte list) list" where
  "in_flight s = concat (map (frame_flight \<circ> snd) (sy_conns s)) @ gap_flight (sy_gap s) @ drain_flight (sy_drain s) @ stop_flight (sy_stop s)"

text \<open>The background tasks run until the last gap is out.  An aborted task ends where it waits for a lock, if
  it does not finish before.\<close>

definition running :: "system \<Rightarrow> bool" where
  "running s \<longleftrightarrow> (case sy_stop s of Serving \<Rightarrow> True | LastGap g \<Rightarrow> True | _ \<Rightarrow> False)"

text \<open>Who still holds the log.\<close>

definition log_held :: "system \<Rightarrow> bool" where
  "log_held s \<longleftrightarrow> sy_conns s \<noteq> [] \<or> sy_gap s \<noteq> NoGap \<or> \<not> drained (sy_drain s) \<or> sy_evict s \<noteq> NoPass"

text \<open>One step of one task, with the number of payloads and pending audit records it loses.  \<open>adm\<close> restricts
  the events that reach the engine.  \<^verbatim>\<open>tokio::time::interval\<close> panics on a period of zero, so a
  task with that interval ends before its first tick; only the policy watcher treats zero as a
  switch.  The spool is also drained once at the start, so its drain has no such condition.\<close>

inductive system_step :: "codecs \<Rightarrow> daemon_config \<Rightarrow> (sqlite_store \<Rightarrow> event \<Rightarrow> bool) \<Rightarrow> nat \<Rightarrow> system \<Rightarrow> system \<Rightarrow> bool" for k c adm where
  step_connect: "sy_stop s = Serving \<Longrightarrow>
    system_step k c adm 0 s (s\<lparr>sy_conns := sy_conns s @ [(\<lparr>cn_bytes = [], cn_script = scr\<rparr>, Reading)]\<rparr>)"
| step_disconnect: "sy_conns s = xs @ (cn, Reading) # ys \<Longrightarrow> system_step k c adm 0 s (s\<lparr>sy_conns := xs @ ys\<rparr>)"
| step_frame: "sy_conns s = xs @ (cn, Reading) # ys \<Longrightarrow> frame_begin k st f ((sy_daemon s)\<lparr>d_conn := cn\<rparr>) = (ph, d') \<Longrightarrow>
    system_step k c adm 0 s (s\<lparr>sy_conns := xs @ (d_conn d', ph) # ys, sy_daemon := d'\<rparr>)"
| step_conn: "sy_conns s = xs @ (cn, ph) # ys \<Longrightarrow>
    (\<And>st w e. ph = Projecting st w e \<Longrightarrow> sy_engine s = Idle \<Longrightarrow> adm (d_lifecycles (sy_daemon s)) e) \<Longrightarrow>
    conn_next k (ph, sy_engine s, (sy_daemon s)\<lparr>d_conn := cn\<rparr>) = (ph', a', d') \<Longrightarrow>
    system_step k c adm 0 s (s\<lparr>sy_conns := xs @ (d_conn d', ph') # ys, sy_engine := a', sy_daemon := d'\<rparr>)"
| step_watch: "running s \<Longrightarrow> sy_gap s = NoGap \<Longrightarrow> watch_begin k now us (sy_was_l4 s, sy_daemon s) = (b, g, d') \<Longrightarrow>
    system_step k c adm 0 s (s\<lparr>sy_was_l4 := b, sy_gap := g, sy_daemon := d'\<rparr>)"
| step_gap: "gap_next k (sy_gap s, sy_daemon s) = (g, d') \<Longrightarrow> system_step k c adm 0 s (s\<lparr>sy_gap := g, sy_daemon := d'\<rparr>)"
| step_gap_aborted: "\<not> running s \<Longrightarrow> system_step k c adm (length (gap_flight (sy_gap s))) s (s\<lparr>sy_gap := NoGap\<rparr>)"
| step_scan_begin: "running s \<Longrightarrow> dcf_staleness_scan_interval_secs c \<noteq> 0 \<Longrightarrow> sy_scan s = None \<Longrightarrow>
    system_step k c adm 0 s (s\<lparr>sy_scan := scan_begin sql_ops now (d_lifecycles (sy_daemon s))\<rparr>)"
| step_scan_call: "scan_next sql_ops (sy_scan s) (d_lifecycles (sy_daemon s)) = (sc, l) \<Longrightarrow>
    system_step k c adm 0 s (s\<lparr>sy_scan := sc, sy_daemon := (sy_daemon s)\<lparr>d_lifecycles := l\<rparr>\<rparr>)"
| step_database: "d' = (sy_daemon s)\<lparr>d_lifecycles := (d_lifecycles (sy_daemon s))\<lparr>sql_script := scr, sql_lost := qs\<rparr>,
      d_decisions := (d_decisions (sy_daemon s))\<lparr>dec_script := dscr\<rparr>\<rparr> \<Longrightarrow>
    system_step k c adm 0 s (s\<lparr>sy_daemon := d'\<rparr>)"
| step_evict_begin: "running s \<Longrightarrow> dcf_eviction_interval_secs c \<noteq> 0 \<Longrightarrow> sy_evict s = NoPass \<Longrightarrow>
    system_step k c adm 0 s (s\<lparr>sy_evict := evict_begin (eviction_of_config c) (d_log (sy_daemon s))\<rparr>)"
| step_evict: "evict_next (eviction_of_config c) (sy_evict s, d_log (sy_daemon s)) = (v, l) \<Longrightarrow>
    system_step k c adm 0 s (s\<lparr>sy_evict := v, sy_daemon := (sy_daemon s)\<lparr>d_log := l\<rparr>\<rparr>)"
| step_evict_aborted: "\<not> running s \<Longrightarrow> system_step k c adm 0 s (s\<lparr>sy_evict := NoPass\<rparr>)"
| step_govern: "d' = (sy_daemon s)\<lparr>d_governor := gov_step (d_governor (sy_daemon s)) g\<rparr> \<Longrightarrow>
    system_step k c adm 0 s (s\<lparr>sy_daemon := d'\<rparr>)"
| step_reload: "running s \<Longrightarrow> dcf_policy_reload_interval_secs c \<noteq> 0 \<Longrightarrow> w' = watcher_tick (co_segments k) ob (sy_watcher s) \<Longrightarrow>
    system_step k c adm 0 s (s\<lparr>sy_watcher := w', sy_daemon := (sy_daemon s)\<lparr>d_policy := w_engine w'\<rparr>\<rparr>)"
| step_spool: "system_step k c adm 0 s (s\<lparr>sy_spool := sp\<rparr>)"
| step_drain_begin: "running s \<Longrightarrow> drained (sy_drain s) \<Longrightarrow> drain_begin clk (sy_spool s) = (p, sp) \<Longrightarrow>
    system_step k c adm 0 s (s\<lparr>sy_drain := p, sy_spool := sp\<rparr>)"
| step_drain: "drain_next k (sy_drain s, sy_spool s, sy_daemon s) = (p, sp, d') \<Longrightarrow>
    system_step k c adm 0 s (s\<lparr>sy_drain := p, sy_spool := sp, sy_daemon := d'\<rparr>)"
| step_drain_aborted: "\<not> running s \<Longrightarrow>
    system_step k c adm (length (drain_flight (sy_drain s))) s (s\<lparr>sy_drain := Files clk [] i\<rparr>)"
| step_signal: "sy_stop s = Serving \<Longrightarrow> stop_begin k now us (sy_daemon s) = (p, d') \<Longrightarrow>
    system_step k c adm 0 s (s\<lparr>sy_stop := p, sy_daemon := d'\<rparr>)"
| step_stop: "(sy_stop s = Unwrapping \<Longrightarrow> log_held s \<Longrightarrow> borrowed) \<Longrightarrow> stop_next k borrowed (sy_stop s, sy_daemon s) = (p, d') \<Longrightarrow>
    system_step k c adm 0 s (s\<lparr>sy_stop := p, sy_daemon := d'\<rparr>)"
| step_start: "crash k c fresh t0 (sy_daemon s) (sy_dir s) = (Inr d', dd') \<Longrightarrow>
    lost = length (in_flight s) + length (cw_records (inner (d_audit (sy_daemon s)))) \<Longrightarrow>
    system_step k c adm lost s (serving d' dd' (sy_spool s))"

inductive system_run :: "codecs \<Rightarrow> daemon_config \<Rightarrow> (sqlite_store \<Rightarrow> event \<Rightarrow> bool) \<Rightarrow> nat \<Rightarrow> nat \<Rightarrow> system \<Rightarrow> system \<Rightarrow> bool" for k c adm where
  run_refl: "system_run k c adm 0 0 s s"
| run_step: "system_run k c adm n lost s s1 \<Longrightarrow> system_step k c adm l s1 s2 \<Longrightarrow> system_run k c adm (Suc n) (lost + l) s s2"

inductive_cases system_stepE: "system_step k c adm lost s s'"

lemma step_relax: "system_step k c adm lost s s' \<Longrightarrow> (\<And>l e. adm l e \<Longrightarrow> adm' l e) \<Longrightarrow> system_step k c adm' lost s s'"
proof (induction rule: system_step.induct)
  case (step_conn s xs cn ph ys ph' a' d')
  show ?case by (rule system_step.step_conn [OF step_conn.hyps(1) _ step_conn.hyps(3)]) (use step_conn in blast)
qed (assumption | rule system_step.intros)+

lemma run_relax: "system_run k c adm n lost s s' \<Longrightarrow> (\<And>l e. adm l e \<Longrightarrow> adm' l e) \<Longrightarrow> system_run k c adm' n lost s s'"
  by (induction rule: system_run.induct) (auto intro: system_run.intros step_relax)

lemma run_trans: "system_run k c adm j l2 s1 s2 \<Longrightarrow> system_run k c adm i l1 s s1 \<Longrightarrow> system_run k c adm (i + j) (l1 + l2) s s2"
proof (induction rule: system_run.induct)
  case (run_step n lost s s1 l s2)
  then show ?case using system_run.run_step [of k c adm "i + n" "l1 + lost"] by (simp add: add.assoc)
qed simp

section \<open>The account of a step\<close>

text \<open>Whatever a step adds to the evidence it takes in flight, and what it takes out of flight it commits to.  \<open>n\<close> is how
  many records can still be numbered after it.\<close>

definition keeps_account :: "codecs \<Rightarrow> byte list \<Rightarrow> u64 \<Rightarrow> nat \<Rightarrow> daemon \<Rightarrow> (string \<times> byte list) list \<Rightarrow> daemon \<Rightarrow> (string \<times> byte list) list \<Rightarrow> bool" where
  "keeps_account k key m n d w d' w' \<longleftrightarrow> (\<forall>segs a. logs_ok k key m (Suc n) d segs a \<longrightarrow>
     (\<exists>segs' a' new. logs_ok k key m n d' segs' a' \<and> trail a' = trail a @ new \<and>
        mset (log_payloads (d_log d')) + mset (map snd w) \<subseteq># mset (log_payloads (d_log d)) + mset (map snd (new @ w'))))"

lemma keeps_accountI:
  assumes "\<And>segs a. log_part (Suc n) (d_log d) \<Longrightarrow> audit_part k key m (Suc n) (d_audit d) segs a \<Longrightarrow>
     \<exists>segs' a' new. log_part n (d_log d') \<and> audit_part k key m n (d_audit d') segs' a' \<and> trail a' = trail a @ new \<and>
        mset (log_payloads (d_log d')) + mset (map snd w) \<subseteq># mset (log_payloads (d_log d)) + mset (map snd (new @ w'))"
  shows "keeps_account k key m n d w d' w'"
  using assms unfolding keeps_account_def logs_ok_parts by (metis (no_types, lifting))

lemma parts_less: "log_part (Suc n) l \<Longrightarrow> log_part n l" "audit_part k key m (Suc n) aw segs a \<Longrightarrow> audit_part k key m n aw segs a"
  by (simp_all add: log_part_def audit_part_def)

lemma account_same:
  assumes "d_log d' = d_log d" "d_audit d' = d_audit d"
  shows "keeps_account k key m n d w d' w"
proof (rule keeps_accountI)
  fix segs a
  assume "log_part (Suc n) (d_log d)" "audit_part k key m (Suc n) (d_audit d) segs a"
  then show "\<exists>segs' a' new. log_part n (d_log d') \<and> audit_part k key m n (d_audit d') segs' a' \<and> trail a' = trail a @ new \<and>
     mset (log_payloads (d_log d')) + mset (map snd w) \<subseteq># mset (log_payloads (d_log d)) + mset (map snd (new @ w))"
    using parts_less assms by (intro exI [of _ segs] exI [of _ a] exI [of _ "[]"]) simp
qed

lemma account_append:
  assumes "log_append p (d_log d) = (r, d_log d')" "d_audit d' = d_audit d"
  shows "keeps_account k key m n d [] d' (case r of Inl e \<Rightarrow> w | Inr x \<Rightarrow> [(kind, p)])"
proof (rule keeps_accountI)
  fix segs a
  assume l: "log_part (Suc n) (d_log d)" and a: "audit_part k key m (Suc n) (d_audit d) segs a"
  note ap = append_part [OF l assms(1)]
  show "\<exists>segs' a' new. log_part n (d_log d') \<and> audit_part k key m n (d_audit d') segs' a' \<and> trail a' = trail a @ new \<and>
     mset (log_payloads (d_log d')) + mset (map snd []) \<subseteq># mset (log_payloads (d_log d)) +
       mset (map snd (new @ (case r of Inl e \<Rightarrow> w | Inr x \<Rightarrow> [(kind, p)])))"
    using ap(1,2) parts_less(2) [OF a] assms(2)
    by (intro exI [of _ segs] exI [of _ a] exI [of _ "[]"]) (cases r; simp)
qed

text \<open>A gap is in flight after its append, refused or not.\<close>

lemma account_append_anyway:
  assumes "log_append p (d_log d) = (r, d_log d')" "d_audit d' = d_audit d"
  shows "keeps_account k key m n d [] d' [(kind, p)]"
  using account_append [OF assms, of k key m n "[(kind, p)]" kind] by (cases r) simp_all

lemma account_observe:
  assumes "crypto_ok (co_crypto k)" "d_log d' = d_log d"
    and "observe (co_crypto k) (co_segments k) us kind p (d_audit d) = (r, d_audit d')"
  shows "keeps_account k key m n d [(kind, p)] d' []"
proof (rule keeps_accountI)
  fix segs a
  assume l: "log_part (Suc n) (d_log d)" and a: "audit_part k key m (Suc n) (d_audit d) segs a"
  obtain w' segs' a' where "observe (co_crypto k) (co_segments k) us kind p (d_audit d) = (Inr (), w')"
    "audit_part k key m n w' segs' a'" "trail a' = trail a @ [(kind, p)]"
    by (rule observe_part [OF a assms(1)])
  then show "\<exists>segs' a' new. log_part n (d_log d') \<and> audit_part k key m n (d_audit d') segs' a' \<and> trail a' = trail a @ new \<and>
     mset (log_payloads (d_log d')) + mset (map snd [(kind, p)]) \<subseteq># mset (log_payloads (d_log d)) + mset (map snd (new @ []))"
    using parts_less(1) [OF l] assms(2,3) by (intro exI [of _ segs'] exI [of _ a'] exI [of _ "[(kind, p)]"]) simp
qed

lemma evict_trimmed: "log_inv l \<Longrightarrow> trimmed l (evict_step l)"
  by (rule evict_cases [of l]) (auto simp: evict_step_def trimmed_refl)

lemma account_evict:
  assumes "d_log d' = evict_step (d_log d)" "d_audit d' = d_audit d"
  shows "keeps_account k key m n d w d' w"
proof (rule keeps_accountI)
  fix segs a
  assume l: "log_part (Suc n) (d_log d)" and a: "audit_part k key m (Suc n) (d_audit d) segs a"
  have t: "trimmed (d_log d) (d_log d')" unfolding assms(1) using l by (intro evict_trimmed) (simp add: log_part_def)
  then have "mset (log_payloads (d_log d')) \<subseteq># mset (log_payloads (d_log d))" "log_part n (d_log d')"
    using l by (auto simp: trimmed_def log_part_def)
  then show "\<exists>segs' a' new. log_part n (d_log d') \<and> audit_part k key m n (d_audit d') segs' a' \<and> trail a' = trail a @ new \<and>
     mset (log_payloads (d_log d')) + mset (map snd w) \<subseteq># mset (log_payloads (d_log d)) + mset (map snd (new @ w))"
    using parts_less(2) [OF a] assms(2) by (intro exI [of _ segs] exI [of _ a] exI [of _ "[]"]) simp
qed

lemma account_flush:
  assumes "crypto_ok (co_crypto k)" "d_log d' = d_log d" "flush (co_segments k) (d_audit d) = (r, d_audit d')"
  shows "keeps_account k key m n d w d' w"
proof (rule keeps_accountI)
  fix segs a
  assume l: "log_part (Suc n) (d_log d)" and a: "audit_part k key m (Suc n) (d_audit d) segs a"
  have inv: "aw_inv (co_crypto k) (co_segments k) key m (d_audit d) segs" "refines (co_crypto k) (fst a, snd a) (d_audit d) segs"
    "length (fst a) + length (snd a) < 2 ^ 64 - 1" using a by (simp_all add: audit_part_def trail_def)
  obtain p segs' where c: "close_segment (co_segments k) (d_audit d) = (Inr p, closed_writer (co_segments k) (d_audit d))"
    "aw_inv (co_crypto k) (co_segments k) key m (closed_writer (co_segments k) (d_audit d)) segs'"
    "refines (co_crypto k) (fst a @ snd a, []) (closed_writer (co_segments k) (d_audit d)) segs'"
    using close_refines [OF inv(1) assms(1) inv(2,3)] by blast
  have "d_audit d' = closed_writer (co_segments k) (d_audit d)" using assms(3) c(1) by (simp add: flush_def)
  then have "audit_part k key m n (d_audit d') segs' (trail a, [])" using c(2,3) a by (simp add: audit_part_def trail_def)
  then show "\<exists>segs' a' new. log_part n (d_log d') \<and> audit_part k key m n (d_audit d') segs' a' \<and> trail a' = trail a @ new \<and>
     mset (log_payloads (d_log d')) + mset (map snd w) \<subseteq># mset (log_payloads (d_log d)) + mset (map snd (new @ w))"
    using parts_less(1) [OF l] assms(2) by (intro exI [of _ segs'] exI [of _ "(trail a, [])"] exI [of _ "[]"]) (simp add: trail_def)
qed

lemma account_close:
  assumes "log_close (d_log d) = (r, d_log d')" "d_audit d' = d_audit d"
  shows "keeps_account k key m n d w d' w"
proof (rule keeps_accountI)
  fix segs a
  assume l: "log_part (Suc n) (d_log d)" and a: "audit_part k key m (Suc n) (d_audit d) segs a"
  have i: "log_inv (d_log d)" "next_seg_id (d_log d) \<noteq> - 1" using l unat_max_u64 by (auto simp: log_part_def)
  have d': "d_log d' = shut (d_log d)" using assms(1) log_close_eq [OF i(1)] by simp
  have "unat (next_seg_id (shut (d_log d))) \<le> Suc (unat (next_seg_id (d_log d)))"
    using less_next(3) [OF i(2)] by (simp add: shut_def split: option.split)
  moreover have "sl_config (shut (d_log d)) = sl_config (d_log d)" by (simp add: shut_def split: option.split)
  ultimately have "log_part n (d_log d')" using l log_inv_shut [OF i] unfolding d' by (simp add: log_part_def)
  then show "\<exists>segs' a' new. log_part n (d_log d') \<and> audit_part k key m n (d_audit d') segs' a' \<and> trail a' = trail a @ new \<and>
     mset (log_payloads (d_log d')) + mset (map snd w) \<subseteq># mset (log_payloads (d_log d)) + mset (map snd (new @ w))"
    using parts_less(2) [OF a] assms(2) log_payloads_shut [OF i] d' by (intro exI [of _ segs] exI [of _ a] exI [of _ "[]"]) simp
qed

lemma keeps_account_cong:
  "d_log d1 = d_log d \<Longrightarrow> d_audit d1 = d_audit d \<Longrightarrow> d_log d1' = d_log d' \<Longrightarrow> d_audit d1' = d_audit d' \<Longrightarrow>
   keeps_account k key m n d1 w d1' w' = keeps_account k key m n d w d' w'"
  by (simp add: keeps_account_def logs_ok_parts)

text \<open>The tasks.\<close>

lemma on_log_eq: "on_log m d = (r, d') \<Longrightarrow> \<exists>r' l. m (d_log d) = (r', l) \<and> r = map_err AppendEvidence r' \<and> d' = d\<lparr>d_log := l\<rparr>"
  by (auto simp: on_log_def split: prod.splits)

lemma on_audit_eq: "on_audit m d = (r, d') \<Longrightarrow> \<exists>r' w. m (d_audit d) = (r', w) \<and> r = map_err AppendAudit r' \<and> d' = d\<lparr>d_audit := w\<rparr>"
  by (auto simp: on_audit_def split: prod.splits)

lemma frame_begin_logs:
  assumes "frame_begin k st f d = (ph, d')"
  shows "d_log d' = d_log d" "d_audit d' = d_audit d" "frame_flight ph = []" "d_lifecycles d' = d_lifecycles d"
  using assms by (auto simp: frame_begin_def Let_def respond_def split: if_splits option.splits sum.splits)

lemma conn_account:
  assumes "conn_next k (ph, a, d) = (ph', a', d')" "crypto_ok (co_crypto k)"
  shows "keeps_account k key m n d (frame_flight ph) d' (frame_flight ph')"
proof (cases "(k, ph, a, d)" rule: conn_next.cases)
  case (2 _ st w e p _ _)
  obtain r d1 where o: "on_log (log_append p) d = (r, d1)" by fastforce
  then obtain r' l where l: "log_append p (d_log d) = (r', l)" "r = map_err AppendEvidence r'" "d1 = d\<lparr>d_log := l\<rparr>"
    using on_log_eq by blast
  have "keeps_account k key m n d [] d1 (case r' of Inl e \<Rightarrow> [] | Inr x \<Rightarrow> [(''event'', p)])"
    by (rule account_append) (simp_all add: l)
  then show ?thesis using assms(1) 2 o l(2) by (cases r') auto
next
  case (3 _ st w e p _ _)
  obtain r d1 where o: "on_audit (observe (co_crypto k) (co_segments k) (st_audit_us st) ''event'' p) d = (r, d1)" by fastforce
  then obtain r' aw where l: "observe (co_crypto k) (co_segments k) (st_audit_us st) ''event'' p (d_audit d) = (r', aw)" "d1 = d\<lparr>d_audit := aw\<rparr>"
    using on_audit_eq by blast
  have "keeps_account k key m n d [(''event'', p)] d1 []"
    by (rule account_observe [OF assms(2), of d1 d "st_audit_us st" _ _ r']) (simp_all add: l)
  then show ?thesis using assms(1) 3 o by (cases r) auto
next
  case (7 _ st w e lc ss rs _ _)
  then show ?thesis using assms(1) by (auto simp: Let_def split: list.splits intro!: account_same)
qed (use assms(1) in \<open>auto simp: split_def Let_def intro!: account_same split: if_splits\<close>)

lemma gap_begin_logs:
  "gap_begin k now us d = (g, d') \<Longrightarrow> d_log d' = d_log d \<and> d_audit d' = d_audit d \<and> d_lifecycles d' = d_lifecycles d \<and> gap_flight g = []"
  by (auto simp: gap_begin_def split: prod.splits option.splits)

lemma gap_account:
  assumes "gap_next k (g, d) = (g', d')" "crypto_ok (co_crypto k)"
  shows "keeps_account k key m n d (gap_flight g) d' (gap_flight g')"
proof (cases g)
  case NoGap
  then show ?thesis using assms(1) by (auto intro: account_same)
next
  case (GapAppend us p)
  obtain r l where l: "log_append p (d_log d) = (r, l)" by fastforce
  then show ?thesis using assms(1) GapAppend by (auto simp: on_log_def intro!: account_append_anyway)
next
  case (GapObserve us p)
  obtain r aw where l: "observe (co_crypto k) (co_segments k) us ''coverage_gap'' p (d_audit d) = (r, aw)" by fastforce
  then show ?thesis using assms(1) GapObserve by (auto simp: on_audit_def intro!: account_observe [OF assms(2)])
qed

lemma drain_account:
  assumes "drain_next k (p, sp, d) = (p', sp', d')" "crypto_ok (co_crypto k)"
  shows "keeps_account k key m n d (drain_flight p) d' (drain_flight p')"
proof (cases "(k, p, sp, d)" rule: drain_next.cases)
  case (2 _ clk x xs i _ _)
  then have "d' = d" "drain_flight p' = []" using assms(1) by (auto split: prod.splits if_splits sum.splits)
  then show ?thesis using 2 by (auto intro: account_same)
next
  case (4 _ clk x j raw ls n1 xs i1 _ _)
  show ?thesis
  proof (cases "line_record k raw")
    case None
    then show ?thesis using assms(1) 4 by (auto intro: account_same)
  next
    case (Some r)
    let ?p = "co_to_vec k (loss_payload r (fst (clk x j)))"
    obtain q d1 where o: "on_log (log_append ?p) d = (q, d1)" by fastforce
    then obtain r' l where l: "log_append ?p (d_log d) = (r', l)" "q = map_err AppendEvidence r'" "d1 = d\<lparr>d_log := l\<rparr>"
      using on_log_eq by blast
    have "keeps_account k key m n d [] d1 (case r' of Inl e \<Rightarrow> [] | Inr x \<Rightarrow> [(''coverage_gap'', ?p)])"
      by (rule account_append) (simp_all add: l)
    then show ?thesis using assms(1) 4 Some o l(2) by (cases r') (auto simp: Let_def)
  qed
next
  case (5 _ us pl clk x ls n1 xs i1 _ _)
  obtain r d1 where o: "on_audit (observe (co_crypto k) (co_segments k) us ''coverage_gap'' pl) d = (r, d1)" by fastforce
  then obtain r' aw where l: "observe (co_crypto k) (co_segments k) us ''coverage_gap'' pl (d_audit d) = (r', aw)" "d1 = d\<lparr>d_audit := aw\<rparr>"
    using on_audit_eq by blast
  have "keeps_account k key m n d [(''coverage_gap'', pl)] d1 []"
    by (rule account_observe [OF assms(2), of d1 d us _ _ r']) (simp_all add: l)
  then show ?thesis using assms(1) 5 o by (cases r) auto
qed (use assms(1) in \<open>auto intro: account_same\<close>)

lemma evict_account:
  assumes "evict_next c (v, d_log d) = (v', l)"
  shows "keeps_account k key m n d w (d\<lparr>d_log := l\<rparr>) w"
proof -
  have "l = d_log d \<or> l = evict_step (d_log d)"
    using assms by (cases "(c, v, d_log d)" rule: evict_next.cases) (auto simp: evict_step_def split: prod.splits sum.splits option.splits)
  then show ?thesis using account_same [of "d\<lparr>d_log := l\<rparr>" d] account_evict [of "d\<lparr>d_log := l\<rparr>" d] by auto
qed

lemma stop_account:
  assumes "stop_next k borrowed (p, d) = (p', d')" "crypto_ok (co_crypto k)"
  shows "keeps_account k key m n d (stop_flight p) d' (stop_flight p')"
proof (cases p)
  case (LastGap g)
  show ?thesis
  proof (cases "g = NoGap")
    case True
    then show ?thesis using LastGap assms(1) by (auto intro: account_same)
  next
    case False
    then obtain g' where "gap_next k (g, d) = (g', d')" "p' = LastGap g'"
      using LastGap assms(1) by (cases "gap_next k (g, d)") auto
    with gap_account [OF this(1) assms(2)] LastGap show ?thesis by simp
  qed
next
  case Flushing
  then show ?thesis using assms by (auto simp: on_audit_def split_def intro!: account_flush [of k _ _ "fst (flush (co_segments k) (d_audit d))"])
next
  case Unwrapping
  show ?thesis
  proof (cases borrowed)
    case False
    then show ?thesis using assms(1) Unwrapping
      by (auto simp: split_def intro!: account_close [of _ "fst (log_close (d_log d))"])
  qed (use assms(1) Unwrapping in \<open>auto intro: account_same\<close>)
qed (use assms(1) in \<open>auto intro: account_same\<close>)

section \<open>Evidence and audit trail through a run\<close>

text \<open>The account of a run: the evidence with what was in flight and committed before, against the evidence before with what
  is in flight and committed now and what was lost; and the two trails agree but for what was lost.\<close>

definition accounted :: "system \<Rightarrow> audit_spec \<Rightarrow> system \<Rightarrow> audit_spec \<Rightarrow> nat \<Rightarrow> bool" where
  "accounted s a s' a' lost \<longleftrightarrow>
     (\<exists>L. size L \<le> lost \<and> mset (log_payloads (d_log (sy_daemon s'))) + mset (map snd (trail a @ in_flight s)) \<subseteq>#
        mset (log_payloads (d_log (sy_daemon s))) + mset (map snd (trail a' @ in_flight s')) + L) \<and>
     (\<exists>kept. prefix kept (trail a) \<and> prefix kept (trail a') \<and> length (trail a) \<le> length kept + lost)"

lemma accounted_refl: "accounted s a s a 0"
  unfolding accounted_def by (intro conjI exI [of _ "{#}"] exI [of _ "trail a"]) simp_all

lemma accounted_trans:
  assumes "accounted s a s1 a1 l" "accounted s1 a1 s2 a2 j"
  shows "accounted s a s2 a2 (l + j)"
proof -
  let ?A = "\<lambda>x. mset (log_payloads (d_log (sy_daemon x)))" and ?T = "\<lambda>x b. mset (map snd (trail b @ in_flight x))"
  obtain L J where L: "size L \<le> l" "?A s1 + ?T s a \<subseteq># ?A s + ?T s1 a1 + L"
    and J: "size J \<le> j" "?A s2 + ?T s1 a1 \<subseteq># ?A s1 + ?T s2 a2 + J"
    using assms unfolding accounted_def by blast
  have "(?A s1 + ?T s1 a1) + (?A s2 + ?T s a) \<subseteq># (?A s1 + ?T s1 a1) + (?A s + ?T s2 a2 + (L + J))"
    using subset_mset.add_mono [OF L(2) J(2)] by (simp add: ac_simps)
  then have "?A s2 + ?T s a \<subseteq># ?A s + ?T s2 a2 + (L + J)" by (simp only: subset_mset.add_le_cancel_left)
  moreover have "size (L + J) \<le> l + j" using L(1) J(1) by simp
  moreover obtain c e where c: "prefix c (trail a)" "prefix c (trail a1)" "length (trail a) \<le> length c + l"
    and e: "prefix e (trail a1)" "prefix e (trail a2)" "length (trail a1) \<le> length e + j"
    using assms unfolding accounted_def by blast
  have "\<exists>kept. prefix kept (trail a) \<and> prefix kept (trail a2) \<and> length (trail a) \<le> length kept + (l + j)"
  proof (cases "prefix c e")
    case True
    then show ?thesis using c e prefix_order.trans by (intro exI [of _ c]) auto
  next
    case False
    then have "prefix e c" using prefix_same_cases [OF c(2) e(1)] by blast
    then show ?thesis using c e prefix_order.trans prefix_length_le [OF c(2)] by (intro exI [of _ e]) fastforce
  qed
  ultimately show ?thesis unfolding accounted_def by blast
qed

text \<open>A step of one task, among what the others have in flight.\<close>

lemma task_accounted:
  assumes "keeps_account k key m n (sy_daemon s) w (sy_daemon s') w'" "logs_ok k key m (Suc n) (sy_daemon s) segs a"
    and "mset (in_flight s) + mset w' = mset (in_flight s') + mset w"
  shows "\<exists>segs' a'. logs_ok k key m n (sy_daemon s') segs' a' \<and> accounted s a s' a' 0"
proof -
  let ?A = "\<lambda>x. mset (log_payloads (d_log (sy_daemon x)))" and ?F = "\<lambda>x. mset (map snd (in_flight x))"
  obtain segs' a' new where k: "logs_ok k key m n (sy_daemon s') segs' a'" "trail a' = trail a @ new"
    "?A s' + mset (map snd w) \<subseteq># ?A s + mset (map snd (new @ w'))"
    using assms(1,2) unfolding keeps_account_def by blast
  have f: "?F s + mset (map snd w') = ?F s' + mset (map snd w)"
    using arg_cong [OF assms(3), of "image_mset snd"] by simp
  let ?x = "mset (map snd w)" and ?t = "mset (map snd (trail a))"
  have "?x + (?A s' + (?t + ?F s)) \<subseteq># ?A s + mset (map snd (new @ w')) + (?t + ?F s)"
    using subset_mset.add_right_mono [OF k(3), of "?t + ?F s"] by (simp add: ac_simps)
  also have "\<dots> = ?x + (?A s + (mset (map snd (trail a')) + ?F s'))"
    using f by (simp add: k(2) ac_simps)
  finally have "?A s' + (?t + ?F s) \<subseteq># ?A s + (mset (map snd (trail a')) + ?F s')"
    by (simp only: subset_mset.add_le_cancel_left)
  then have "accounted s a s' a' 0" unfolding accounted_def
    by (intro conjI exI [of _ "{#}"] exI [of _ "trail a"]) (simp_all add: k(2))
  with k(1) show ?thesis by blast
qed

lemma same_accounted:
  assumes "d_log (sy_daemon s') = d_log (sy_daemon s)" "d_audit (sy_daemon s') = d_audit (sy_daemon s)"
    and "in_flight s' = in_flight s" "logs_ok k key m (Suc n) (sy_daemon s) segs a"
  shows "\<exists>segs' a'. logs_ok k key m n (sy_daemon s') segs' a' \<and> accounted s a s' a' 0"
  by (rule task_accounted [OF account_same assms(4), where w = "[]"]) (simp_all add: assms(1-3))

text \<open>A task that is aborted loses what it has in flight.\<close>

lemma aborted_accounted:
  assumes "sy_daemon s' = sy_daemon s" "mset (in_flight s) = mset (in_flight s') + mset w" "logs_ok k key m (Suc n) (sy_daemon s) segs a"
  shows "\<exists>segs' a'. logs_ok k key m n (sy_daemon s') segs' a' \<and> accounted s a s' a' (length w)"
proof -
  have f: "image_mset snd (mset (in_flight s)) = image_mset snd (mset (in_flight s')) + image_mset snd (mset w)"
    using assms(2) by simp
  have "accounted s a s' a (length w)" unfolding accounted_def
    by (intro conjI exI [of _ "mset (map snd w)"] exI [of _ "trail a"]) (simp_all add: assms(1) f ac_simps)
  then show ?thesis using logs_ok_less [OF assms(3)] unfolding assms(1) by blast
qed

lemma step_accounted:
  assumes "system_step k c adm l s s'" and k: "crypto_ok (co_crypto k)" "json_text_ok (co_segments k)"
    and c: "dcf_max_record_bytes c < 2 ^ 32" and h: "host_ready key (sy_dir s)"
    and ok: "logs_ok k key (dcf_audit_records_per_segment c) (Suc n) (sy_daemon s) segs a"
  shows "host_ready key (sy_dir s') \<and>
    (\<exists>segs' a'. logs_ok k key (dcf_audit_records_per_segment c) n (sy_daemon s') segs' a' \<and> accounted s a s' a' l)"
  using assms(1)
proof cases
  case (step_frame xs cn ys st f ph d')
  note b = frame_begin_logs [OF step_frame(4)]
  show ?thesis using h b same_accounted [OF _ _ _ ok, of s'] step_frame(1-3) by (simp add: in_flight_def)
next
  case (step_conn xs cn ph ys ph' a' d')
  have "keeps_account k key (dcf_audit_records_per_segment c) n (sy_daemon s) (frame_flight ph) (sy_daemon s') (frame_flight ph')"
    using conn_account [OF step_conn(5) k(1), of key "dcf_audit_records_per_segment c" n] step_conn(2)
    by (simp add: keeps_account_def logs_ok_def)
  from task_accounted [OF this ok] show ?thesis using h step_conn(1-3) by (simp add: in_flight_def ac_simps)
next
  case (step_watch now us b g d')
  have "d_log d' = d_log (sy_daemon s) \<and> d_audit d' = d_audit (sy_daemon s) \<and> gap_flight g = []"
    using step_watch(5) gap_begin_logs [of k now us "sy_daemon s"]
    by (auto simp: watch_begin_def Let_def split: if_splits)
  then show ?thesis using h same_accounted [OF _ _ _ ok, of s'] step_watch by (simp add: in_flight_def)
next
  case (step_gap g d')
  have "keeps_account k key (dcf_audit_records_per_segment c) n (sy_daemon s) (gap_flight (sy_gap s)) (sy_daemon s') (gap_flight g)"
    using gap_account [OF step_gap(3) k(1)] step_gap(2) by simp
  from task_accounted [OF this ok] show ?thesis using h step_gap(1,2) by (simp add: in_flight_def ac_simps)
next
  case step_gap_aborted
  from aborted_accounted [OF _ _ ok, of s' "gap_flight (sy_gap s)"] show ?thesis
    using h step_gap_aborted by (simp add: in_flight_def ac_simps)
next
  case (step_evict v l)
  have "keeps_account k key (dcf_audit_records_per_segment c) n (sy_daemon s) [] (sy_daemon s') []"
    using evict_account [OF step_evict(3)] step_evict(2) by simp
  from task_accounted [OF this ok] show ?thesis using h step_evict(1,2) by (simp add: in_flight_def)
next
  case (step_drain_begin clk p sp)
  have "drain_flight p = [] \<and> drain_flight (sy_drain s) = []" using step_drain_begin(4,5)
    by (auto simp: drain_begin_def drained_def split: if_splits prod.splits sum.splits drain_phase.splits)
  then show ?thesis using h same_accounted [OF _ _ _ ok, of s'] step_drain_begin by (simp add: in_flight_def)
next
  case (step_drain p sp d')
  have "keeps_account k key (dcf_audit_records_per_segment c) n (sy_daemon s) (drain_flight (sy_drain s)) (sy_daemon s') (drain_flight p)"
    using drain_account [OF step_drain(3) k(1)] step_drain(2) by simp
  from task_accounted [OF this ok] show ?thesis using h step_drain(1,2) by (simp add: in_flight_def ac_simps)
next
  case (step_drain_aborted clk i)
  from aborted_accounted [OF _ _ ok, of s' "drain_flight (sy_drain s)"] show ?thesis
    using h step_drain_aborted by (simp add: in_flight_def ac_simps)
next
  case (step_signal now us p d')
  obtain g d1 where g: "gap_begin k now us (sy_daemon s) = (g, d1)" by fastforce
  then have "p = LastGap g" "d' = d1" using step_signal(4) by (simp_all add: stop_begin_def)
  then have "d_log d' = d_log (sy_daemon s) \<and> d_audit d' = d_audit (sy_daemon s) \<and> stop_flight p = []"
    using gap_begin_logs [OF g] by simp
  then show ?thesis using h same_accounted [OF _ _ _ ok, of s'] step_signal(1-3) by (simp add: in_flight_def)
next
  case (step_stop borrowed p d')
  have "keeps_account k key (dcf_audit_records_per_segment c) n (sy_daemon s) (stop_flight (sy_stop s)) (sy_daemon s') (stop_flight p)"
    using stop_account [OF step_stop(4) k(1)] step_stop(2) by simp
  from task_accounted [OF this ok] show ?thesis using h step_stop(1,2) by (simp add: in_flight_def ac_simps)
next
  case (step_start fresh t0 d' dd')
  let ?m = "dcf_audit_records_per_segment c"
  have "logs_ok k key ?m n (sy_daemon s) segs a" by (rule logs_ok_less [OF ok])
  from crash_logs [OF this k(2) h c, of fresh t0] step_start(2) have d: "host_ready key dd'"
    "logs_ok k key ?m n d' segs (fst a, [])" "prefix (log_payloads (d_log d')) (log_payloads (d_log (sy_daemon s)))" by auto
  have s': "sy_daemon s' = d'" "sy_dir s' = dd'" "in_flight s' = []" using step_start(1) by (simp_all add: serving_def in_flight_def)
  have pending: "length (snd a) = length (cw_records (inner (d_audit (sy_daemon s))))"
    using ok refines_lengths(2) [of "co_crypto k" a "d_audit (sy_daemon s)" segs] by (simp add: logs_ok_def)
  have "mset (log_payloads (d_log d')) \<subseteq># mset (log_payloads (d_log (sy_daemon s)))"
    using d(3) by (auto simp: prefix_def)
  then have "mset (log_payloads (d_log (sy_daemon s'))) + mset (map snd (trail a @ in_flight s)) \<subseteq>#
      mset (log_payloads (d_log (sy_daemon s))) + mset (map snd (trail (fst a, []) @ in_flight s')) + mset (map snd (snd a @ in_flight s))"
    using subset_mset.add_right_mono [of "mset (log_payloads (d_log d'))" _ "mset (map snd (trail a @ in_flight s))"]
    by (simp add: s' trail_def ac_simps)
  then have "accounted s a s' (fst a, []) l" unfolding accounted_def using step_start(3) pending
    by (intro conjI exI [of _ "mset (map snd (snd a @ in_flight s))"] exI [of _ "fst a"]) (simp_all add: trail_def)
  then show ?thesis using d(1,2) s' by auto
qed (use same_accounted [OF _ _ _ ok, of s'] h in \<open>simp_all add: in_flight_def\<close>)

lemma run_accounted:
  assumes "system_run k c adm i l s s'" and k: "crypto_ok (co_crypto k)" "json_text_ok (co_segments k)"
    and c: "dcf_max_record_bytes c < 2 ^ 32" and h: "host_ready key (sy_dir s)"
    and ok: "logs_ok k key (dcf_audit_records_per_segment c) (i + n) (sy_daemon s) segs a"
  shows "host_ready key (sy_dir s') \<and>
    (\<exists>segs' a'. logs_ok k key (dcf_audit_records_per_segment c) n (sy_daemon s') segs' a' \<and> accounted s a s' a' l)"
  using assms(1) h ok
proof (induction arbitrary: n rule: system_run.induct)
  case (run_refl s)
  then show ?case by (intro conjI exI [of _ segs] exI [of _ a]) (simp_all add: accounted_refl)
next
  case (run_step i l s s1 j s2)
  have "logs_ok k key (dcf_audit_records_per_segment c) (i + Suc n) (sy_daemon s) segs a"
    using run_step.prems(2) by simp
  from run_step.IH [OF run_step.prems(1) this] obtain segs1 a1 where 1: "host_ready key (sy_dir s1)"
    "logs_ok k key (dcf_audit_records_per_segment c) (Suc n) (sy_daemon s1) segs1 a1" "accounted s a s1 a1 l" by blast
  from step_accounted [OF run_step.hyps(2) k c 1(1,2)] accounted_trans [OF 1(3)] show ?case by blast
qed

text \<open>What the audit trail of a daemon says: the stored chain verifies, and with the pending records it
  commits to the observations \<open>es\<close>.\<close>

definition attests :: "codecs \<Rightarrow> daemon \<Rightarrow> (string \<times> byte list) list \<Rightarrow> bool" where
  "attests k d es \<longleftrightarrow> (\<exists>segs. chain_on_disk (co_crypto k) (co_segments k) (aw_disk (d_audit d)) segs \<and>
     fst (verify_all (co_crypto k) (co_segments k) (aw_disk (d_audit d))) =
       Inr \<lparr>segments_verified = length segs, records_verified = length (all_records segs)\<rparr> \<and>
     map entry (all_records segs @ cw_records (inner (d_audit d))) = committed (co_crypto k) es)"

lemma logs_ok_attests:
  assumes "logs_ok k key m n d segs a" "json_text_ok (co_segments k)"
  shows "attests k d (trail a)"
proof -
  have ch: "chain_on_disk (co_crypto k) (co_segments k) (aw_disk (d_audit d)) segs"
    and rf: "refines (co_crypto k) a (d_audit d) segs" using assms(1) by (simp_all add: logs_ok_def aw_inv_def)
  have "map entry (all_records segs @ cw_records (inner (d_audit d))) = committed (co_crypto k) (trail a)"
    using rf by (simp add: refines_def trail_def)
  with ch verify_all_ok [OF assms(2) ch] show ?thesis unfolding attests_def
    by (intro exI [of _ segs]) simp
qed

lemma boot_logs:
  assumes "boot k c fresh t0 = Some s" "crypto_ok (co_crypto k)" "json_text_ok (co_segments k)" "length fresh = 32"
    and "dcf_max_record_bytes c < 2 ^ 32" "n < 2 ^ 64 - 2"
  shows "host_ready fresh (sy_dir s)" "logs_ok k fresh (dcf_audit_records_per_segment c) n (sy_daemon s) [] ([], [])"
    "log_payloads (d_log (sy_daemon s)) = []" "in_flight s = []"
  using first_start [OF assms(2-6), of t0] assms(1)
  by (auto simp: boot_def serving_def in_flight_def log_payloads_def slog_new_def)

text \<open>Claim C1 (every run is accounted for): in every run of the daemon from its first start on, with any number of
  connections and background tasks interleaved lock by lock, with shutdowns, kills and new starts, on disks that do not fail and whatever the databases
  do, the stored audit chain verifies, and every payload of the evidence log has its own commitment in the trail or
  is on its way to it, but for at most as many as were lost: the payloads in flight and the pending
  audit records when a process ended, and the payloads in flight of aborted tasks.  What the
  trail attests only grows, but for what was lost.  The order of the log is not that of the
  trail (\<open>interleaving_reorders\<close>).\<close>

theorem every_run_covered:
  assumes "crypto_ok (co_crypto k)" "json_text_ok (co_segments k)" "length fresh = 32"
    and "dcf_max_record_bytes c < 2 ^ 32" "boot k c fresh t0 = Some s0"
    and "system_run k c adm n lost s0 s" "system_run k c adm i lost' s s'" "n + i < 2 ^ 64 - 2"
  shows "\<exists>es es' kept. attests k (sy_daemon s) es \<and> attests k (sy_daemon s') es' \<and>
    size (mset (log_payloads (d_log (sy_daemon s'))) - mset (map snd (es' @ in_flight s'))) \<le> lost + lost' \<and>
    prefix kept es \<and> prefix kept es' \<and> length es \<le> length kept + lost'"
proof -
  let ?m = "dcf_audit_records_per_segment c"
  note b = boot_logs [OF assms(5,1,2,3,4,8)]
  have "logs_ok k fresh ?m (n + (i + 0)) (sy_daemon s0) [] ([], [])" using b(2) by simp
  from run_accounted [OF assms(6,1,2,4) b(1) this] obtain segs1 a1 where 1: "host_ready fresh (sy_dir s)"
    "logs_ok k fresh ?m (i + 0) (sy_daemon s) segs1 a1" "accounted s0 ([], []) s a1 lost" by blast
  from run_accounted [OF assms(7,1,2,4) 1(1,2)] obtain segs2 a2 where 2:
    "logs_ok k fresh ?m 0 (sy_daemon s') segs2 a2" "accounted s a1 s' a2 lost'" by blast
  obtain L where L: "size L \<le> lost + lost'"
    "mset (log_payloads (d_log (sy_daemon s'))) \<subseteq># mset (map snd (trail a2 @ in_flight s')) + L"
    using accounted_trans [OF 1(3) 2(2)] b(3,4) unfolding accounted_def by (auto simp: trail_def)
  have "mset (log_payloads (d_log (sy_daemon s'))) - mset (map snd (trail a2 @ in_flight s')) \<subseteq># L"
    unfolding subset_eq_diff_conv using L(2) by (simp only: add.commute)
  then have "size (mset (log_payloads (d_log (sy_daemon s'))) - mset (map snd (trail a2 @ in_flight s'))) \<le> lost + lost'"
    using L(1) size_mset_mono by (meson le_trans)
  moreover obtain kept where "prefix kept (trail a1)" "prefix kept (trail a2)" "length (trail a1) \<le> length kept + lost'"
    using 2(2) unfolding accounted_def by blast
  ultimately show ?thesis
    using logs_ok_attests [OF 1(2) assms(2)] logs_ok_attests [OF 2(1) assms(2)] by blast
qed

text \<open>Claim C2 (always starts again): whatever steps, shutdowns, kills and starts came before, on disks that do
  not fail, a daemon that dies starts again; its stored audit chain verifies and has lost exactly the pending records, of
  the evidence a prefix is kept (the closed segments), and no lifecycle or decision is lost.\<close>

theorem crash_starts_again:
  assumes "crypto_ok (co_crypto k)" "json_text_ok (co_segments k)" "length fresh = 32"
    and "dcf_max_record_bytes c < 2 ^ 32" "boot k c fresh t0 = Some s0" "system_run k c adm n lost s0 s" "n < 2 ^ 64 - 2"
  shows "\<exists>d dd es pending. crash k c fresh' t (sy_daemon s) (sy_dir s) = (Inr d, dd) \<and>
    attests k (sy_daemon s) (es @ pending) \<and> attests k d es \<and>
    length pending = length (cw_records (inner (d_audit (sy_daemon s)))) \<and>
    prefix (log_payloads (d_log d)) (log_payloads (d_log (sy_daemon s))) \<and>
    d_lifecycles d = d_lifecycles (sy_daemon s) \<and> d_decisions d = d_decisions (sy_daemon s)"
proof -
  note b = boot_logs [OF assms(5,1,2,3,4,7)]
  have "logs_ok k fresh (dcf_audit_records_per_segment c) (n + 0) (sy_daemon s0) [] ([], [])" using b(2) by simp
  from run_accounted [OF assms(6,1,2,4) b(1) this] obtain segs a where 1: "host_ready fresh (sy_dir s)"
    "logs_ok k fresh (dcf_audit_records_per_segment c) 0 (sy_daemon s) segs a" by blast
  from crash_logs [OF 1(2) assms(2) 1(1) assms(4), of fresh' t] obtain d dd where 2:
    "crash k c fresh' t (sy_daemon s) (sy_dir s) = (Inr d, dd)"
    "logs_ok k fresh (dcf_audit_records_per_segment c) 0 d segs (fst a, [])"
    "prefix (log_payloads (d_log d)) (log_payloads (d_log (sy_daemon s)))"
    "d_lifecycles d = d_lifecycles (sy_daemon s)" "d_decisions d = d_decisions (sy_daemon s)" by blast
  have "length (snd a) = length (cw_records (inner (d_audit (sy_daemon s))))"
    using 1(2) refines_lengths(2) [of "co_crypto k" a "d_audit (sy_daemon s)" segs] by (simp add: logs_ok_def)
  with 2 logs_ok_attests [OF 1(2) assms(2)] logs_ok_attests [OF 2(2) assms(2)] show ?thesis
    by (intro exI [of _ d] exI [of _ dd] exI [of _ "fst a"] exI [of _ "snd a"]) (simp add: trail_def)
qed

section \<open>Lifecycles through a run\<close>

lemma conn_engine:
  assumes "conn_next k (ph, a, d) = (ph', a', d')"
  shows "a' = a \<and> d_lifecycles d' = d_lifecycles d \<or>
    (\<exists>st w e. ph = Projecting st w e \<and> a = Idle \<and> a' = apply_begin sql_ops e (st_apply_ms st) (d_lifecycles d) \<and>
       d_lifecycles d' = d_lifecycles d) \<or>
    apply_next sql_ops a (d_lifecycles d) = (a', d_lifecycles d')"
proof (cases "(k, ph, a, d)" rule: conn_next.cases)
  case (5 _ st w e _ _)
  then have "apply_next sql_ops a (d_lifecycles d) = (a', d_lifecycles d')"
    using assms by (cases "apply_next sql_ops a (d_lifecycles d)") (auto simp: Let_def)
  then show ?thesis by blast
qed (use assms in \<open>auto simp: on_log_def on_audit_def split_def Let_def respond_def split: sum.splits list.splits if_splits\<close>)

lemma gap_next_lifecycles: "gap_next k (g, d) = (g', d') \<Longrightarrow> d_lifecycles d' = d_lifecycles d"
  by (cases g) (auto simp: on_log_def on_audit_def split_def)

lemma drain_next_lifecycles: "drain_next k (p, sp, d) = (p', sp', d') \<Longrightarrow> d_lifecycles d' = d_lifecycles d"
  by (cases "(k, p, sp, d)" rule: drain_next.cases)
    (auto simp: on_log_def on_audit_def Let_def split: prod.splits sum.splits if_splits option.splits)

lemma stop_next_lifecycles: "stop_next k b (p, d) = (p', d') \<Longrightarrow> d_lifecycles d' = d_lifecycles d"
  by (cases p) (auto simp: on_audit_def apfst_def map_prod_def split: prod.splits if_splits dest: gap_next_lifecycles)

lemma server_new_stores:
  "server_new k c fresh t0 dd = (Inr d, dd') \<Longrightarrow> d_lifecycles d = dd_lifecycles dd"
  by (auto simp: server_new_def bind_eff_split eff_defs on_evidence_def on_keys_def on_segments_def on_state_def
      load_policies_def split_def split: if_splits)

text \<open>At the grain of calls.\<close>

definition grain_of :: "system \<Rightarrow> sqlite_store race" where
  "grain_of s = at_grain (d_lifecycles (sy_daemon s)) (sy_engine s) (sy_scan s)"

text \<open>What a step is to the lifecycles: nothing, the end of the process, a change of the database's moods, or a
  step of the engine or of a scan.\<close>

inductive grain_step :: "daemon_config \<Rightarrow> (sqlite_store \<Rightarrow> event \<Rightarrow> bool) \<Rightarrow> sqlite_store race \<Rightarrow> sqlite_store race \<Rightarrow> bool" for c adm where
  grain_none: "grain_step c adm x x"
| grain_death: "grain_step c adm x (race_start (rc_store x))"
| grain_moods: "grain_step c adm (at_grain l a sc) (at_grain (l\<lparr>sql_script := scr, sql_lost := qs\<rparr>) a sc)"
| grain_begin: "adm l e \<Longrightarrow> grain_step c adm (at_grain l Idle sc) (at_grain l (apply_begin sql_ops e now l) sc)"
| grain_call: "apply_next sql_ops a l = (a', l') \<Longrightarrow> grain_step c adm (at_grain l a sc) (at_grain l' a' sc)"
| grain_tick: "dcf_staleness_scan_interval_secs c \<noteq> 0 \<Longrightarrow> grain_step c adm (at_grain l a None) (at_grain l a (scan_begin sql_ops now l))"
| grain_sweep: "scan_next sql_ops sc l = (sc', l') \<Longrightarrow> grain_step c adm (at_grain l a sc) (at_grain l' a sc')"

lemma grain_flaky: "grain_step c adm x y \<Longrightarrow> (flaky_step adm)\<^sup>*\<^sup>* x y"
  by (induction rule: grain_step.induct)
    (auto intro: r_into_rtranclp flaky_death flaky_faults flaky_event flaky_apply flaky_tick flaky_scan)

lemma step_grain:
  assumes "system_step k c adm lost s s'"
  shows "grain_step c adm (grain_of s) (grain_of s')"
proof -
  have same: "grain_step c adm (grain_of s) (grain_of s')"
    if "d_lifecycles (sy_daemon s') = d_lifecycles (sy_daemon s)" "sy_engine s' = sy_engine s" "sy_scan s' = sy_scan s"
    using that grain_none by (simp add: grain_of_def)
  from assms show ?thesis
  proof cases
    case (step_frame xs cn ys st f ph d')
    then show ?thesis using frame_begin_logs(4) [OF step_frame(4)] by (intro same) simp_all
  next
    case (step_conn xs cn ph ys ph' a' d')
    from conn_engine [OF step_conn(5)] show ?thesis
    proof (elim disjE exE conjE)
      fix st w e
      assume e: "ph = Projecting st w e" "sy_engine s = Idle" "a' = apply_begin sql_ops e (st_apply_ms st) (d_lifecycles ((sy_daemon s)\<lparr>d_conn := cn\<rparr>))"
        "d_lifecycles d' = d_lifecycles ((sy_daemon s)\<lparr>d_conn := cn\<rparr>)"
      then show ?thesis using step_conn(2) grain_begin [of adm "d_lifecycles (sy_daemon s)" e c] step_conn(4) [of st w e]
        by (simp add: grain_of_def)
    next
      assume "apply_next sql_ops (sy_engine s) (d_lifecycles ((sy_daemon s)\<lparr>d_conn := cn\<rparr>)) = (a', d_lifecycles d')"
      then show ?thesis using step_conn(2) grain_call [of "sy_engine s" "d_lifecycles (sy_daemon s)"] by (simp add: grain_of_def)
    qed (use step_conn(2) in \<open>intro same; simp\<close>)
  next
    case (step_watch now us b g d')
    have "d_lifecycles d' = d_lifecycles (sy_daemon s)"
      using step_watch(5) gap_begin_logs [of k now us "sy_daemon s"] by (auto simp: watch_begin_def Let_def split: if_splits)
    then show ?thesis using step_watch(2) by (intro same) simp_all
  next
    case (step_gap g d')
    then show ?thesis using gap_next_lifecycles [OF step_gap(3)] by (intro same) simp_all
  next
    case (step_scan_begin now)
    then show ?thesis using grain_tick [of c adm "d_lifecycles (sy_daemon s)" "sy_engine s" now] by (simp add: grain_of_def)
  next
    case (step_scan_call sc l)
    then show ?thesis using grain_sweep [OF step_scan_call(3), of c adm "sy_engine s"] by (simp add: grain_of_def)
  next
    case (step_database d' scr qs dscr)
    then show ?thesis using grain_moods [where c = c and adm = adm and l = "d_lifecycles (sy_daemon s)" and a = "sy_engine s" and sc = "sy_scan s" and scr = dscr and qs = qs] by (simp add: grain_of_def)
  next
    case (step_drain p sp d')
    then show ?thesis using drain_next_lifecycles [OF step_drain(3)] by (intro same) simp_all
  next
    case (step_signal now us p d')
    obtain g d1 where g: "gap_begin k now us (sy_daemon s) = (g, d1)" by fastforce
    then have "d' = d1" using step_signal(4) by (simp add: stop_begin_def)
    then show ?thesis using gap_begin_logs [OF g] step_signal(2) by (intro same) simp_all
  next
    case (step_stop borrowed p d')
    then show ?thesis using stop_next_lifecycles [OF step_stop(4)] by (intro same) simp_all
  next
    case (step_start fresh t0 d' dd')
    have "d_lifecycles d' = d_lifecycles (sy_daemon s)"
      using server_new_stores [OF step_start(2) [unfolded crash_def]] by (simp add: left_behind_def)
    then show ?thesis using grain_death [of c adm "grain_of s"] step_start(1) by (simp add: grain_of_def serving_def race_start_def)
  qed (intro same; simp)+
qed

lemma run_grain: "system_run k c adm n lost s s' \<Longrightarrow> (flaky_step adm)\<^sup>*\<^sup>* (grain_of s) (grain_of s')"
  by (induction rule: system_run.induct) (auto intro: rtranclp_trans grain_flaky [OF step_grain])

lemma boot_grain:
  assumes "boot k c fresh t0 = Some s"
  shows "grain_of s = race_start sql_open_in_memory"
  using assms server_new_stores [of k c fresh t0 empty_dir]
  by (auto simp: boot_def serving_def grain_of_def race_start_def empty_dir_def split: prod.splits sum.splits)

text \<open>Claim C3 (closed in every run): through scans, shutdowns, kills, new starts and failing
  statements of the databases, with any number of connections at once, a closed lifecycle stays as it is but for its list of late events,
  from a moment on at which neither the engine nor a scan holds a copy of it from before it closed, as long as no event creates
  another lifecycle under its identifier or its keys (which takes an unanswered lookup or a reused event identifier,
  \<open>fresh_answered_spares\<close>).  Before that moment anything may have happened.\<close>

theorem closed_in_every_run:
  assumes "boot k c fresh t0 = Some s0" "system_run k c (\<lambda>_ _. True) n lost s0 s"
    and "system_run k c (spares x) i lost' s s'"
    and "sql_get (calm (d_lifecycles (sy_daemon s))) x = Some lc" "is_closed (lc_closure lc)" "\<not> menaced (grain_of s) lc"
  shows "\<exists>late. sql_get (calm (d_lifecycles (sy_daemon s'))) x = Some (lc\<lparr>late_events := late_events lc @ late\<rparr>)"
proof -
  have "race_typed (grain_of s)"
    using flaky_run_typed [OF run_grain [OF assms(2)]] typed_start by (simp add: boot_grain [OF assms(1)])
  moreover have "safe_at x lc (grain_of s)" using assms(4-6) by (simp add: safe_at_def grain_of_def)
  ultimately show ?thesis
    using flaky_run_safe [OF run_grain [OF assms(3)]] by (auto simp: safe_at_def grain_of_def)
qed

text \<open>A staleness interval of zero is not a switch but the end of the scanner: no lifecycle ever times out.\<close>

definition no_timeouts :: "graph \<Rightarrow> bool" where
  "no_timeouts g \<longleftrightarrow> (\<forall>i lc. g i = Some lc \<longrightarrow> lc_closure lc \<noteq> ClosedWithUncertainty)"

lemma transition_no_timeout: "transition_for t e = Some (st, cl) \<Longrightarrow> cl \<noteq> ClosedWithUncertainty"
  by (cases t) (auto simp: Let_def split: if_splits)

lemma version_no_timeout:
  "lc_closure (created_lifecycle e t r k now) \<noteq> ClosedWithUncertainty"
  "lc_closure lc \<noteq> ClosedWithUncertainty \<Longrightarrow> lc_closure (late_version lc e now) \<noteq> ClosedWithUncertainty"
  "lc_closure lc \<noteq> ClosedWithUncertainty \<Longrightarrow> lc_closure (updated_version lc e tier now) \<noteq> ClosedWithUncertainty"
  by (auto simp: late_version_def updated_version_def created_lifecycle_def or_else_def Let_def
      split: option.split prod.split dest: transition_no_timeout)

definition rows_no_timeouts :: "sqlite_store \<Rightarrow> bool" where
  "rows_no_timeouts l \<longleftrightarrow> (\<forall>r \<in> set (rows l). \<exists>lc. r = row_of lc \<and> lc_closure lc \<noteq> ClosedWithUncertainty)"

lemma get_row:
  assumes "sql_get l i = Some lc" "rows_no_timeouts l"
  shows "lc_closure lc \<noteq> ClosedWithUncertainty"
proof -
  obtain r where r: "find (\<lambda>r. row_id r = i) (rows l) = Some r" "deserialize_row (body_json r) = Some lc"
    using assms(1) by (auto simp: sql_get_def query_row_def opt_bind_def split: if_splits option.splits)
  then have "r \<in> set (rows l)" by (auto simp: find_Some_iff)
  then obtain l where "r = row_of l" "lc_closure l \<noteq> ClosedWithUncertainty" using assms(2) by (auto simp: rows_no_timeouts_def)
  with r(2) show ?thesis by (simp add: deserialize_row_def row_of_def)
qed

fun phase_no_timeout :: "apply_phase \<Rightarrow> bool" where
  "phase_no_timeout (Holding e now i tier lc) \<longleftrightarrow> lc_closure lc \<noteq> ClosedWithUncertainty"
| "phase_no_timeout _ \<longleftrightarrow> True"

lemma apply_no_timeouts:
  assumes n: "apply_next sql_ops a s = (a', s')" and a: "rows_no_timeouts s" "phase_no_timeout a"
  shows "rows_no_timeouts s' \<and> phase_no_timeout a'"
proof -
  have up: "rows_no_timeouts (sql_upsert lc s)" if "lc_closure lc \<noteq> ClosedWithUncertainty" for lc
    using upsert_rows [of lc s] a(1) that by (auto simp: rows_no_timeouts_def insert_or_replace_def)
  show ?thesis
  proof (cases "(sql_ops, a, s)" rule: apply_next.cases)
    case (2 _ e now i tier)
    then show ?thesis using n a(1) get_row [OF _ a(1), of i] by (auto simp: sql_ops_def split: option.splits)
  next
    case (3 _ e now t r b)
    then show ?thesis using n up [OF version_no_timeout(1)] by (auto simp: sql_ops_def Let_def)
  next
    case (5 _ e now i tier lc)
    then show ?thesis using n a(2) up version_no_timeout(2,3) by (auto simp: sql_ops_def split: if_splits)
  next
    case (6 _ e i)
    have "rows (sql_record_event e i s) = rows s" by (simp add: sql_record_event_def sql_next_def)
    with 6 show ?thesis using n a(1) by (auto simp: sql_ops_def rows_no_timeouts_def)
  qed (use n a in auto)
qed

lemma zero_interval_never_times_out:
  assumes "boot k c fresh t0 = Some s0" "system_run k c adm n lost s0 s" "dcf_staleness_scan_interval_secs c = 0"
  shows "no_timeouts (sql_get (d_lifecycles (sy_daemon s)))"
proof -
  have step: "rows_no_timeouts (rc_store y) \<and> phase_no_timeout (rc_apply y) \<and> rc_scan y = None"
    if "grain_step c adm x y" "rows_no_timeouts (rc_store x) \<and> phase_no_timeout (rc_apply x) \<and> rc_scan x = None" for x y
    using that
  proof (induction rule: grain_step.induct)
    case (grain_call a l a' l' sc)
    then show ?case using apply_no_timeouts [OF grain_call(1)] by simp
  qed (use assms(3) in \<open>auto simp: race_start_def rows_no_timeouts_def apply_begin_def\<close>)
  have "rows_no_timeouts (rc_store (grain_of s)) \<and> phase_no_timeout (rc_apply (grain_of s)) \<and> rc_scan (grain_of s) = None"
    using assms(2,1)
  proof (induction rule: system_run.induct)
    case (run_refl s)
    then show ?case by (simp add: boot_grain race_start_def rows_no_timeouts_def sql_open_in_memory_def)
  next
    case (run_step n lost s s1 l s2)
    then show ?case using step [OF step_grain [OF run_step.hyps(2)]] by blast
  qed
  then show ?thesis using get_row by (auto simp: no_timeouts_def grain_of_def)
qed

section \<open>A concrete run\<close>

lemma stamped_ids:
  "operation_id_of (e\<lparr>received_at := x\<rparr>) = operation_id_of e" "business_id (e\<lparr>received_at := x\<rparr>) = business_id e"
  "parent_of (e\<lparr>received_at := x\<rparr>) = parent_of e" "resource_id_of (e\<lparr>received_at := x\<rparr>) = resource_id_of e"
  "event_type (e\<lparr>received_at := x\<rparr>) = event_type e"
  by (simp_all add: operation_id_of_def business_id_def parent_of_def resource_id_of_def)

lemma correlate_stamped [simp]: "correlate ops s (e\<lparr>received_at := x\<rparr>) = correlate ops s e"
  unfolding correlate_def stamped_ids by (rule refl)

definition demo_config :: daemon_config where
  "demo_config = from_env (\<lambda>n. None)"

definition demo_key :: "byte list" where
  "demo_key = replicate 32 9"

text \<open>A client whose only event settles a payment.\<close>

definition settle_codecs :: codecs where
  "settle_codecs = demo_codecs\<lparr>co_event_of := \<lambda>j. Some (payment_event ''e1'' ''payment.settle'' ''t'' ''r1'')\<rparr>"

lemma demo_ok: "crypto_ok (co_crypto settle_codecs)" "json_text_ok (co_segments settle_codecs)" "length demo_key = 32"
  "dcf_max_record_bytes demo_config < 2 ^ 32" "log_config_of demo_config = log_config_defaults"
  using toy_crypto_ok numbered_text_ok
  by (simp_all add: settle_codecs_def demo_codecs_def demo_key_def demo_config_def from_env_def env_or_parse_def
      opt_bind_def log_config_of_def log_config_defaults_def)

lemma apply_stamped: "apply_event ops (e\<lparr>received_at := x\<rparr>) now s = apply_event ops e now s"
proof -
  have t: "transition_for ty (e\<lparr>received_at := x\<rparr>) = transition_for ty e" for ty by (cases ty) simp
  have "late_version lc (e\<lparr>received_at := x\<rparr>) now = late_version lc e now"
    "updated_version lc (e\<lparr>received_at := x\<rparr>) tier now = updated_version lc e tier now"
    "created_lifecycle (e\<lparr>received_at := x\<rparr>) ty r b now = created_lifecycle e ty r b now"
    "classify_late_event lc (e\<lparr>received_at := x\<rparr>) = classify_late_event lc e"
    "event_id (e\<lparr>received_at := x\<rparr>) = event_id e" for lc tier ty r b
    by (simp_all add: late_version_def updated_version_def created_lifecycle_def classify_late_event_def t)
  then show ?thesis unfolding apply_event_def correlate_stamped by (simp only:)
qed

text \<open>A connection that nothing else meets, for any number of its steps.\<close>

lemma conn_steps_run:
  assumes "sy_conns s = xs @ (d_conn (sy_daemon s), ph) # ys" "(conn_next k ^^ j) (ph, sy_engine s, sy_daemon s) = (ph', a', d')"
  shows "system_run k c (\<lambda>_ _. True) j 0 s (s\<lparr>sy_conns := xs @ (d_conn d', ph') # ys, sy_engine := a', sy_daemon := d'\<rparr>)"
  using assms(2)
proof (induction j arbitrary: ph' a' d')
  case 0
  then have "s\<lparr>sy_conns := xs @ (d_conn d', ph') # ys, sy_engine := a', sy_daemon := d'\<rparr> = s" using assms(1) by (cases s) auto
  then show ?case using run_refl [of k c _ s] by simp
next
  case (Suc j)
  obtain ph1 a1 d1 where 1: "(conn_next k ^^ j) (ph, sy_engine s, sy_daemon s) = (ph1, a1, d1)" by (metis prod_cases3)
  let ?s1 = "s\<lparr>sy_conns := xs @ (d_conn d1, ph1) # ys, sy_engine := a1, sy_daemon := d1\<rparr>"
  have n: "conn_next k (ph1, a1, d1) = (ph', a', d')" using Suc.prems 1 by simp
  have "system_step k c (\<lambda>_ _. True) 0 ?s1 (?s1\<lparr>sy_conns := xs @ (d_conn d', ph') # ys, sy_engine := a', sy_daemon := d'\<rparr>)"
    by (rule step_conn [where cn = "d_conn d1" and ph = ph1 and k = k]) (simp_all add: n)
  from run_step [OF Suc.IH [OF 1] this] show ?case by simp
qed

text \<open>So a frame that nothing else meets does to the daemon what \<open>ingest_one\<close> says.\<close>

lemma undisturbed_frame:
  assumes "sy_conns s = xs @ (cn, Reading) # ys" "sy_engine s = Idle" "d' = snd (ingest_one k st f ((sy_daemon s)\<lparr>d_conn := cn\<rparr>))"
  shows "\<exists>n. system_run k c (\<lambda>_ _. True) n 0 s (s\<lparr>sy_conns := xs @ (d_conn d', Reading) # ys, sy_daemon := d'\<rparr>)"
proof -
  let ?d = "(sy_daemon s)\<lparr>d_conn := cn\<rparr>"
  obtain ph d1 where b: "frame_begin k st f ?d = (ph, d1)" by fastforce
  obtain j where j: "(conn_next k ^^ j) (ph, Idle, d1) = (Reading, Idle, d')"
    using ingest_alone [of k st f ?d] b assms(3) unfolding iterates_def by auto
  let ?s1 = "s\<lparr>sy_conns := xs @ (d_conn d1, ph) # ys, sy_daemon := d1\<rparr>"
  have 1: "system_run k c (\<lambda>_ _. True) (Suc 0) (0 + 0) s ?s1" by (rule run_step [OF run_refl step_frame [OF assms(1) b]])
  have "system_run k c (\<lambda>_ _. True) j 0 ?s1 (?s1\<lparr>sy_conns := xs @ (d_conn d', Reading) # ys, sy_engine := Idle, sy_daemon := d'\<rparr>)"
    by (rule conn_steps_run [where ph = ph]) (simp_all add: j assms(2))
  from run_trans [OF this 1] show ?thesis using assms(2) by (intro exI [of _ "Suc 0 + j"]) (cases s; simp)
qed

text \<open>A daemon that has just started, with a connection that has read the frame of \<open>settle_codecs\<close>.\<close>

lemma settle_begins:
  assumes "current_level (d_governor d) = L0Normal"
  defines "e \<equiv> (payment_event ''e1'' ''payment.settle'' ''t'' ''r1'')\<lparr>received_at := rfc3339 (st_received_secs (demo_stamps 1)) (st_received_micros (demo_stamps 1))\<rparr>"
  shows "frame_begin settle_codecs (demo_stamps 1) [7] d = (Evidence (demo_stamps 1) False e [1, 2, 3], d)"
proof -
  have k: "co_from_slice settle_codecs [7] = Some JNull" "co_to_vec settle_codecs j = [1, 2, 3]"
    "co_event_of settle_codecs JNull = Some (payment_event ''e1'' ''payment.settle'' ''t'' ''r1'')" for j
    by (simp_all add: settle_codecs_def demo_codecs_def)
  have v: "validate (payment_event ''e1'' ''payment.settle'' ''t'' ''r1'') = Inr ()"
    by (simp add: payment_event_def demo_event_def SCHEMA_VERSION_def validate_def known_text_def known_actor_def
        RESERVED_UNKNOWN_TOKENS_def)
  show ?thesis using assms(1) by (simp add: frame_begin_def k v json_flag_def e_def Let_def)
qed

text \<open>The daemon after start, frame and append: the payload of the event is in flight.\<close>

definition midway :: "system \<Rightarrow> slog \<Rightarrow> system" where
  "midway s0 l = s0\<lparr>sy_conns := [(\<lparr>cn_bytes = [], cn_script = []\<rparr>, Commitment (demo_stamps 1) False
       ((payment_event ''e1'' ''payment.settle'' ''t'' ''r1'')\<lparr>received_at := rfc3339 (st_received_secs (demo_stamps 1)) (st_received_micros (demo_stamps 1))\<rparr>)
       [1, 2, 3])],
     sy_daemon := (sy_daemon s0)\<lparr>d_conn := \<lparr>cn_bytes = [], cn_script = []\<rparr>, d_log := l\<rparr>\<rparr>"

lemma demo_midway:
  obtains s0 l where "boot settle_codecs demo_config demo_key 0 = Some s0"
    "system_run settle_codecs demo_config (\<lambda>_ _. True) 3 0 s0 (midway s0 l)" "in_flight (midway s0 l) = [(''event'', [1, 2, 3])]"
    "sy_engine s0 = Idle" "sy_scan s0 = None" "d_lifecycles (sy_daemon s0) = sql_open_in_memory" "log_payloads l = [[1, 2, 3]]"
proof -
  let ?k = settle_codecs and ?c = demo_config and ?adm = "\<lambda>_ _. True"
  obtain d dd where d: "server_new ?k ?c demo_key 0 empty_dir = (Inr d, dd)"
    "logs_ok ?k demo_key (dcf_audit_records_per_segment ?c) (Suc 0) d [] ([], [])"
    "d_log d = slog_new log_config_defaults (disk_of [])" "d_governor d = governor_new gov_config_default 0"
    using first_start [OF demo_ok(1-4), of "Suc 0" 0] by (auto simp: demo_ok(5))
  let ?s0 = "serving d dd \<lparr>sp_present = False, sp_disk = disk_of []\<rparr>" and ?cn = "\<lparr>cn_bytes = [], cn_script = []\<rparr>"
  have b: "boot ?k ?c demo_key 0 = Some ?s0" using d(1) by (simp add: boot_def)
  have lc: "d_lifecycles d = sql_open_in_memory" using boot_grain [OF b] by (simp add: grain_of_def serving_def race_start_def)
  have lv: "current_level (d_governor (d\<lparr>d_conn := ?cn\<rparr>)) = L0Normal" by (simp add: d(4) governor_new_def current_level_def)
  let ?e = "(payment_event ''e1'' ''payment.settle'' ''t'' ''r1'')\<lparr>received_at := rfc3339 (st_received_secs (demo_stamps 1)) (st_received_micros (demo_stamps 1))\<rparr>"
  let ?s1 = "?s0\<lparr>sy_conns := [(?cn, Reading)]\<rparr>"
  let ?s2 = "?s0\<lparr>sy_conns := [(?cn, Evidence (demo_stamps 1) False ?e [1, 2, 3])], sy_daemon := d\<lparr>d_conn := ?cn\<rparr>\<rparr>"
  obtain rc l where la: "log_append [1, 2, 3] (d_log d) = (Inr rc, l)" using demo_log_append d(3) by auto
  have conns: "sy_conns ?s0 = []" "sy_stop ?s0 = Serving" "sy_daemon ?s0 = d" "sy_engine ?s0 = Idle" by (simp_all add: serving_def)
  have 1: "system_step ?k ?c ?adm 0 ?s0 ?s1" using step_connect [of ?s0 ?k ?c ?adm "[]"] conns by simp
  have "system_step ?k ?c ?adm 0 ?s1 (?s1\<lparr>sy_conns := [] @ (d_conn (d\<lparr>d_conn := ?cn\<rparr>), Evidence (demo_stamps 1) False ?e [1, 2, 3]) # [],
      sy_daemon := d\<lparr>d_conn := ?cn\<rparr>\<rparr>)"
    by (rule step_frame [where st = "demo_stamps 1" and f = "[7]"]) (use conns settle_begins [OF lv] in simp_all)
  then have 2: "system_step ?k ?c ?adm 0 ?s1 ?s2" by simp
  have n: "conn_next ?k (Evidence (demo_stamps 1) False ?e [1, 2, 3], Idle, d\<lparr>d_conn := ?cn\<rparr>) =
      (Commitment (demo_stamps 1) False ?e [1, 2, 3], Idle, d\<lparr>d_conn := ?cn, d_log := l\<rparr>)"
    using la by (simp add: on_log_def)
  have "system_step ?k ?c ?adm 0 ?s2 (?s2\<lparr>sy_conns := [] @ (d_conn (d\<lparr>d_conn := ?cn, d_log := l\<rparr>), Commitment (demo_stamps 1) False ?e [1, 2, 3]) # [],
      sy_engine := Idle, sy_daemon := d\<lparr>d_conn := ?cn, d_log := l\<rparr>\<rparr>)"
    by (rule step_conn [where cn = ?cn and ph = "Evidence (demo_stamps 1) False ?e [1, 2, 3]"]) (use conns n in simp_all)
  moreover have "?s2\<lparr>sy_conns := [] @ (d_conn (d\<lparr>d_conn := ?cn, d_log := l\<rparr>), Commitment (demo_stamps 1) False ?e [1, 2, 3]) # [],
      sy_engine := Idle, sy_daemon := d\<lparr>d_conn := ?cn, d_log := l\<rparr>\<rparr> = midway ?s0 l"
    by (simp add: midway_def serving_def)
  ultimately have 3: "system_step ?k ?c ?adm 0 ?s2 (midway ?s0 l)" by simp
  have r: "system_run ?k ?c ?adm 3 0 ?s0 (midway ?s0 l)"
    using run_step [OF run_step [OF run_step [OF run_refl 1] 2] 3] by (simp add: numeral_3_eq_3)
  have f: "in_flight (midway ?s0 l) = [(''event'', [1, 2, 3])]" by (simp add: in_flight_def midway_def serving_def)
  have "log_payloads l = log_payloads (d_log d) @ [[1, 2, 3]]"
    using append_part(2) [OF _ la, of 0] d(2) by (simp add: logs_ok_parts)
  then have p: "log_payloads l = [[1, 2, 3]]" by (simp add: d(3)) (simp add: log_payloads_def slog_new_def)
  show thesis by (rule that [OF b r f _ _ _ p]) (simp_all add: serving_def lc)
qed

text \<open>The same connection four steps later: the payload is committed and the payment settled.\<close>

lemma demo_run:
  obtains s0 s where "boot settle_codecs demo_config demo_key 0 = Some s0"
    "system_run settle_codecs demo_config (\<lambda>_ _. True) 7 0 s0 s" "d_lifecycles (sy_daemon s) = settled"
    "sy_scan s = None" "sy_engine s = Idle" "in_flight s = []" "log_payloads (d_log (sy_daemon s)) = [[1, 2, 3]]"
proof -
  let ?k = settle_codecs and ?st = "demo_stamps 1" and ?p = "payment_event ''e1'' ''payment.settle'' ''t'' ''r1''"
  let ?e = "?p\<lparr>received_at := rfc3339 (st_received_secs ?st) (st_received_micros ?st)\<rparr>"
  obtain s0 l where m: "boot ?k demo_config demo_key 0 = Some s0"
    "system_run ?k demo_config (\<lambda>_ _. True) 3 0 s0 (midway s0 l)"
    "sy_engine s0 = Idle" "sy_scan s0 = None" "d_lifecycles (sy_daemon s0) = sql_open_in_memory" "log_payloads l = [[1, 2, 3]]"
    using demo_midway by blast
  let ?d = "sy_daemon (midway s0 l)"
  have d: "d_log ?d = l" "d_lifecycles ?d = sql_open_in_memory" "d_conn ?d = \<lparr>cn_bytes = [], cn_script = []\<rparr>"
    "sy_engine (midway s0 l) = Idle" "sy_scan (midway s0 l) = None"
    "sy_conns (midway s0 l) = [(d_conn ?d, Commitment ?st False ?e [1, 2, 3])]"
    using m(3-5) by (simp_all add: midway_def)
  have d0: "d_audit ?d = d_audit (sy_daemon s0)" by (simp add: midway_def)
  have "logs_ok ?k demo_key (dcf_audit_records_per_segment demo_config) (Suc 0) (sy_daemon s0) [] ([], [])"
    using boot_logs(2) [OF m(1) demo_ok(1-4), of 1] by simp
  then have "audit_part ?k demo_key (dcf_audit_records_per_segment demo_config) (Suc 0) (d_audit ?d) [] ([], [])"
    by (simp add: logs_ok_parts d0)
  from observe_part [OF this demo_ok(1)] obtain w where
    w: "observe (co_crypto ?k) (co_segments ?k) (st_audit_us ?st) ''event'' [1, 2, 3] (d_audit ?d) = (Inr (), w)" by metis
  let ?d1 = "?d\<lparr>d_audit := w\<rparr>" and ?s = sql_open_in_memory
  let ?lc = "created_lifecycle ?e Payment (Some ''r1'') None 1"
  let ?s1 = "st_upsert sql_ops ?lc ?s" and ?s2 = "st_record_event sql_ops ''e1'' (lc_id ?lc) (st_upsert sql_ops ?lc ?s)"
  have "correlate sql_ops ?s ?p = New Payment (Some ''r1'') None"
    by (simp add: correlate_payment from_event_type_def starts_with_def)
  then have c: "correlate sql_ops ?s ?e = New Payment (Some ''r1'') None" unfolding correlate_stamped .
  have st: "st_apply_ms ?st = 1" "event_id ?e = ''e1''" by (simp_all add: demo_stamps_def)
  have 1: "conn_next ?k (Commitment ?st False ?e [1, 2, 3], Idle, ?d) = (Projecting ?st False ?e, Idle, ?d1)"
    using w by (simp add: on_audit_def)
  have 2: "conn_next ?k (Projecting ?st False ?e, Idle, ?d1) = (Applying ?st False ?e, Correlated ?e 1 (New Payment (Some ''r1'') None), ?d1)"
    using c by (simp add: apply_begin_def d(2) st(1))
  have 3: "conn_next ?k (Applying ?st False ?e, Correlated ?e 1 (New Payment (Some ''r1'') None), ?d1) =
      (Applying ?st False ?e, Binding ''e1'' (lc_id ?lc), ?d1\<lparr>d_lifecycles := ?s1\<rparr>)"
    by (simp add: d(2) st(2) Let_def)
  have 4: "conn_next ?k (Applying ?st False ?e, Binding ''e1'' (lc_id ?lc), ?d1\<lparr>d_lifecycles := ?s1\<rparr>) =
      (Detecting ?st False ?e (Some (lc_id ?lc)), Idle, ?d1\<lparr>d_lifecycles := ?s2\<rparr>)"
    by (simp add: Let_def)
  have four: "4 = Suc (Suc (Suc (Suc 0)))" by simp
  have "(conn_next ?k ^^ 4) (Commitment ?st False ?e [1, 2, 3], Idle, ?d) = (Detecting ?st False ?e (Some (lc_id ?lc)), Idle, ?d1\<lparr>d_lifecycles := ?s2\<rparr>)"
    unfolding four by (simp only: funpow_Suc_right funpow_0 comp_apply 1 2 3 4)
  then have "(conn_next ?k ^^ 4) (Commitment ?st False ?e [1, 2, 3], sy_engine (midway s0 l), ?d) =
      (Detecting ?st False ?e (Some (lc_id ?lc)), Idle, ?d1\<lparr>d_lifecycles := ?s2\<rparr>)" by (simp only: d(4))
  note run = conn_steps_run [where xs = "[]" and ys = "[]", simplified append_Nil, OF d(6) this, of demo_config]
  let ?t = "(midway s0 l)\<lparr>sy_conns := [(d_conn (?d1\<lparr>d_lifecycles := ?s2\<rparr>), Detecting ?st False ?e (Some (lc_id ?lc)))],
      sy_engine := Idle, sy_daemon := ?d1\<lparr>d_lifecycles := ?s2\<rparr>\<rparr>"
  have r: "system_run ?k demo_config (\<lambda>_ _. True) 7 0 s0 ?t" using run_trans [OF run m(2)] by simp
  have "settled = ?s2"
  proof -
    have "snd (apply_event sql_ops ?e 1 ?s) = ?s2" using c st(2) by (simp add: apply_event_def Let_def)
    then show ?thesis by (simp add: settled_def apply_stamped)
  qed
  then have "d_lifecycles (sy_daemon ?t) = settled" by simp
  moreover have "in_flight ?t = []" using boot_logs(4) [OF m(1) demo_ok(1-4), of 1] by (simp add: in_flight_def midway_def)
  ultimately show thesis using that [OF m(1) r] d(1,5) m(6) by simp
qed

theorem every_run_covered_witness:
  "\<exists>s0 s es. boot settle_codecs demo_config demo_key 0 = Some s0 \<and>
     system_run settle_codecs demo_config (\<lambda>_ _. True) 7 0 s0 s \<and> d_lifecycles (sy_daemon s) = settled \<and> in_flight s = [] \<and>
     log_payloads (d_log (sy_daemon s)) = [[1, 2, 3]] \<and> attests settle_codecs (sy_daemon s) es \<and> [1, 2, 3] \<in> set (map snd es)"
proof -
  obtain s0 s where r: "boot settle_codecs demo_config demo_key 0 = Some s0"
    "system_run settle_codecs demo_config (\<lambda>_ _. True) 7 0 s0 s" "d_lifecycles (sy_daemon s) = settled" "in_flight s = []"
    "log_payloads (d_log (sy_daemon s)) = [[1, 2, 3]]" using demo_run by metis
  from every_run_covered [OF demo_ok(1-4) r(1) run_refl r(2)] obtain es where es: "attests settle_codecs (sy_daemon s) es"
    "size (mset (log_payloads (d_log (sy_daemon s))) - mset (map snd (es @ in_flight s))) \<le> 0 + 0" by auto
  then have "{#[1, 2, 3]#} - mset (map snd es) = {#}" by (simp add: r(4,5))
  then have "[1, 2, 3] \<in># mset (map snd es)" by (simp add: Diff_eq_empty_iff_mset)
  then have "[1, 2, 3] \<in> set (map snd es)" by (simp only: set_mset_mset)
  with r es(1) show ?thesis by blast
qed

theorem crash_starts_again_witness:
  "\<exists>s0 s d dd. boot settle_codecs demo_config demo_key 0 = Some s0 \<and>
     system_run settle_codecs demo_config (\<lambda>_ _. True) 7 0 s0 s \<and>
     crash settle_codecs demo_config demo_key 5 (sy_daemon s) (sy_dir s) = (Inr d, dd) \<and> d_lifecycles d = settled"
proof -
  obtain s0 s where r: "boot settle_codecs demo_config demo_key 0 = Some s0"
    "system_run settle_codecs demo_config (\<lambda>_ _. True) 7 0 s0 s" "d_lifecycles (sy_daemon s) = settled"
    using demo_run by metis
  from crash_starts_again [OF demo_ok(1-4) r(1,2), of demo_key 5] r show ?thesis by auto
qed

text \<open>The daemon of \<open>demo_run\<close> is killed and starts again.\<close>

theorem closed_in_every_run_witness:
  "\<exists>s0 (s :: system) d dd lc late. boot settle_codecs demo_config demo_key 0 = Some s0 \<and> is_closed (lc_closure lc) \<and>
     sql_get (calm (d_lifecycles (sy_daemon s))) ''lc_e1'' = Some lc \<and>
     crash settle_codecs demo_config demo_key 5 (sy_daemon s) (sy_dir s) = (Inr d, dd) \<and>
     sql_get (calm (d_lifecycles d)) ''lc_e1'' = Some (lc\<lparr>late_events := late_events lc @ late\<rparr>)"
proof -
  let ?c = demo_config and ?k = settle_codecs
  obtain s0 s where r: "boot ?k ?c demo_key 0 = Some s0"
    "system_run ?k ?c (\<lambda>_ _. True) 7 0 s0 s" "d_lifecycles (sy_daemon s) = settled" "sy_scan s = None" "sy_engine s = Idle"
    using demo_run by metis
  note b = boot_logs [OF r(1) demo_ok(1-4), of 7]
  then have "logs_ok ?k demo_key (dcf_audit_records_per_segment ?c) (7 + 0) (sy_daemon s0) [] ([], [])" by simp
  from run_accounted [OF r(2) demo_ok(1,2,4) b(1) this] obtain segs a where "host_ready demo_key (sy_dir s)"
    "logs_ok ?k demo_key (dcf_audit_records_per_segment ?c) 0 (sy_daemon s) segs a" by auto
  with crash_logs [OF _ demo_ok(2) _ demo_ok(4), of demo_key 0 "sy_daemon s" segs a "sy_dir s" demo_key 5]
  obtain d dd where cr: "crash ?k ?c demo_key 5 (sy_daemon s) (sy_dir s) = (Inr d, dd)" by blast
  note again = run_step [OF run_refl step_start [OF cr refl], where adm = "spares ''lc_e1''"]
  let ?lc = "created_lifecycle (payment_event ''e1'' ''payment.settle'' ''t'' ''r1'') Payment (Some ''r1'') None 1"
  have lc: "sql_get (calm (d_lifecycles (sy_daemon s))) ''lc_e1'' = Some ?lc" "is_closed (lc_closure ?lc)" "\<not> menaced (grain_of s) ?lc"
    using settled_get r(3-5) by (simp_all add: sql_inv_calm [OF settled_ok(1)] grain_of_def menaced_def created_lifecycle_def or_else_def is_closed_def)
  from closed_in_every_run [OF r(1,2) again lc] obtain late where
    "sql_get (calm (d_lifecycles d)) ''lc_e1'' = Some (?lc\<lparr>late_events := late_events ?lc @ late\<rparr>)" by (auto simp: serving_def)
  with r(1) lc cr show ?thesis
    by (intro exI [of _ s0] exI [of _ s] exI [of _ d] exI [of _ dd] exI [of _ ?lc] exI [of _ late] conjI)
qed

end
