(* ===== verification/Concurrency.thy ===== *)
theory Concurrency
  imports System
begin

text \<open>
  Between the locks: every connection, the gap emitter, the spool collector and the shutdown append to the evidence
  log under one lock and commit to the audit chain under another, so others can come in between.
  What is in flight there is one step of its task away from its commitment, and the order of the
  commitments need not be that of the log.
\<close>

section \<open>Out of flight\<close>

text \<open>A commitment succeeds; it changes nothing but the audit chain.\<close>

lemma observe_commits:
  assumes "logs_ok k key m (Suc n) d segs a" "crypto_ok (co_crypto k)"
  obtains w segs' a' where "observe (co_crypto k) (co_segments k) us kind p (d_audit d) = (Inr (), w)"
    "trail a' = trail a @ [(kind, p)]" "\<And>d'. d_log d' = d_log d \<Longrightarrow> d_audit d' = w \<Longrightarrow> logs_ok k key m n d' segs' a'"
proof -
  have parts: "log_part n (d_log d)" "audit_part k key m (Suc n) (d_audit d) segs a"
    using assms(1) parts_less(1) by (auto simp: logs_ok_parts)
  from observe_part [OF parts(2) assms(2)] obtain w segs' a' where
    "observe (co_crypto k) (co_segments k) us kind p (d_audit d) = (Inr (), w)"
    "audit_part k key m n w segs' a'" "trail a' = trail a @ [(kind, p)]" .
  with parts(1) show thesis by (intro that [of w a' segs']) (simp_all add: logs_ok_parts)
qed

lemma frame_in_flight: "frame_flight ph \<noteq> [] \<Longrightarrow> \<exists>st w e p. ph = Commitment st w e p"
  by (cases ph) auto

lemma drain_in_flight: "drain_flight ph \<noteq> [] \<Longrightarrow> \<exists>us p clk x ls n xs i. ph = LossObserve us p clk x ls n xs i"
  by (cases ph) auto

lemma gap_in_flight: "gap_flight g \<noteq> [] \<Longrightarrow> \<exists>us p. g = GapObserve us p"
  by (cases g) auto

lemma stop_in_flight: "stop_flight t \<noteq> [] \<Longrightarrow> \<exists>us p. t = LastGap (GapObserve us p)"
  using gap_in_flight by (cases t) auto

text \<open>Whoever has a payload in flight takes one step.\<close>

lemma flight_step:
  assumes "in_flight s \<noteq> []" "logs_ok k key m (Suc n) (sy_daemon s) segs a" "crypto_ok (co_crypto k)"
  shows "\<exists>s' x segs' a'. system_step k c adm 0 s s' \<and> mset (in_flight s) = add_mset x (mset (in_flight s')) \<and>
    d_log (sy_daemon s') = d_log (sy_daemon s) \<and> logs_ok k key m n (sy_daemon s') segs' a' \<and> trail a' = trail a @ [x]"
proof -
  consider (conn) y where "y \<in> set (sy_conns s)" "frame_flight (snd y) \<noteq> []" | (gap) "gap_flight (sy_gap s) \<noteq> []"
    | (drain) "drain_flight (sy_drain s) \<noteq> []" | (stop) "stop_flight (sy_stop s) \<noteq> []"
    using assms(1) by (auto simp: in_flight_def)
  then show ?thesis
  proof cases
    case conn
    obtain xs ys cn ph where "sy_conns s = xs @ (cn, ph) # ys" "frame_flight ph \<noteq> []"
      using conn by (metis split_list prod.collapse)
    then obtain st w e p where c: "sy_conns s = xs @ (cn, Commitment st w e p) # ys" using frame_in_flight by blast
    obtain v segs' a' where o: "observe (co_crypto k) (co_segments k) (st_audit_us st) ''event'' p (d_audit (sy_daemon s)) = (Inr (), v)"
      "trail a' = trail a @ [(''event'', p)]" "\<And>d'. d_log d' = d_log (sy_daemon s) \<Longrightarrow> d_audit d' = v \<Longrightarrow> logs_ok k key m n d' segs' a'"
      by (rule observe_commits [OF assms(2,3)]) blast
    let ?d = "(sy_daemon s)\<lparr>d_conn := cn, d_audit := v\<rparr>"
    let ?s = "s\<lparr>sy_conns := xs @ (cn, Projecting st w e) # ys, sy_daemon := ?d\<rparr>"
    have "conn_next k (Commitment st w e p, sy_engine s, (sy_daemon s)\<lparr>d_conn := cn\<rparr>) = (Projecting st w e, sy_engine s, ?d)"
      using o(1) by (simp add: on_audit_def)
    from step_conn [OF c _ this, of adm c] have "system_step k c adm 0 s ?s" by (cases s) simp
    then show ?thesis using c o(2,3)
      by (intro exI [of _ ?s] exI [of _ "(''event'', p)"] exI [of _ segs'] exI [of _ a']) (simp add: in_flight_def)
  next
    case gap
    then obtain us p where g: "sy_gap s = GapObserve us p" using gap_in_flight by blast
    obtain v segs' a' where o: "observe (co_crypto k) (co_segments k) us ''coverage_gap'' p (d_audit (sy_daemon s)) = (Inr (), v)"
      "trail a' = trail a @ [(''coverage_gap'', p)]" "\<And>d'. d_log d' = d_log (sy_daemon s) \<Longrightarrow> d_audit d' = v \<Longrightarrow> logs_ok k key m n d' segs' a'"
      by (rule observe_commits [OF assms(2,3)]) blast
    have "gap_next k (sy_gap s, sy_daemon s) = (NoGap, (sy_daemon s)\<lparr>d_audit := v\<rparr>)" using o(1) by (simp add: g on_audit_def)
    from step_gap [OF this] show ?thesis using g o(2,3)
      by (intro exI [of _ "s\<lparr>sy_gap := NoGap, sy_daemon := (sy_daemon s)\<lparr>d_audit := v\<rparr>\<rparr>"] exI [of _ "(''coverage_gap'', p)"]
          exI [of _ segs'] exI [of _ a']) (simp add: in_flight_def)
  next
    case drain
    then obtain us p clk x ls j xs i where g: "sy_drain s = LossObserve us p clk x ls j xs i" using drain_in_flight by blast
    obtain v segs' a' where o: "observe (co_crypto k) (co_segments k) us ''coverage_gap'' p (d_audit (sy_daemon s)) = (Inr (), v)"
      "trail a' = trail a @ [(''coverage_gap'', p)]" "\<And>d'. d_log d' = d_log (sy_daemon s) \<Longrightarrow> d_audit d' = v \<Longrightarrow> logs_ok k key m n d' segs' a'"
      by (rule observe_commits [OF assms(2,3)]) blast
    have "drain_next k (sy_drain s, sy_spool s, sy_daemon s) = (Lines clk x ls (Suc j) xs i, sy_spool s, (sy_daemon s)\<lparr>d_audit := v\<rparr>)"
      using o(1) by (simp add: g on_audit_def)
    from step_drain [OF this] show ?thesis using g o(2,3)
      by (intro exI [of _ "s\<lparr>sy_drain := Lines clk x ls (Suc j) xs i, sy_spool := sy_spool s, sy_daemon := (sy_daemon s)\<lparr>d_audit := v\<rparr>\<rparr>"]
          exI [of _ "(''coverage_gap'', p)"] exI [of _ segs'] exI [of _ a']) (simp add: in_flight_def)
  next
    case stop
    then obtain us p where g: "sy_stop s = LastGap (GapObserve us p)" using stop_in_flight by blast
    obtain v segs' a' where o: "observe (co_crypto k) (co_segments k) us ''coverage_gap'' p (d_audit (sy_daemon s)) = (Inr (), v)"
      "trail a' = trail a @ [(''coverage_gap'', p)]" "\<And>d'. d_log d' = d_log (sy_daemon s) \<Longrightarrow> d_audit d' = v \<Longrightarrow> logs_ok k key m n d' segs' a'"
      by (rule observe_commits [OF assms(2,3)]) blast
    have "stop_next k True (sy_stop s, sy_daemon s) = (LastGap NoGap, (sy_daemon s)\<lparr>d_audit := v\<rparr>)" using o(1) by (simp add: g on_audit_def)
    from step_stop [OF _ this] show ?thesis using g o(2,3)
      by (intro exI [of _ "s\<lparr>sy_stop := LastGap NoGap, sy_daemon := (sy_daemon s)\<lparr>d_audit := v\<rparr>\<rparr>"] exI [of _ "(''coverage_gap'', p)"]
          exI [of _ segs'] exI [of _ a']) (simp add: in_flight_def)
  qed
qed

lemma flight_run:
  assumes "length (in_flight s) = j" "logs_ok k key m (j + n) (sy_daemon s) segs a" "crypto_ok (co_crypto k)"
  shows "\<exists>s' new segs' a'. system_run k c adm j 0 s s' \<and> in_flight s' = [] \<and> mset new = mset (in_flight s) \<and>
    d_log (sy_daemon s') = d_log (sy_daemon s) \<and> logs_ok k key m n (sy_daemon s') segs' a' \<and> trail a' = trail a @ new"
  using assms(1,2)
proof (induction j arbitrary: s segs a)
  case 0
  then show ?case using run_refl [of k c adm s]
    by (intro exI [of _ s] exI [of _ "[]"] exI [of _ segs] exI [of _ a]) simp
next
  case (Suc j)
  then have "in_flight s \<noteq> []" "logs_ok k key m (Suc (j + n)) (sy_daemon s) segs a" by auto
  from flight_step [OF this assms(3)] obtain s1 x segs1 a1 where 1: "system_step k c adm 0 s s1"
    "mset (in_flight s) = add_mset x (mset (in_flight s1))" "d_log (sy_daemon s1) = d_log (sy_daemon s)"
    "logs_ok k key m (j + n) (sy_daemon s1) segs1 a1" "trail a1 = trail a @ [x]" by blast
  have "length (in_flight s1) = j" using Suc.prems(1) arg_cong [OF 1(2), of size] by simp
  from Suc.IH [OF this 1(4)] obtain s2 new segs2 a2 where 2: "system_run k c adm j 0 s1 s2" "in_flight s2 = []"
    "mset new = mset (in_flight s1)" "d_log (sy_daemon s2) = d_log (sy_daemon s1)" "logs_ok k key m n (sy_daemon s2) segs2 a2"
    "trail a2 = trail a1 @ new" by blast
  have "system_run k c adm (Suc 0) (0 + 0) s s1" by (rule run_step [OF run_refl 1(1)])
  from run_trans [OF 2(1) this] have "system_run k c adm (Suc j) 0 s s2" by simp
  then show ?case using 1 2
    by (intro exI [of _ s2] exI [of _ "x # new"] exI [of _ segs2] exI [of _ a2]) simp
qed

text \<open>Claim C5 (nothing stays in flight): after every run of the daemon, at the grain of its locks and with whatever deaths, on disks that do not
  fail, one step of each task that has a payload in flight is enabled, commits to exactly that payload and
  loses nothing; after these steps, as many as payloads were in flight, nothing is in flight, the log is as
  it was, and all of its payloads but the lost ones have commitments of their own in the verified trail.\<close>

theorem in_flight_gets_committed:
  assumes "crypto_ok (co_crypto k)" "json_text_ok (co_segments k)" "length fresh = 32"
    and "dcf_max_record_bytes c < 2 ^ 32" "boot k c fresh t0 = Some s0"
    and "system_run k c adm n lost s0 s" "n + length (in_flight s) < 2 ^ 64 - 2"
  shows "\<exists>s' es new. system_run k c adm (length (in_flight s)) 0 s s' \<and> in_flight s' = [] \<and>
    d_log (sy_daemon s') = d_log (sy_daemon s) \<and>
    attests k (sy_daemon s) es \<and> attests k (sy_daemon s') (es @ new) \<and> mset new = mset (in_flight s) \<and>
    size (mset (log_payloads (d_log (sy_daemon s'))) - mset (map snd (es @ new))) \<le> lost"
proof -
  let ?m = "dcf_audit_records_per_segment c"
  note b = boot_logs [OF assms(5,1,2,3,4,7)]
  have "logs_ok k fresh ?m (n + (length (in_flight s) + 0)) (sy_daemon s0) [] ([], [])" using b(2) by simp
  from run_accounted [OF assms(6,1,2,4) b(1) this] obtain segs a where 1: "host_ready fresh (sy_dir s)"
    "logs_ok k fresh ?m (length (in_flight s) + 0) (sy_daemon s) segs a" "accounted s0 ([], []) s a lost" by blast
  from flight_run [OF refl 1(2) assms(1), of c adm] obtain s' new segs' a' where 2:
    "system_run k c adm (length (in_flight s)) 0 s s'" "in_flight s' = []" "mset new = mset (in_flight s)"
    "d_log (sy_daemon s') = d_log (sy_daemon s)" "logs_ok k fresh ?m 0 (sy_daemon s') segs' a'" "trail a' = trail a @ new"
    by blast
  obtain L where L: "size L \<le> lost"
    "mset (log_payloads (d_log (sy_daemon s))) \<subseteq># mset (map snd (trail a @ in_flight s)) + L"
    using 1(3) b(3,4) unfolding accounted_def by (auto simp: trail_def)
  have "mset (map snd (trail a @ in_flight s)) = mset (map snd (trail a @ new))" using 2(3) by simp
  with L(2) have "mset (log_payloads (d_log (sy_daemon s'))) - mset (map snd (trail a @ new)) \<subseteq># L"
    unfolding subset_eq_diff_conv 2(4) by (simp only: add.commute)
  then have "size (mset (log_payloads (d_log (sy_daemon s'))) - mset (map snd (trail a @ new))) \<le> lost"
    using L(1) size_mset_mono by (meson le_trans)
  then show ?thesis
    using 2 logs_ok_attests [OF 1(2) assms(2)] logs_ok_attests [OF 2(5) assms(2)]
    by (intro exI [of _ s'] exI [of _ "trail a"] exI [of _ new]) simp
qed

theorem in_flight_gets_committed_witness:
  "\<exists>s0 s s' es. boot settle_codecs demo_config demo_key 0 = Some s0 \<and>
     system_run settle_codecs demo_config (\<lambda>_ _. True) 3 0 s0 s \<and> in_flight s = [(''event'', [1, 2, 3])] \<and>
     system_run settle_codecs demo_config (\<lambda>_ _. True) 1 0 s s' \<and> in_flight s' = [] \<and>
     attests settle_codecs (sy_daemon s) es \<and> attests settle_codecs (sy_daemon s') (es @ [(''event'', [1, 2, 3])])"
proof -
  obtain s0 l where m: "boot settle_codecs demo_config demo_key 0 = Some s0"
    "system_run settle_codecs demo_config (\<lambda>_ _. True) 3 0 s0 (midway s0 l)" "in_flight (midway s0 l) = [(''event'', [1, 2, 3])]"
    using demo_midway by blast
  from in_flight_gets_committed [OF demo_ok(1-4) m(1,2)] m(3) obtain s' es new where c:
    "system_run settle_codecs demo_config (\<lambda>_ _. True) 1 0 (midway s0 l) s'" "in_flight s' = []"
    "attests settle_codecs (sy_daemon (midway s0 l)) es" "attests settle_codecs (sy_daemon s') (es @ new)"
    "mset new = {#(''event'', [1, 2, 3])#}" by auto
  then have "new = [(''event'', [1, 2, 3])]" by (metis mset_single_iff)
  with m c show ?thesis
    by (intro exI [of _ s0] exI [of _ "midway s0 l"] exI [of _ s'] exI [of _ es]) simp
qed

section \<open>The engine's lock\<close>

text \<open>The engine is busy exactly while one connection is at it, so no two events are applied at once.\<close>

definition applying :: "frame_phase \<Rightarrow> bool" where
  "applying ph \<longleftrightarrow> (\<exists>st w e. ph = Applying st w e)"

definition engine_held :: "system \<Rightarrow> bool" where
  "engine_held s \<longleftrightarrow> length (filter (applying \<circ> snd) (sy_conns s)) = (if sy_engine s = Idle then 0 else 1)"

lemma conn_next_applying:
  assumes "conn_next k (ph, a, d) = (ph', a', d')" "applying ph \<Longrightarrow> a \<noteq> Idle"
  shows "(if applying ph' then 1 else 0) + (if a = Idle then 0 else 1) = (if applying ph then 1 else 0) + (if a' = Idle then 0 else (1 :: nat))"
proof (cases "(k, ph, a, d)" rule: conn_next.cases)
  case (5 _ st w e _ _)
  then have "a \<noteq> Idle" using assms(2) by (simp add: applying_def)
  with 5 show ?thesis using assms(1) by (cases "apply_next sql_ops a (d_lifecycles d)") (auto simp: applying_def Let_def split: if_splits)
qed (use assms(1) in \<open>auto simp: applying_def apply_begin_def on_log_def on_audit_def split_def Let_def split: sum.splits list.splits if_splits\<close>)

lemma apply_lock_exclusive:
  assumes "system_run k c adm n lost s0 s" "boot k c fresh t0 = Some s0"
  shows "engine_held s"
  using assms
proof (induction rule: system_run.induct)
  case (run_refl s)
  then show ?case by (auto simp: boot_def serving_def engine_held_def split: prod.splits sum.splits)
next
  case (run_step n lost s s1 l s2)
  then have h: "engine_held s1" by blast
  from run_step.hyps(2) show ?case
  proof cases
    case (step_frame xs cn ys st f ph d')
    have "\<not> applying ph" using step_frame(4)
      by (auto simp: frame_begin_def applying_def Let_def split: if_splits option.splits sum.splits)
    then show ?thesis using h step_frame by (simp add: engine_held_def applying_def)
  next
    case (step_conn xs cn ph ys ph' a' d')
    have "applying ph \<Longrightarrow> sy_engine s1 \<noteq> Idle" using h step_conn(3) by (auto simp: engine_held_def split: if_splits)
    from conn_next_applying [OF step_conn(5) this] show ?thesis using h step_conn(2,3)
      by (auto simp: engine_held_def split: if_splits)
  next
    case (step_start fresh t0 d' dd')
    then show ?thesis by (simp add: engine_held_def serving_def)
  qed (use h in \<open>auto simp: engine_held_def applying_def\<close>)
qed

section \<open>Order\<close>

lemma conn_stepI:
  assumes "sy_conns s = xs @ (cn, ph) # ys" "\<And>st w e. ph \<noteq> Projecting st w e"
    and "conn_next k (ph, sy_engine s, (sy_daemon s)\<lparr>d_conn := cn\<rparr>) = (ph', sy_engine s, d')"
    and "s' = s\<lparr>sy_conns := xs @ (d_conn d', ph') # ys, sy_daemon := d'\<rparr>"
  shows "system_step k c adm 0 s s'"
proof -
  have "s' = s\<lparr>sy_conns := xs @ (d_conn d', ph') # ys, sy_engine := sy_engine s, sy_daemon := d'\<rparr>"
    using assms(4) by (cases s) simp
  then show ?thesis using step_conn [OF assms(1) _ assms(3), of adm c] assms(2) by blast
qed

text \<open>The order is not kept: of two connections the one that appends later can be committed first.\<close>

lemma interleaving_reorders:
  assumes "crypto_ok (co_crypto k)" "logs_ok k key m (Suc (Suc (Suc (Suc 0)))) (sy_daemon s) segs a"
    and "sy_conns s = [(cn1, Evidence st1 w1 e1 p), (cn2, Evidence st2 w2 e2 q)]"
    and "log_append p (d_log (sy_daemon s)) = (Inr r1, l1)" "log_append q l1 = (Inr r2, l2)"
  shows "\<exists>s' segs' a'. system_run k c adm 4 0 s s' \<and> logs_ok k key m 0 (sy_daemon s') segs' a' \<and>
    log_payloads (d_log (sy_daemon s')) = log_payloads (d_log (sy_daemon s)) @ [p, q] \<and>
    trail a' = trail a @ [(''event'', q), (''event'', p)]"
proof -
  let ?d = "sy_daemon s" and ?a = "sy_engine s" and ?ev = "''event''"
  have parts: "log_part (Suc (Suc (Suc (Suc 0)))) (d_log ?d)" "audit_part k key m (Suc (Suc 0)) (d_audit ?d) segs a"
    using assms(2) by (auto simp: logs_ok_parts audit_part_def)
  note a1 = append_part [OF parts(1) assms(4)]
  note a2 = append_part [OF a1(1) assms(5)]
  obtain v1 g1 b1 where 1: "observe (co_crypto k) (co_segments k) (st_audit_us st2) ?ev q (d_audit ?d) = (Inr (), v1)"
    "audit_part k key m (Suc 0) v1 g1 b1" "trail b1 = trail a @ [(?ev, q)]"
    by (rule observe_part [OF parts(2) assms(1)])
  obtain v2 g2 b2 where 2: "observe (co_crypto k) (co_segments k) (st_audit_us st1) ?ev p v1 = (Inr (), v2)"
    "audit_part k key m 0 v2 g2 b2" "trail b2 = trail b1 @ [(?ev, p)]"
    by (rule observe_part [OF 1(2) assms(1)])
  let ?d1 = "?d\<lparr>d_conn := cn1, d_log := l1\<rparr>" and ?d2 = "?d\<lparr>d_conn := cn2, d_log := l2\<rparr>"
  let ?d3 = "?d\<lparr>d_conn := cn2, d_log := l2, d_audit := v1\<rparr>" and ?d4 = "?d\<lparr>d_conn := cn1, d_log := l2, d_audit := v2\<rparr>"
  let ?s1 = "s\<lparr>sy_conns := [(cn1, Commitment st1 w1 e1 p), (cn2, Evidence st2 w2 e2 q)], sy_daemon := ?d1\<rparr>"
  let ?s2 = "s\<lparr>sy_conns := [(cn1, Commitment st1 w1 e1 p), (cn2, Commitment st2 w2 e2 q)], sy_daemon := ?d2\<rparr>"
  let ?s3 = "s\<lparr>sy_conns := [(cn1, Commitment st1 w1 e1 p), (cn2, Projecting st2 w2 e2)], sy_daemon := ?d3\<rparr>"
  let ?s4 = "s\<lparr>sy_conns := [(cn1, Projecting st1 w1 e1), (cn2, Projecting st2 w2 e2)], sy_daemon := ?d4\<rparr>"
  have r1: "system_step k c adm 0 s ?s1"
    by (rule conn_stepI [where xs = "[]" and ys = "[(cn2, Evidence st2 w2 e2 q)]" and cn = cn1 and d' = ?d1
        and ph = "Evidence st1 w1 e1 p" and ph' = "Commitment st1 w1 e1 p"])
      (simp_all add: assms(3,4) on_log_def)
  have r2: "system_step k c adm 0 ?s1 ?s2"
    by (rule conn_stepI [where xs = "[(cn1, Commitment st1 w1 e1 p)]" and ys = "[]" and cn = cn2 and d' = ?d2
        and ph = "Evidence st2 w2 e2 q" and ph' = "Commitment st2 w2 e2 q"])
      (simp_all add: assms(5) on_log_def)
  have r3: "system_step k c adm 0 ?s2 ?s3"
    by (rule conn_stepI [where xs = "[(cn1, Commitment st1 w1 e1 p)]" and ys = "[]" and cn = cn2 and d' = ?d3
        and ph = "Commitment st2 w2 e2 q" and ph' = "Projecting st2 w2 e2"])
      (simp_all add: 1(1) on_audit_def)
  have r4: "system_step k c adm 0 ?s3 ?s4"
    by (rule conn_stepI [where xs = "[]" and ys = "[(cn2, Projecting st2 w2 e2)]" and cn = cn1 and d' = ?d4
        and ph = "Commitment st1 w1 e1 p" and ph' = "Projecting st1 w1 e1"])
      (simp_all add: 2(1) on_audit_def)
  have "system_run k c adm 4 0 s ?s4"
    using run_step [OF run_step [OF run_step [OF run_step [OF run_refl r1] r2] r3] r4] by (simp add: eval_nat_numeral)
  moreover have "logs_ok k key m 0 (sy_daemon ?s4) g2 b2" using a2(1) 2(2) by (simp add: logs_ok_parts log_part_def)
  ultimately show ?thesis using a1(2) a2(2) 1(3) 2(3)
    by (intro exI [of _ ?s4] exI [of _ g2] exI [of _ b2]) simp
qed

end
