(* ===== verification/Cli.thy ===== *)
theory Cli
  imports Server
begin

text \<open>
  \<^verbatim>\<open>daemon/crates/athar-cli/src/main.rs\<close>: the operator's command line.  A command gets its
  arguments and the host and gives an exit code, the lines it prints and the host it leaves (opening a
  store creates what is missing).  The host is what the paths hold and what answers on the network;
  non-ASCII punctuation in the messages is its UTF-8 bytes.
\<close>

section \<open>The host\<close>

text \<open>A directory with its files, a regular file, or a SQLite database with the tables of either store.
  Parent directories that opening creates on the way are not recorded.\<close>

datatype node = DirNode disk | FileNode "byte list" | DbNode "sqlite_store option" "decision_store option"

text \<open>What the network has at an address: no resolution, no address, no connection (each with the text of the
  error), or a peer: the errors of the two writes, what it sends back, and the error text of a read
  that gets too little.\<close>

record peer =
  pr_header_error :: "string option"
  pr_body_error :: "string option"
  pr_reply :: "byte list \<Rightarrow> byte list"
  pr_read_error :: string

datatype net = Unresolved string | NoAddress | Unreachable string | Reached peer

record host =
  h_node :: "string \<Rightarrow> node option"
  h_can_create :: "string \<Rightarrow> bool"
  h_can_open :: "string \<Rightarrow> bool"
  h_net :: "string \<Rightarrow> net"

text \<open>Code that is not the program's: texts of errors and serde's text forms.\<close>

record cli_ctx =
  cx_codecs :: codecs
  cx_show_persist :: "persist_error \<Rightarrow> string"
  cx_show_open :: "string \<Rightarrow> string"
  cx_show_read :: "string \<Rightarrow> string"
  cx_show_json :: "byte list \<Rightarrow> string"
  cx_show_utf8 :: "byte list \<Rightarrow> string"
  cx_lifecycle_json :: "lifecycle \<Rightarrow> string + string"
  cx_lifecycle_pretty :: "lifecycle \<Rightarrow> string + string"
  cx_decision_json :: "decision_record \<Rightarrow> string + string"
  cx_decision_pretty :: "decision_record \<Rightarrow> string + string"
  cx_json_pretty :: "json \<Rightarrow> string + string"
  cx_json_text :: "json \<Rightarrow> string"

datatype line = Out string | Err string

type_synonym command = "cli_ctx \<Rightarrow> string list \<Rightarrow> host \<Rightarrow> nat \<times> line list \<times> host"

definition path_exists :: "host \<Rightarrow> string \<Rightarrow> bool" where
  "path_exists h p \<longleftrightarrow> h_node h p \<noteq> None"

definition is_dir :: "host \<Rightarrow> string \<Rightarrow> bool" where
  "is_dir h p \<longleftrightarrow> (case h_node h p of Some (DirNode d) \<Rightarrow> True | _ \<Rightarrow> False)"

definition put_node :: "string \<Rightarrow> node \<Rightarrow> host \<Rightarrow> host" where
  "put_node p n h = h\<lparr>h_node := (h_node h)(p \<mapsto> n)\<rparr>"

text \<open>\<open>SegmentStore::open\<close> creates the directory.\<close>

definition open_segments :: "string \<Rightarrow> host \<Rightarrow> (persist_error, disk) result \<times> host" where
  "open_segments p h = (case h_node h p of
      None \<Rightarrow> if h_can_create h p then (Inr (disk_of []), put_node p (DirNode (disk_of [])) h)
        else (Inl (PIo IoError), h)
    | Some (DirNode d) \<Rightarrow> (case store_open d of
        (Inr u, d') \<Rightarrow> (Inr d', put_node p (DirNode d') h) | (Inl e, d') \<Rightarrow> (Inl e, put_node p (DirNode d') h))
    | Some n \<Rightarrow> (Inl (PIo IoError), h))"

text \<open>The two stores' \<open>open\<close>: SQLite creates an absent or empty file, and the schema adds missing tables.\<close>

definition open_lifecycles :: "string \<Rightarrow> host \<Rightarrow> sqlite_store option \<times> host" where
  "open_lifecycles p h =
     (let fresh = (\<lambda>ds. if h_can_create h p then (Some sql_open_in_memory, put_node p (DbNode (Some sql_open_in_memory) ds) h)
                        else (None, h))
      in case h_node h p of
        None \<Rightarrow> fresh None
      | Some (FileNode []) \<Rightarrow> fresh None
      | Some (DbNode None ds) \<Rightarrow> fresh ds
      | Some (DbNode (Some s) ds) \<Rightarrow> if h_can_open h p then (Some s, h) else (None, h)
      | Some n \<Rightarrow> (None, h))"

definition open_decisions :: "string \<Rightarrow> host \<Rightarrow> decision_store option \<times> host" where
  "open_decisions p h =
     (let fresh = (\<lambda>s. if h_can_create h p then (Some dec_open_in_memory, put_node p (DbNode s (Some dec_open_in_memory)) h)
                       else (None, h))
      in case h_node h p of
        None \<Rightarrow> fresh None
      | Some (FileNode []) \<Rightarrow> fresh None
      | Some (DbNode s None) \<Rightarrow> fresh s
      | Some (DbNode s (Some ds)) \<Rightarrow> if h_can_open h p then (Some ds, h) else (None, h)
      | Some n \<Rightarrow> (None, h))"

text \<open>A whole file: its bytes, when it is a file that can be read.\<close>

definition read_file :: "host \<Rightarrow> string \<Rightarrow> byte list option" where
  "read_file h p = (case h_node h p of Some (FileNode c) \<Rightarrow> if h_can_open h p then Some c else None | _ \<Rightarrow> None)"

text \<open>\<open>read_to_string\<close>, with the text of its error.\<close>

definition read_text :: "cli_ctx \<Rightarrow> host \<Rightarrow> string \<Rightarrow> string + byte list" where
  "read_text cx h p = (case read_file h p of
      None \<Rightarrow> Inl (cx_show_read cx p)
    | Some c \<Rightarrow> if utf8_ok c then Inr c else Inl (cx_show_utf8 cx c))"

definition config_or_default :: "cli_ctx \<Rightarrow> host \<Rightarrow> string \<Rightarrow> detection_config" where
  "config_or_default cx h p = (case read_text cx h p of
      Inl e \<Rightarrow> detection_config_default
    | Inr text \<Rightarrow> (case parse_config (co_segments (cx_codecs cx)) text of
        None \<Rightarrow> detection_config_default | Some cfg \<Rightarrow> cfg))"

section \<open>Arguments and formatting\<close>

fun flag_value :: "string list \<Rightarrow> string \<Rightarrow> string option" where
  "flag_value [] flag = None"
| "flag_value (a # r) flag = (if a = flag then (case r of [] \<Rightarrow> None | v # _ \<Rightarrow> Some v) else flag_value r flag)"

definition u16_parse :: "string \<Rightarrow> nat option" where
  "u16_parse s = opt_bind (parse_decimal s) (\<lambda>n. if n < 2 ^ 16 then Some n else None)"

definition host_arg :: "string list \<Rightarrow> string" where
  "host_arg rest = (case flag_value rest ''--host'' of None \<Rightarrow> ''127.0.0.1'' | Some v \<Rightarrow> v)"

definition port_arg :: "string list \<Rightarrow> nat" where
  "port_arg rest = (case opt_bind (flag_value rest ''--port'') u16_parse of None \<Rightarrow> 11223 | Some p \<Rightarrow> p)"

definition address :: "string \<Rightarrow> nat \<Rightarrow> string" where
  "address h p = h @ '':'' @ dec_str p"

text \<open>The first adjacent pair of arguments that starts with the flag.\<close>

definition limit_arg :: "string list \<Rightarrow> nat" where
  "limit_arg rest = (case opt_bind (find (\<lambda>w. fst w = ''--limit'') (zip rest (tl rest))) (\<lambda>w. parse_decimal (snd w)) of
     None \<Rightarrow> 20 | Some n \<Rightarrow> n)"

definition string_length :: "string \<Rightarrow> nat" where
  "string_length s = length (filter (\<lambda>c. \<not> (128 \<le> (of_char c :: nat) \<and> (of_char c :: nat) < 192)) s)"

definition pad_right :: "nat \<Rightarrow> string \<Rightarrow> string" where
  "pad_right n s = s @ replicate (n - string_length s) CHR '' ''"

definition pad_left :: "nat \<Rightarrow> string \<Rightarrow> string" where
  "pad_left n s = replicate (n - string_length s) CHR '' '' @ s"

definition zero_pad :: "nat \<Rightarrow> string \<Rightarrow> string" where
  "zero_pad n s = replicate (n - length s) CHR ''0'' @ s"

definition or_dash :: "string option \<Rightarrow> string" where
  "or_dash x = (case x of None \<Rightarrow> ''-'' | Some s \<Rightarrow> s)"

fun bool_str :: "bool \<Rightarrow> string" where
  "bool_str True = ''true''"
| "bool_str False = ''false''"

definition EM_DASH :: string where
  "EM_DASH = [char_of (226 :: nat), char_of (128 :: nat), char_of (148 :: nat)]"

text \<open>\<open>Debug\<close> of a string and of a list of strings; bytes of non-ASCII characters are printed as they are.\<close>

definition debug_char :: "char \<Rightarrow> string" where
  "debug_char c = (let n = (of_char c :: nat) in
     if n = 34 then [char_of (92 :: nat), c] else if n = 92 then [c, c]
     else if n = 9 then [char_of (92 :: nat), CHR ''t''] else if n = 10 then [char_of (92 :: nat), CHR ''n'']
     else if n = 13 then [char_of (92 :: nat), CHR ''r''] else if n = 0 then [char_of (92 :: nat), CHR ''0'']
     else if n < 16 then [char_of (92 :: nat)] @ ''u{'' @ [digit_char n] @ ''}''
     else if n < 32 \<or> n = 127 then [char_of (92 :: nat)] @ ''u{'' @ [digit_char (n div 16), digit_char (n mod 16)] @ ''}''
     else [c])"

definition debug_str :: "string \<Rightarrow> string" where
  "debug_str s = [char_of (34 :: nat)] @ concat (map debug_char s) @ [char_of (34 :: nat)]"

definition debug_list :: "string list \<Rightarrow> string" where
  "debug_list ss = ''['' @ join '', '' (map debug_str ss) @ '']''"

section \<open>Usage and audit\<close>

definition usage_text :: "string list" where
  "usage_text = [
     ''athar CLI (V0 subset)'',
     [],
     ''SUBCOMMANDS:'',
     ''  audit verify <segments-dir>'',
     ''      Verify every audit segment; report exact record index of any break.'',
     [],
     ''  lifecycle list <state-db> [--open] [--json]'',
     ''      List lifecycles. Default: id, type, state, closure, started, last_event.'',
     ''      --open : show only Open lifecycles.'',
     ''      --json : one lifecycle per line as JSON.'',
     [],
     ''  lifecycle show <state-db> <lifecycle-id> [--json]'',
     ''      Show one lifecycle. --json prints the full body.'',
     [],
     ''  decision recent <decisions-db> [--limit N] [--json]'',
     ''      Show the N most recent decisions (default 20).'',
     [],
     ''  decision show <decisions-db> <decision-id>'',
     ''      Show one decision record with all signals, reason codes, and explanation.'',
     [],
     ''  policy show <path>'',
     ''      Show the effective policy configuration. `<path>` is either a policies.json'',
     ''      file directly or a data-dir (in which case config/policies.json inside it'',
     ''      is read). Missing / malformed '' @ ARROW @ '' defaults are shown, with a note.'',
     [],
     ''  policy validate <policies.json>'',
     ''      Parse and structurally validate a policies.json. Exits 0 on valid, 1 on'',
     ''      any parse error (with the specific error message).'',
     [],
     ''  doctor <data-dir> [--host 127.0.0.1] [--port 11223] [--deep]'',
     ''      End-to-end install health check. Verifies: data-dir exists, segment'',
     ''      store readable, audit chain verifies, lifecycles + decisions DBs open,'',
     ''      policies.json parseable, daemon TCP port reachable. With `--deep`,'',
     ''      also queries the daemon's live status endpoint and validates the'',
     ''      response shape (proves the daemon is not just accepting connections'',
     ''      but actively serving). Exits 0 if every check passes, 1 if any fails.'',
     [],
     ''  status [--host 127.0.0.1] [--port 11223] [--json]'',
     ''      Query a running daemon for a live status snapshot: pressure level,'',
     ''      pending drops, total lifecycle / decision / signal counts, daemon'',
     ''      version. Fails if the daemon is unreachable or returns malformed'',
     ''      data. `--json` emits the raw JSON body.'',
     [],
     ''The state database is typically at <data-dir>/state/lifecycles.db.'',
     ''The decisions database is typically at <data-dir>/state/decisions.db.'',
     ''The policy config is typically at <data-dir>/config/policies.json.'', []]"

text \<open>Help goes to the standard output, a wrong call to the error output.\<close>

definition usage :: "nat \<Rightarrow> host \<Rightarrow> nat \<times> line list \<times> host" where
  "usage code h = (code, map (if code = 0 then Out else Err) usage_text, h)"

definition verify_at :: "cli_ctx \<Rightarrow> string \<Rightarrow> disk \<Rightarrow> host \<Rightarrow> (persist_error, verify_report) result \<times> host" where
  "verify_at cx p d h = (case verify_all (co_crypto (cx_codecs cx)) (co_segments (cx_codecs cx)) d of
     (r, d') \<Rightarrow> (r, put_node p (DirNode d') h))"

definition cmd_audit_verify :: command where
  "cmd_audit_verify cx rest h = (case rest of
      [] \<Rightarrow> (2, [Err ''usage: athar audit verify <audit-segments-dir>''], h)
    | dir # _ \<Rightarrow> (case open_segments dir h of
        (Inl e, h) \<Rightarrow> (1, [Err (''cannot open segment store at '' @ dir @ '': '' @ cx_show_persist cx e)], h)
      | (Inr d, h) \<Rightarrow> (case verify_at cx dir d h of
          (Inr report, h) \<Rightarrow> (0, [Out (''OK: '' @ dec_str (segments_verified report) @ '' segment(s), '' @
             dec_str (records_verified report) @ '' record(s) verified'')], h)
        | (Inl e, h) \<Rightarrow> (1, [Err (''VERIFY FAILED: '' @ cx_show_persist cx e)], h))))"

section \<open>Lifecycles\<close>

definition lifecycle_header :: string where
  "lifecycle_header = pad_right 44 ''id'' @ '' '' @ pad_right 10 ''type'' @ '' '' @ pad_right 20 ''state'' @ '' '' @
     pad_right 24 ''closure'' @ '' '' @ pad_left 13 ''started_ms'' @ '' '' @ pad_left 13 ''last_event_ms''"

definition lifecycle_line :: "lifecycle \<Rightarrow> string" where
  "lifecycle_line lc = pad_right 44 (lc_id lc) @ '' '' @ pad_right 10 (lct_str (lc_type lc)) @ '' '' @
     pad_right 20 (state_str (lc_state lc)) @ '' '' @ pad_right 24 (closure_str (lc_closure lc)) @ '' '' @
     pad_left 13 (u_str (started_at_ms lc)) @ '' '' @ pad_left 13 (u_str (last_event_at_ms lc))"

definition json_line :: "string + string \<Rightarrow> line" where
  "json_line r = (case r of Inr s \<Rightarrow> Out s | Inl e \<Rightarrow> Err (''serialize failed: '' @ e))"

definition print_list :: "cli_ctx \<Rightarrow> lifecycle list \<Rightarrow> bool \<Rightarrow> line list" where
  "print_list cx lcs as_json =
     (if as_json then map (\<lambda>lc. json_line (cx_lifecycle_json cx lc)) lcs
      else Out lifecycle_header # map (Out \<circ> lifecycle_line) lcs)"

definition cannot_open :: "cli_ctx \<Rightarrow> string \<Rightarrow> string \<Rightarrow> line" where
  "cannot_open cx what db = Err (''cannot open '' @ what @ '' db '' @ db @ '': '' @ cx_show_open cx db)"

definition cmd_lifecycle_list :: command where
  "cmd_lifecycle_list cx rest h = (case rest of
      [] \<Rightarrow> (2, [Err ''usage: athar lifecycle list <state-db> [--open] [--json]''], h)
    | db # _ \<Rightarrow>
        let only_open = ''--open'' \<in> set rest; as_json = ''--json'' \<in> set rest in
        (case open_lifecycles db h of
           (None, h) \<Rightarrow> (1, [cannot_open cx ''state'' db], h)
         | (Some s, h) \<Rightarrow>
             let lcs = sql_all_open s in
             (0, (if only_open then [] else [Out (''(showing '' @ dec_str (length lcs) @ '' open of '' @
                dec_str (sql_count s) @ '' total; use --open to filter)'')]) @ print_list cx lcs as_json, h)))"

definition event_line :: "lifecycle \<Rightarrow> nat \<Rightarrow> string \<Rightarrow> string" where
  "event_line lc i ev =
     (let tier = (if i < length (tiers lc) then tiers lc ! i else TierUnknown) in
      ''  #'' @ zero_pad 3 (dec_str i) @ '' '' @ ev @ '' (tier: '' @ tier_str tier @ '', conf: '' @
      float_fixed2 (round32 (Fract (int (tier_confidence tier)) 100)) @ '')'')"

definition late_line :: "late_event \<Rightarrow> string" where
  "late_line le = ''  LATE '' @ le_event_id le @ '' ('' @ le_event_type le @ '') -> '' @ late_str (late_class le) @
     '' at '' @ u_str (arrived_at_ms le)"

definition lifecycle_lines :: "lifecycle \<Rightarrow> string list" where
  "lifecycle_lines lc = [
     ''id            : '' @ lc_id lc,
     ''tenant_id     : '' @ lc_tenant_id lc,
     ''type          : '' @ lct_str (lc_type lc),
     ''business_key  : '' @ or_dash (business_key lc),
     ''resource_id   : '' @ or_dash (lc_resource_id lc),
     ''state         : '' @ state_str (lc_state lc),
     ''closure       : '' @ closure_str (lc_closure lc),
     ''started_at_ms : '' @ u_str (started_at_ms lc),
     ''last_event_ms : '' @ u_str (last_event_at_ms lc),
     ''closed_at_ms  : '' @ or_dash (map_option u_str (closed_at_ms lc)),
     ''events        : '' @ dec_str (length (event_ids lc)) @ '' ('' @ dec_str (length (tiers lc)) @ '' tiers)'',
     ''late_events   : '' @ dec_str (length (late_events lc))] @
     map (\<lambda>(i, ev). event_line lc i ev) (enumerate 0 (event_ids lc)) @ map late_line (late_events lc)"

text \<open>A record shown as pretty JSON or as text.\<close>

definition show_record :: "bool \<Rightarrow> string + string \<Rightarrow> string list \<Rightarrow> host \<Rightarrow> nat \<times> line list \<times> host" where
  "show_record as_json pretty lines h =
     (if as_json then (case pretty of Inr s \<Rightarrow> (0, [Out s], h) | Inl e \<Rightarrow> (1, [Err (''serialize failed: '' @ e)], h))
      else (0, map Out lines, h))"

definition cmd_lifecycle_show :: command where
  "cmd_lifecycle_show cx rest h = (case rest of
      db # i # _ \<Rightarrow>
        (case open_lifecycles db h of
           (None, h) \<Rightarrow> (1, [cannot_open cx ''state'' db], h)
         | (Some s, h) \<Rightarrow> (case sql_get s i of
               None \<Rightarrow> (1, [Err (''not found: '' @ i)], h)
             | Some lc \<Rightarrow> show_record (''--json'' \<in> set rest) (cx_lifecycle_pretty cx lc) (lifecycle_lines lc) h))
    | _ \<Rightarrow> (2, [Err ''usage: athar lifecycle show <state-db> <id> [--json]''], h))"

section \<open>Decisions\<close>

definition decision_header :: string where
  "decision_header = pad_right 44 ''decision_id'' @ '' '' @ pad_right 8 ''action'' @ '' '' @ pad_right 10 ''mode'' @ '' '' @
     pad_left 16 ''timestamp_ms'' @ '' '' @ pad_right 20 ''event_id''"

definition decision_line :: "decision_record \<Rightarrow> string" where
  "decision_line d = pad_right 44 (dr_decision_id d) @ '' '' @ pad_right 8 (action_str (dr_action d)) @ '' '' @
     pad_right 10 (mode_str (dr_mode d)) @ '' '' @ pad_left 16 (u_str (dr_timestamp_ms d)) @ '' '' @
     pad_right 20 (ds_event_id (dr_subject d))"

definition cmd_decision_recent :: command where
  "cmd_decision_recent cx rest h = (case rest of
      [] \<Rightarrow> (2, [Err ''usage: athar decision recent <decisions-db> [--limit N] [--json]''], h)
    | db # _ \<Rightarrow>
        (case open_decisions db h of
           (None, h) \<Rightarrow> (1, [cannot_open cx ''decisions'' db], h)
         | (Some s, h) \<Rightarrow>
             let ds = recent_decisions (co_decisions (cx_codecs cx)) s (of_nat (limit_arg rest)) in
             (0, if ''--json'' \<in> set rest then map (\<lambda>d. json_line (cx_decision_json cx d)) ds
                 else Out decision_header # map (Out \<circ> decision_line) ds, h)))"

definition policy_line :: "policy_decision \<Rightarrow> string" where
  "policy_line p = ''  '' @ pd_policy_id p @ '' v'' @ u_str (pd_policy_version p) @ '' '' @ ARROW @ '' matched='' @
     bool_str (pd_matched p) @ '' action='' @ action_str (pd_action p) @ '' mode='' @ mode_str (pd_mode p)"

definition signal_line :: "signal_record \<Rightarrow> string" where
  "signal_line s = ''  '' @ sig_signal_id s @ '' '' @ kind_str (sig_kind s) @ '' conf='' @
     float_fixed2 (sig_confidence s) @ '' val='' @ sig_value s"

definition decision_lines :: "decision_record \<Rightarrow> string list" where
  "decision_lines d = [
     ''decision_id       : '' @ dr_decision_id d,
     ''timestamp_ms      : '' @ u_str (dr_timestamp_ms d),
     ''tenant_id         : '' @ dr_tenant_id d,
     ''event_id          : '' @ ds_event_id (dr_subject d),
     ''lifecycle_id      : '' @ or_dash (ds_lifecycle_id (dr_subject d)),
     ''action            : '' @ action_str (dr_action d),
     ''mode              : '' @ mode_str (dr_mode d),
     ''fail_mode         : '' @ fail_mode_str (dr_fail_mode d),
     ''degradation       : '' @ dr_degradation_level d,
     ''reason_codes      : ['' @ join '', '' (dr_reason_codes d) @ '']'',
     ''latency_us        : '' @ u_str (dr_latency_us d),
     ''policies evaluated:''] @
     map policy_line (dr_policies_evaluated d) @ [''signals used:''] @ map signal_line (dr_signals_used d) @ [
     ''engine versions   : detector='' @ ver_detector (dr_engine_versions d) @ '' policy='' @
        ver_policy (dr_engine_versions d) @ '' resolver='' @ ver_resolver (dr_engine_versions d),
     [], ''EXPLANATION:'', ''  '' @ dr_explanation d]"

definition cmd_decision_show :: command where
  "cmd_decision_show cx rest h = (case rest of
      db # i # _ \<Rightarrow>
        (case open_decisions db h of
           (None, h) \<Rightarrow> (1, [cannot_open cx ''decisions'' db], h)
         | (Some s, h) \<Rightarrow> (case get_decision (co_decisions (cx_codecs cx)) s i of
               None \<Rightarrow> (1, [Err (''not found: '' @ i)], h)
             | Some d \<Rightarrow> show_record (''--json'' \<in> set rest) (cx_decision_pretty cx d) (decision_lines d) h))
    | _ \<Rightarrow> (2, [Err ''usage: athar decision show <decisions-db> <decision-id> [--json]''], h))"

section \<open>Policies\<close>

definition resolve_policies :: "host \<Rightarrow> string \<Rightarrow> string" where
  "resolve_policies h arg = (if is_dir h arg then path_join (path_join arg ''config'') ''policies.json'' else arg)"

definition policy_row :: "string \<times> policy_rule \<Rightarrow> string" where
  "policy_row = (\<lambda>(name, r). ''  '' @ (if pr_enabled r then ''ENABLED '' else ''disabled'') @ ''  '' @ pad_right 34 name @
     ''  mode='' @ pad_right 10 (mode_str (pr_mode r)) @ ''  fail_mode='' @ fail_mode_str (pr_fail_mode r))"

definition policy_rules :: "policy_config \<Rightarrow> (string \<times> policy_rule) list" where
  "policy_rules p = [(''high_amount_new_beneficiary'', pc_high_amount_new_beneficiary p),
     (''high_velocity'', pc_high_velocity p), (''distinct_targets'', pc_distinct_targets p),
     (''credential_stuffing'', pc_credential_stuffing p)]"

definition threshold_lines :: "signal_engine_config \<Rightarrow> string list" where
  "threshold_lines s = (let v = sc_velocity s; t = sc_targets s; c = sc_credential_stuffing s in [
     ''SIGNAL THRESHOLDS:'',
     ''  high_amount_floor        : '' @ f64_display (high_amount_floor s),
     ''  amount_field             : '' @ amount_field s,
     ''  velocity                 : window='' @ u_str (v_window_ms v) @ ''ms  threshold>'' @ u_str (v_threshold v) @
       ''  max_subjects='' @ dec_str (v_max_subjects v),
     ''  targets                  : window='' @ u_str (t_window_ms t) @ ''ms  threshold>'' @ u_str (t_threshold t) @
       ''  max_subjects='' @ dec_str (t_max_subjects t) @ ''  max_targets_per_subject='' @
       dec_str (t_max_targets_per_subject t),
     ''  credential_stuffing      : window='' @ u_str (cs_window_ms c) @ ''ms  threshold>'' @ u_str (cs_threshold c) @
       ''  event_types='' @ debug_list (cs_event_types c) @ ''  outcome_field='' @ debug_str (cs_outcome_field c) @
       ''  outcome_failed='' @ debug_list (cs_outcome_failed_values c)])"

definition policy_warnings :: "policy_config \<Rightarrow> string list" where
  "policy_warnings p =
     (let rules = map snd (policy_rules p) in
      (if \<not> (\<exists>r \<in> set rules. pr_enabled r)
       then [''every policy is DISABLED '' @ EM_DASH @ '' the daemon will produce only ALLOW decisions''] else []) @
      (if \<exists>r \<in> set rules. pr_mode r = PmEnforce
       then [''at least one policy is in ENFORCE mode '' @ EM_DASH @ '' the shim'' @ [char_of (39 :: nat)] @
         ''s Decision::isEnforced() will be true for matching events, and callers who respect that will block requests'']
       else []))"

definition policy_lines :: "string \<Rightarrow> detection_config \<Rightarrow> string list" where
  "policy_lines source cfg =
     [''Policy configuration '' @ source, [], ''POLICIES:''] @ map policy_row (policy_rules (dc_policies cfg)) @ [[]] @
     threshold_lines (dc_signals cfg) @
     (let ws = policy_warnings (dc_policies cfg) in
      if ws = [] then [] else [[], ''NOTES:''] @ map (\<lambda>w. ''  * '' @ w) ws)"

definition cmd_policy_show :: command where
  "cmd_policy_show cx rest h = (case rest of
      [] \<Rightarrow> (2, [Err ''usage: athar policy show <policies.json | data-dir>''], h)
    | arg # _ \<Rightarrow>
        let resolved = resolve_policies h arg;
            source = (if path_exists h resolved then ''(from '' @ resolved @ '')''
                      else ''(file not found at '' @ resolved @ ''; showing defaults)'')
        in (0, map Out (policy_lines source (config_or_default cx h resolved)), h))"

definition cmd_policy_validate :: command where
  "cmd_policy_validate cx rest h = (case rest of
      [] \<Rightarrow> (2, [Err ''usage: athar policy validate <policies.json>''], h)
    | path # _ \<Rightarrow>
        if \<not> path_exists h path then (1, [Err (''file does not exist: '' @ path)], h)
        else (case read_text cx h path of
            Inl e \<Rightarrow> (1, [Err (''cannot read '' @ path @ '': '' @ e)], h)
          | Inr text \<Rightarrow> (case parse_config (co_segments (cx_codecs cx)) text of
              Some cfg \<Rightarrow> (0, [Out (''OK: '' @ path @ '' is a valid detection config'')], h)
            | None \<Rightarrow> (1, [Err (''INVALID: '' @ path), Err (''  '' @ cx_show_json cx text)], h))))"

section \<open>Status\<close>

definition status_probe :: json where
  "status_probe = JObject [(''__status__'', JBool True)]"

definition status_request :: "cli_ctx \<Rightarrow> byte list" where
  "status_request cx = co_to_vec (cx_codecs cx) status_probe"

text \<open>The response: a length, checked for plausibility, and that many bytes of JSON.\<close>

definition parse_response :: "cli_ctx \<Rightarrow> peer \<Rightarrow> byte list \<Rightarrow> string + json" where
  "parse_response cx p r =
     (if length r < 4 then Inl (''read header: '' @ pr_read_error p)
      else let n = nat_of_be (take 4 r); buf = take n (drop 4 r) in
        if n = 0 \<or> 1024 * 1024 < n then Inl (''implausible response length: '' @ dec_str n)
        else if length buf < n then Inl (''read body: '' @ pr_read_error p)
        else (case co_from_slice (cx_codecs cx) buf of
            None \<Rightarrow> Inl (''parse: '' @ cx_show_json cx buf) | Some j \<Rightarrow> Inr j))"

definition query_status_body :: "cli_ctx \<Rightarrow> host \<Rightarrow> string \<Rightarrow> nat \<Rightarrow> string + json" where
  "query_status_body cx h name port =
     (let addr = address name port in
      case h_net h addr of
        Unresolved e \<Rightarrow> Inl (''resolve '' @ addr @ '': '' @ e)
      | NoAddress \<Rightarrow> Inl (''no address for '' @ addr)
      | Unreachable e \<Rightarrow> Inl (''connect '' @ addr @ '': '' @ e)
      | Reached p \<Rightarrow>
          (case (pr_header_error p, pr_body_error p) of
             (Some e, _) \<Rightarrow> Inl (''write header: '' @ e)
           | (None, Some e) \<Rightarrow> Inl (''write body: '' @ e)
           | (None, None) \<Rightarrow>
               let body = status_request cx in
               parse_response cx p (pr_reply p (u32_to_be (of_nat (length body)) @ body))))"

fun json_path :: "json \<Rightarrow> string list \<Rightarrow> json option" where
  "json_path j [] = Some j"
| "json_path j (p # ps) = (case json_get j p of None \<Rightarrow> None | Some v \<Rightarrow> json_path v ps)"

definition status_field :: "cli_ctx \<Rightarrow> json \<Rightarrow> string list \<Rightarrow> string" where
  "status_field cx j ps = (case json_path j ps of
      None \<Rightarrow> ''-'' | Some (JString s) \<Rightarrow> s | Some v \<Rightarrow> cx_json_text cx v)"

definition status_lines :: "cli_ctx \<Rightarrow> string \<Rightarrow> json \<Rightarrow> string list" where
  "status_lines cx addr j = (let get = status_field cx j in [
     ''athar daemon @ '' @ addr,
     ''  version          : '' @ get [''daemon_version''],
     ''  schema           : '' @ get [''schema_version''],
     ''  timestamp_ms     : '' @ get [''timestamp_ms''],
     ''  pressure_level   : '' @ get [''pressure_level''],
     ''  pending drops    : frames='' @ get [''ingest'', ''pending_drops_frames''] @ ''  bytes='' @
       get [''ingest'', ''pending_drops_bytes''],
     ''  lifecycles       : total='' @ get [''counts'', ''lifecycles_total''] @ ''  open='' @
       get [''counts'', ''lifecycles_open''],
     ''  decisions        : '' @ get [''counts'', ''decisions_total''],
     ''  signals          : '' @ get [''counts'', ''signals_total'']])"

definition cmd_status :: command where
  "cmd_status cx rest h =
     (let name = host_arg rest; port = port_arg rest in
      case query_status_body cx h name port of
        Inl e \<Rightarrow> (1, [Err e], h)
      | Inr j \<Rightarrow> (0,
          if ''--json'' \<in> set rest
          then (case cx_json_pretty cx j of Inr s \<Rightarrow> [Out s] | Inl e \<Rightarrow> [Out (cx_json_text cx j)])
          else map Out (status_lines cx (address name port) j), h))"

section \<open>Doctor\<close>

text \<open>One printed check; a section of the report is its lines, its failures and its warnings.\<close>

definition check :: "string \<Rightarrow> bool \<Rightarrow> string \<Rightarrow> line" where
  "check name ok detail = Out (
     if ok then (if detail = [] then ''  ok    '' @ name else ''  ok    '' @ name @ ''  ('' @ detail @ '')'')
     else (if detail = [] then ''  FAIL  '' @ name else ''  FAIL  '' @ name @ ''  -- '' @ detail))"

type_synonym report_part = "line list \<times> nat \<times> nat"

definition checked :: "string \<Rightarrow> bool \<Rightarrow> string \<Rightarrow> report_part" where
  "checked name ok detail = ([check name ok detail], if ok then 0 else 1, 0)"

definition warned :: "string \<Rightarrow> string \<Rightarrow> string \<Rightarrow> report_part" where
  "warned what path expected = ([Out (''  warn  '' @ what @ '' not created yet ('' @ path @ '') '' @ EM_DASH @
     '' expected after first '' @ expected)], 0, 1)"

definition both :: "report_part \<Rightarrow> report_part \<Rightarrow> report_part" where
  "both a b = (fst a @ fst b, fst (snd a) + fst (snd b), snd (snd a) + snd (snd b))"

definition doctor_audit :: "cli_ctx \<Rightarrow> string \<Rightarrow> host \<Rightarrow> report_part \<times> host" where
  "doctor_audit cx data h =
     (let p = path_join data ''audit'' in
      if \<not> path_exists h p then (warned ''audit directory'' p ''daemon boot'', h)
      else (case open_segments p h of
          (Inl e, h) \<Rightarrow> (checked ''audit segment store opens'' False (cx_show_persist cx e), h)
        | (Inr d, h) \<Rightarrow> (case verify_at cx p d h of (r, h) \<Rightarrow>
            (both (checked ''audit segment store opens'' True [])
              (case r of Inr report \<Rightarrow> checked ''audit chain verifies to genesis'' True []
                 | Inl e \<Rightarrow> checked ''audit chain verifies to genesis'' False (cx_show_persist cx e)), h))))"

definition doctor_lifecycles :: "cli_ctx \<Rightarrow> string \<Rightarrow> host \<Rightarrow> report_part \<times> host" where
  "doctor_lifecycles cx data h =
     (let p = path_join (path_join data ''state'') ''lifecycles.db'' in
      if \<not> path_exists h p then (warned ''lifecycles DB'' p ''event'', h)
      else (case open_lifecycles p h of
          (Some s, h) \<Rightarrow> (checked ''lifecycles DB opens'' True
             (''total='' @ dec_str (sql_count s) @ '' open='' @ dec_str (sql_count_open s)), h)
        | (None, h) \<Rightarrow> (checked ''lifecycles DB opens'' False (cx_show_open cx p), h)))"

definition doctor_decisions :: "cli_ctx \<Rightarrow> string \<Rightarrow> host \<Rightarrow> report_part \<times> host" where
  "doctor_decisions cx data h =
     (let p = path_join (path_join data ''state'') ''decisions.db'' in
      if \<not> path_exists h p then (warned ''decisions DB'' p ''event'', h)
      else (case open_decisions p h of
          (Some s, h) \<Rightarrow> (checked ''decisions DB opens'' True
             (''decisions='' @ dec_str (count_decisions s) @ '' signals='' @ dec_str (count_signals s)), h)
        | (None, h) \<Rightarrow> (checked ''decisions DB opens'' False (cx_show_open cx p), h)))"

definition doctor_policies :: "cli_ctx \<Rightarrow> string \<Rightarrow> host \<Rightarrow> report_part" where
  "doctor_policies cx data h =
     (let p = path_join (path_join data ''config'') ''policies.json'' in
      if \<not> path_exists h p
      then ([Out (''  info  policies.json not present ('' @ p @ '') '' @ EM_DASH @ '' daemon will use built-in defaults'')], 0, 0)
      else (case read_text cx h p of
          Inl e \<Rightarrow> checked ''policies.json is readable'' False e
        | Inr text \<Rightarrow> (case parse_config (co_segments (cx_codecs cx)) text of
            Some cfg \<Rightarrow> checked ''policies.json is valid'' True []
          | None \<Rightarrow> checked ''policies.json is valid'' False (''parse error: '' @ cx_show_json cx text))))"

definition reachable :: "host \<Rightarrow> string \<Rightarrow> bool" where
  "reachable h addr \<longleftrightarrow> (case h_net h addr of Reached p \<Rightarrow> True | _ \<Rightarrow> False)"

definition doctor_reach :: "host \<Rightarrow> string \<Rightarrow> report_part" where
  "doctor_reach h addr = checked (''daemon reachable at '' @ addr) (reachable h addr)
     (if reachable h addr then [] else ''TCP connect failed within 500ms'')"

definition text_or_unknown :: "json \<Rightarrow> string \<Rightarrow> string" where
  "text_or_unknown j k = (case opt_bind (json_get j k) json_as_str of None \<Rightarrow> ''?'' | Some s \<Rightarrow> s)"

definition doctor_deep :: "cli_ctx \<Rightarrow> host \<Rightarrow> string \<Rightarrow> nat \<Rightarrow> report_part" where
  "doctor_deep cx h name port =
     (if \<not> reachable h (address name port)
      then ([Out ''  skip  daemon status endpoint responds (daemon not reachable)''], 0, 0)
      else (case query_status_body cx h name port of
          Inl e \<Rightarrow> checked ''daemon status endpoint responds'' False e
        | Inr j \<Rightarrow>
            if json_get j ''daemon_version'' \<noteq> None \<and> json_get j ''schema_version'' \<noteq> None \<and>
              json_get j ''pressure_level'' \<noteq> None
            then checked ''daemon status endpoint responds'' True (''version='' @ text_or_unknown j ''daemon_version'' @
              '' pressure='' @ text_or_unknown j ''pressure_level'')
            else checked ''daemon status endpoint responds'' False ''response missing required top-level fields''))"

definition verdict :: "report_part \<Rightarrow> nat \<times> line list" where
  "verdict = (\<lambda>(ls, fails, warns).
     if fails = 0
     then (0, ls @ [Out [], Out (if 0 < warns then ''DOCTOR: OK ('' @ dec_str warns @ '' advisory warning(s))'' else ''DOCTOR: OK'')])
     else (1, ls @ [Out [], Out (''DOCTOR: '' @ dec_str fails @ '' FAIL(S), '' @ dec_str warns @ '' warning(s)'')]))"

definition cmd_doctor :: command where
  "cmd_doctor cx rest h = (case rest of
      [] \<Rightarrow> (2, [Err ''usage: athar doctor <data-dir> [--host 127.0.0.1] [--port 11223]''], h)
    | data # _ \<Rightarrow>
        let name = host_arg rest; port = port_arg rest;
            title = ([Out (''athar doctor '' @ EM_DASH @ '' checking install at '' @ data), Out []], 0, 0);
            there = checked ''data-dir exists'' (path_exists h data) (''path not found: '' @ data);
            (au, h) = doctor_audit cx data h;
            (lc, h) = doctor_lifecycles cx data h;
            (de, h) = doctor_decisions cx data h;
            po = doctor_policies cx data h;
            re = doctor_reach h (address name port);
            deep = (if ''--deep'' \<in> set rest then doctor_deep cx h name port else ([], 0, 0));
            (code, ls) = verdict (foldr both [title, there, au, lc, de, po, re, deep] ([], 0, 0))
        in (code, ls, h))"

section \<open>Dispatch\<close>

text \<open>The arguments after the name of the program.\<close>

definition athar :: command where
  "athar cx args h = (case args of
      [] \<Rightarrow> usage 0 h
    | sub # rest \<Rightarrow>
        if sub = ''audit'' then (case rest of
            v # r \<Rightarrow> if v = ''verify'' then cmd_audit_verify cx r h else usage 2 h | [] \<Rightarrow> usage 2 h)
        else if sub = ''lifecycle'' then (case rest of
            v # r \<Rightarrow> if v = ''list'' then cmd_lifecycle_list cx r h
                     else if v = ''show'' then cmd_lifecycle_show cx r h else usage 2 h
          | [] \<Rightarrow> usage 2 h)
        else if sub = ''decision'' then (case rest of
            v # r \<Rightarrow> if v = ''recent'' then cmd_decision_recent cx r h
                     else if v = ''show'' then cmd_decision_show cx r h else usage 2 h
          | [] \<Rightarrow> usage 2 h)
        else if sub = ''policy'' then (case rest of
            v # r \<Rightarrow> if v = ''show'' then cmd_policy_show cx r h
                     else if v = ''validate'' then cmd_policy_validate cx r h else usage 2 h
          | [] \<Rightarrow> usage 2 h)
        else if sub = ''doctor'' then cmd_doctor cx rest h
        else if sub = ''status'' then cmd_status cx rest h
        else if sub = ''--help'' \<or> sub = ''-h'' then usage 0 h
        else (case usage 2 h of (code, ls, h) \<Rightarrow> (code, Err (''unknown subcommand: '' @ sub) # ls, h)))"

end
