(* ===== verification/Cli_Props.thy ===== *)
theory Cli_Props
  imports Cli System Framing
begin

text \<open>
  What the commands tell an operator about a daemon: \<^verbatim>\<open>audit verify\<close> accepts what every run leaves,
  \<^verbatim>\<open>status\<close> gives the daemon's own body unless it is in safe mode, a refused call changes nothing; and
  what \<^verbatim>\<open>doctor\<close> does not look at.
\<close>

section \<open>Opening and verifying a directory\<close>

lemma put_node_same [simp]: "h_node (put_node p n h) q = (if q = p then Some n else h_node h q)"
  "h_can_create (put_node p n h) = h_can_create h" "h_can_open (put_node p n h) = h_can_open h"
  "h_net (put_node p n h) = h_net h"
  by (simp_all add: put_node_def)

lemma put_node_commute: "p \<noteq> q \<Longrightarrow> put_node p a (put_node q b h) = put_node q b (put_node p a h)"
  by (simp add: put_node_def fun_upd_twist)

lemma put_node_put [simp]: "put_node p a (put_node p b h) = put_node p a h"
  by (simp add: put_node_def)

lemma open_quiet:
  "h_node h p = Some (DirNode d) \<Longrightarrow> quiet d \<Longrightarrow> open_segments p h = (Inr d, put_node p (DirNode d) h)"
  by (simp add: open_segments_def store_open_def store_io_def io_create_dir_def io_call_def quiet_def)

text \<open>The files of a directory that are named like segments: one for each segment of the chain.\<close>

definition segment_files :: "disk \<Rightarrow> string set" where
  "segment_files d = {n. file_at d n \<noteq> None \<and> audit_id n \<noteq> None}"

lemma segments_counted:
  assumes "chain_on_disk c k d segs"
  shows "card (segment_files d) = length segs"
proof -
  have f: "length segs < 2 ^ 64" "\<And>i. i < length segs \<Longrightarrow> file_at d (path_for (of_nat i)) \<noteq> None"
    "\<And>n i. file_at d n \<noteq> None \<Longrightarrow> audit_id n = Some i \<Longrightarrow> n = path_for i \<and> unat i < length segs"
    using assms by (auto simp: chain_on_disk_def files_ok_def)
  have "segment_files d = (\<lambda>i. path_for (of_nat i)) ` {..<length segs}"
  proof
    show "segment_files d \<subseteq> (\<lambda>i. path_for (of_nat i)) ` {..<length segs}"
    proof
      fix n assume "n \<in> segment_files d"
      then obtain i where "file_at d n \<noteq> None" "audit_id n = Some i" by (auto simp: segment_files_def)
      from f(3) [OF this] show "n \<in> (\<lambda>i. path_for (of_nat i)) ` {..<length segs}"
        by (intro image_eqI [of _ _ "unat i"]) simp_all
    qed
    show "(\<lambda>i. path_for (of_nat i)) ` {..<length segs} \<subseteq> segment_files d"
      using f(2) by (auto simp: segment_files_def)
  qed
  moreover have "inj_on (\<lambda>i. path_for (of_nat i)) {..<length segs}"
  proof (rule inj_onI)
    fix i j assume ij: "i \<in> {..<length segs}" "j \<in> {..<length segs}" "path_for (of_nat i) = path_for (of_nat j)"
    then have "audit_id (path_for (of_nat i)) = audit_id (path_for (of_nat j))" by simp
    then have "(of_nat i :: u64) = of_nat j" by simp
    then have "unat (of_nat i :: u64) = unat (of_nat j :: u64)" by simp
    moreover have "i < 2 ^ 64" "j < 2 ^ 64" using ij(1,2) f(1) by simp_all
    ultimately show "i = j" by (simp add: unat_of_nat_u64)
  qed
  ultimately show ?thesis by (simp add: card_image)
qed

text \<open>Claim C39 (the operator sees the chain): after every run of the daemon with its shutdowns, kills and
  starts, \<^verbatim>\<open>athar audit verify\<close> on the segment directory exits with 0 and prints the number of the segment files
  in it and the number of their records, which are the observations the daemon attests without the pending
  ones.\<close>

theorem verify_command_accepts:
  assumes "crypto_ok (co_crypto k)" "json_text_ok (co_segments k)" "length fresh = 32"
    and "dcf_max_record_bytes c < 2 ^ 32" "boot k c fresh t0 = Some s0" "system_run k c adm n lost s0 s" "n < 2 ^ 64 - 2"
    and "cx_codecs cx = k" "h_node h dir = Some (DirNode (aw_disk (d_audit (sy_daemon s))))"
  shows "\<exists>segs es. chain_on_disk (co_crypto k) (co_segments k) (aw_disk (d_audit (sy_daemon s))) segs \<and>
    map entry (all_records segs @ cw_records (inner (d_audit (sy_daemon s)))) = committed (co_crypto k) es \<and>
    fst (athar cx [''audit'', ''verify'', dir] h) = 0 \<and>
    fst (snd (athar cx [''audit'', ''verify'', dir] h)) =
      [Out (''OK: '' @ dec_str (card (segment_files (aw_disk (d_audit (sy_daemon s))))) @ '' segment(s), '' @
         dec_str (length (all_records segs)) @ '' record(s) verified'')]"
proof -
  note b = boot_logs [OF assms(5,1,2,3,4,7)]
  have "logs_ok k fresh (dcf_audit_records_per_segment c) (n + 0) (sy_daemon s0) [] ([], [])" using b(2) by simp
  from run_accounted [OF assms(6,1,2,4) b(1) this] obtain segs a where
    1: "logs_ok k fresh (dcf_audit_records_per_segment c) 0 (sy_daemon s) segs a" by blast
  have ch: "chain_on_disk (co_crypto k) (co_segments k) (aw_disk (d_audit (sy_daemon s))) segs"
    and rf: "refines (co_crypto k) a (d_audit (sy_daemon s)) segs" using 1 by (simp_all add: logs_ok_def aw_inv_def)
  have q: "quiet (aw_disk (d_audit (sy_daemon s)))" using ch by (simp add: chain_on_disk_def files_ok_def)
  obtain d' where v: "verify_all (co_crypto k) (co_segments k) (aw_disk (d_audit (sy_daemon s))) =
      (Inr \<lparr>segments_verified = length segs, records_verified = length (all_records segs)\<rparr>, d')"
    using verify_all_ok [OF assms(2) ch] by (metis prod.collapse)
  have "map entry (all_records segs @ cw_records (inner (d_audit (sy_daemon s)))) = committed (co_crypto k) (trail a)"
    using rf by (simp add: refines_def trail_def)
  then show ?thesis
    using ch open_quiet [OF assms(9) q] v segments_counted [OF ch]
    by (intro exI [of _ segs] exI [of _ "trail a"]) (simp add: athar_def cmd_audit_verify_def verify_at_def assms(8))
qed

definition status_codecs :: codecs where
  "status_codecs = demo_codecs\<lparr>co_to_vec := \<lambda>j. if j = status_probe then [1] else [2],
     co_from_slice := \<lambda>bs. if bs = [1] then Some status_probe
       else Some (build_status_body 5 demo_daemon)\<rparr>"

definition demo_ctx :: cli_ctx where
  "demo_ctx = \<lparr>cx_codecs = status_codecs, cx_show_persist = \<lambda>e. ''persist'', cx_show_open = \<lambda>p. ''open'',
     cx_show_read = \<lambda>p. ''read'', cx_show_json = \<lambda>t. ''json'', cx_show_utf8 = \<lambda>t. ''utf8'',
     cx_lifecycle_json = \<lambda>l. Inr [], cx_lifecycle_pretty = \<lambda>l. Inr [], cx_decision_json = \<lambda>d. Inr [],
     cx_decision_pretty = \<lambda>d. Inr [], cx_json_pretty = \<lambda>j. Inr [], cx_json_text = \<lambda>j. []\<rparr>"

theorem verify_command_accepts_witness:
  "\<exists>(s :: system) h segs cx. cx = demo_ctx\<lparr>cx_codecs := settle_codecs\<rparr> \<and> h_node h ''segments'' = Some (DirNode (aw_disk (d_audit (sy_daemon s)))) \<and>
     d_lifecycles (sy_daemon s) = settled \<and> fst (athar cx [''audit'', ''verify'', ''segments''] h) = 0 \<and>
     fst (snd (athar cx [''audit'', ''verify'', ''segments''] h)) =
       [Out (''OK: '' @ dec_str (card (segment_files (aw_disk (d_audit (sy_daemon s))))) @ '' segment(s), '' @
          dec_str (length (all_records segs)) @ '' record(s) verified'')]"
proof -
  obtain s0 s where r: "boot settle_codecs demo_config demo_key 0 = Some s0"
    "system_run settle_codecs demo_config (\<lambda>_ _. True) 7 0 s0 s" "d_lifecycles (sy_daemon s) = settled"
    using demo_run by metis
  let ?cx = "demo_ctx\<lparr>cx_codecs := settle_codecs\<rparr>"
  let ?h = "\<lparr>h_node = \<lambda>p. Some (DirNode (aw_disk (d_audit (sy_daemon s)))), h_can_create = \<lambda>p. True,
    h_can_open = \<lambda>p. True, h_net = \<lambda>a. NoAddress\<rparr>"
  from verify_command_accepts [OF demo_ok(1-4) r(1,2), of ?cx ?h "''segments''"]
  obtain segs where "fst (athar ?cx [''audit'', ''verify'', ''segments''] ?h) = 0"
    "fst (snd (athar ?cx [''audit'', ''verify'', ''segments''] ?h)) =
       [Out (''OK: '' @ dec_str (card (segment_files (aw_disk (d_audit (sy_daemon s))))) @ '' segment(s), '' @
          dec_str (length (all_records segs)) @ '' record(s) verified'')]"
    by auto
  with r(3) show ?thesis
    by (intro exI [of _ s] exI [of _ ?h] exI [of _ segs] exI [of _ ?cx]) simp
qed

section \<open>Doctor\<close>

text \<open>\<open>audit verify\<close> on a path that does not exist creates the directory and reports success.\<close>

lemma verify_creates_directory:
  assumes "h_node h p = None" "h_can_create h p"
  shows "athar cx [''audit'', ''verify'', p] h =
    (0, [Out ''OK: 0 segment(s), 0 record(s) verified''], put_node p (DirNode (disk_of [])) h)"
proof -
  have "verify_all c k (disk_of []) = (Inr \<lparr>segments_verified = 0, records_verified = 0\<rparr>, disk_of [])" for c k
    by (simp add: verify_all_def store_list_def store_io_def io_read_dir_def io_call_def bind_eff_def eff_defs disk_of_def)
  moreover have "dec_str 0 = ''0''" by code_simp
  ultimately show ?thesis using assms
    by (simp add: athar_def cmd_audit_verify_def open_segments_def verify_at_def)
qed

lemma doctor_audit_elsewhere:
  "q \<noteq> path_join data ''audit'' \<Longrightarrow>
   doctor_audit cx data (put_node q n h) = apsnd (put_node q n) (doctor_audit cx data h)"
  by (auto simp: doctor_audit_def path_exists_def open_segments_def verify_at_def Let_def
      put_node_commute [of "path_join data ''audit''" q] split: option.split node.split prod.split sum.split)

lemma doctor_lifecycles_elsewhere:
  "q \<noteq> path_join (path_join data ''state'') ''lifecycles.db'' \<Longrightarrow>
   doctor_lifecycles cx data (put_node q n h) = apsnd (put_node q n) (doctor_lifecycles cx data h)"
  by (auto simp: doctor_lifecycles_def path_exists_def open_lifecycles_def Let_def
      put_node_commute [of "path_join (path_join data ''state'') ''lifecycles.db''" q]
      split: option.split node.split list.split)

lemma doctor_decisions_elsewhere:
  "q \<noteq> path_join (path_join data ''state'') ''decisions.db'' \<Longrightarrow>
   doctor_decisions cx data (put_node q n h) = apsnd (put_node q n) (doctor_decisions cx data h)"
  by (auto simp: doctor_decisions_def path_exists_def open_decisions_def Let_def
      put_node_commute [of "path_join (path_join data ''state'') ''decisions.db''" q]
      split: option.split node.split list.split)

lemma read_text_elsewhere: "q \<noteq> p \<Longrightarrow> read_text cx (put_node q n h) p = read_text cx h p"
proof -
  assume "q \<noteq> p"
  then have "read_file (put_node q n h) p = read_file h p"
    by (auto simp: read_file_def split: option.split node.split)
  then show ?thesis by (simp add: read_text_def)
qed

lemma doctor_rest_elsewhere:
  "q \<noteq> path_join (path_join data ''config'') ''policies.json'' \<Longrightarrow>
   doctor_policies cx data (put_node q n h) = doctor_policies cx data h"
  "doctor_reach (put_node q n h) addr = doctor_reach h addr"
  "doctor_deep cx (put_node q n h) name port = doctor_deep cx h name port"
  by (simp_all add: doctor_policies_def path_exists_def read_text_elsewhere Let_def doctor_reach_def reachable_def
      doctor_deep_def query_status_body_def)

text \<open>Where the daemon keeps its segments.\<close>

definition segments_path :: "string \<Rightarrow> string" where
  "segments_path data = path_join (path_join data ''audit'') ''segments''"

lemma segments_path_neq:
  "segments_path data \<noteq> data" "segments_path data \<noteq> path_join data ''audit''"
  "segments_path data \<noteq> path_join (path_join data ''state'') ''lifecycles.db''"
  "segments_path data \<noteq> path_join (path_join data ''state'') ''decisions.db''"
  "segments_path data \<noteq> path_join (path_join data ''config'') ''policies.json''"
  by (auto simp: segments_path_def path_join_def)

text \<open>The report and the exit code of \<^verbatim>\<open>athar doctor\<close> are the
  same whatever the daemon's segment directory holds, a broken chain included: it verifies the
  parent directory, in which the daemon stores no segments.\<close>

theorem doctor_ignores_segments:
  "fst (athar cx (''doctor'' # data # args) (put_node (segments_path data) n h)) = fst (athar cx (''doctor'' # data # args) h) \<and>
   fst (snd (athar cx (''doctor'' # data # args) (put_node (segments_path data) n h))) =
     fst (snd (athar cx (''doctor'' # data # args) h))"
proof -
  let ?q = "segments_path data"
  have there: "path_exists (put_node ?q n h) data = path_exists h data"
    using segments_path_neq(1) [of data] by (simp add: path_exists_def)
  note neq = segments_path_neq [of data]
  obtain au h1 where 1: "doctor_audit cx data h = (au, h1)" by (cases "doctor_audit cx data h")
  obtain lc h2 where 2: "doctor_lifecycles cx data h1 = (lc, h2)" by (cases "doctor_lifecycles cx data h1")
  obtain de h3 where 3: "doctor_decisions cx data h2 = (de, h3)" by (cases "doctor_decisions cx data h2")
  have "doctor_audit cx data (put_node ?q n h) = (au, put_node ?q n h1)"
    "doctor_lifecycles cx data (put_node ?q n h1) = (lc, put_node ?q n h2)"
    "doctor_decisions cx data (put_node ?q n h2) = (de, put_node ?q n h3)"
    using 1 2 3 by (simp_all add: doctor_audit_elsewhere [OF neq(2)] doctor_lifecycles_elsewhere [OF neq(3)]
        doctor_decisions_elsewhere [OF neq(4)])
  then show ?thesis
    by (simp add: athar_def cmd_doctor_def Let_def 1 2 3 there doctor_rest_elsewhere(1) [OF neq(5)]
        doctor_rest_elsewhere(2,3) split: prod.split)
qed

section \<open>Exit codes\<close>

text \<open>A call is refused with code 2 and complaints only, or it ends with 0 or 1.\<close>

definition orderly :: "host \<Rightarrow> nat \<times> line list \<times> host \<Rightarrow> bool" where
  "orderly h = (\<lambda>(code, ls, h'). code \<in> {0, 1} \<or> code = 2 \<and> h' = h \<and> ls \<noteq> [] \<and> (\<forall>l \<in> set ls. \<exists>e. l = Err e))"

lemma orderly_01: "fst r \<in> {0, 1} \<Longrightarrow> orderly h r"
  by (auto simp: orderly_def split: prod.splits)

lemma orderly_refusal [simp]: "orderly h (2, [Err e], h)"
  by (simp add: orderly_def)

lemma show_record_code: "fst (show_record j p ls h) \<in> {0, 1}"
  by (auto simp: show_record_def split: sum.split)

lemma orderly_show [simp]: "orderly h (show_record j p ls h')"
  by (rule orderly_01) (rule show_record_code)

lemma verdict_code: "fst (verdict r) \<in> {0, 1}"
  by (auto simp: verdict_def split: prod.split)

lemma orderly_commands:
  "orderly h (cmd_audit_verify cx r h)" "orderly h (cmd_lifecycle_list cx r h)" "orderly h (cmd_lifecycle_show cx r h)"
  "orderly h (cmd_decision_recent cx r h)" "orderly h (cmd_decision_show cx r h)" "orderly h (cmd_policy_show cx r h)"
  "orderly h (cmd_policy_validate cx r h)" "orderly h (cmd_status cx r h)"
  by (simp_all add: cmd_audit_verify_def cmd_lifecycle_list_def cmd_lifecycle_show_def cmd_decision_recent_def
      cmd_decision_show_def cmd_policy_show_def cmd_policy_validate_def cmd_status_def Let_def orderly_01
      split: list.split option.split prod.split sum.split)

lemma orderly_doctor: "orderly h (cmd_doctor cx r h)"
proof (cases r)
  case (Cons data args)
  obtain au h1 where 1: "doctor_audit cx data h = (au, h1)" by (cases "doctor_audit cx data h")
  obtain lc h2 where 2: "doctor_lifecycles cx data h1 = (lc, h2)" by (cases "doctor_lifecycles cx data h1")
  obtain de h3 where 3: "doctor_decisions cx data h2 = (de, h3)" by (cases "doctor_decisions cx data h2")
  obtain part where "cmd_doctor cx r h = (case verdict part of (code, ls) \<Rightarrow> (code, ls, h3))"
    by (simp add: cmd_doctor_def Cons Let_def 1 2 3)
  then show ?thesis using verdict_code [of part] by (auto simp: orderly_def split: prod.split)
qed (simp add: cmd_doctor_def)

lemma usage_lines_some: "usage_text \<noteq> []"
  by (simp add: usage_text_def)

lemma orderly_usage: "orderly h (usage 0 h)" "orderly h (usage 2 h)"
  using usage_lines_some by (auto simp: orderly_def usage_def)

text \<open>Refused calls do nothing: every call ends with exit code 0, 1 or 2; code 2 is a refused
  call, which leaves the host as it was and prints only on the error output.\<close>

theorem refused_call_is_harmless:
  "case athar cx args h of (code, ls, h') \<Rightarrow>
     code \<in> {0, 1} \<or> code = 2 \<and> h' = h \<and> ls \<noteq> [] \<and> list_all (\<lambda>l. \<exists>e. l = Err e) ls"
proof -
  have unknown: "orderly h (case usage 2 h of (code, ls, h) \<Rightarrow> (code, Err t # ls, h))" for t
    by (auto simp: orderly_def usage_def)
  have "orderly h (athar cx args h)"
    using orderly_commands orderly_doctor orderly_usage unknown unfolding athar_def
    by (cases args) (auto split: list.split)
  then show ?thesis by (auto simp: orderly_def list_all_iff split: prod.splits)
qed

section \<open>Status\<close>

text \<open>A daemon at the other end of a new connection: the codec \<open>deframe\<close> splits what was written, and the
  answer is what the connection carries afterwards.\<close>

definition answered :: "codecs \<Rightarrow> (byte list \<Rightarrow> frame_item list) \<Rightarrow> stamps \<Rightarrow> daemon \<Rightarrow> byte list \<Rightarrow> daemon" where
  "answered k deframe st d bs =
     process_stream k (map (Pair st) (deframe bs)) (d\<lparr>d_conn := \<lparr>cn_bytes = [], cn_script = []\<rparr>\<rparr>)"

definition daemon_peer :: "codecs \<Rightarrow> (byte list \<Rightarrow> frame_item list) \<Rightarrow> stamps \<Rightarrow> daemon \<Rightarrow> string \<Rightarrow> peer" where
  "daemon_peer k deframe st d err = \<lparr>pr_header_error = None, pr_body_error = None,
     pr_reply = \<lambda>bs. cn_bytes (d_conn (answered k deframe st d bs)), pr_read_error = err\<rparr>"

lemma status_body_conn [simp]: "build_status_body now (d\<lparr>d_conn := x\<rparr>) = build_status_body now d"
  by (simp add: build_status_body_def)

lemma write_json_bytes:
  "cn_script w = [] \<Longrightarrow> cn_bytes (snd (write_json_frame k j w)) =
     cn_bytes w @ u32_to_be (of_nat (length (co_to_vec k j))) @ co_to_vec k j"
  by (simp add: write_json_frame_def Let_def bind_eff_def conn_write_def)

lemma parse_framed:
  assumes "length body \<le> 1024 * 1024" "body \<noteq> []" "co_from_slice (cx_codecs cx) body = Some j"
  shows "parse_response cx p (u32_to_be (of_nat (length body)) @ body) = Inr j"
proof -
  have "unat (of_nat (length body) :: u32) = length body"
    using assms(1) by (simp add: unat_of_nat take_bit_nat_eq_self)
  then have "nat_of_be (u32_to_be (of_nat (length body))) = length body"
    using assms(1) unfolding u32_to_be_def by (simp add: nat_of_be_of_nat)
  moreover have "length (u32_to_be (of_nat (length body))) = 4" by (simp add: u32_to_be_def)
  ultimately show ?thesis using assms by (simp add: parse_response_def Let_def)
qed

text \<open>Claim C40 (status is the daemon's): over a connection that carries the bytes, \<^verbatim>\<open>athar status\<close> reads
  exactly the body the daemon built; in safe mode it reads nothing, because the daemon drops its
  request like an event.\<close>

theorem status_round_trip:
  assumes "cx_codecs cx = k" "h_net h (address name port) = Reached (daemon_peer k deframe st d err)"
    and "framing_ok deframe" "length (co_to_vec k status_probe) \<le> MAX_FRAME_LENGTH"
    and "co_from_slice k (co_to_vec k status_probe) = Some status_probe" "co_from_slice k (co_to_vec k (build_status_body (st_now_ms st) d)) = Some (build_status_body (st_now_ms st) d)"
    and "co_to_vec k (build_status_body (st_now_ms st) d) \<noteq> []" "length (co_to_vec k (build_status_body (st_now_ms st) d)) \<le> 1024 * 1024"
  shows "query_status_body cx h name port =
    (if allows (current_level (d_governor d)) P1 then Inr (build_status_body (st_now_ms st) d) else Inl (''read header: '' @ err))"
proof -
  define body where "body = build_status_body (st_now_ms st) d"
  let ?r = "co_to_vec k status_probe"
  let ?d = "d\<lparr>d_conn := \<lparr>cn_bytes = [], cn_script = []\<rparr>\<rparr>"
  have rq: "status_request cx = ?r" by (simp add: status_request_def assms(1))
  have one: "answered k deframe st d (u32_to_be (of_nat (length ?r)) @ ?r) = snd (ingest_one k st ?r ?d)"
    using connection_from [OF assms(3), of "[]" "[?r]" k "\<lambda>_. st" 0] assms(4)
    by (simp add: answered_def torn_def LENGTH_FIELD_def wire_def stamped_const)
  have flag: "json_flag status_probe ''__status__''" by (simp add: status_probe_def json_flag_def)
  have reply: "cn_bytes (d_conn (snd (ingest_one k st ?r ?d))) =
      (if allows (current_level (d_governor d)) P1
       then u32_to_be (of_nat (length (co_to_vec k body))) @ co_to_vec k body else [])"
    by (simp add: ingest_one_def assms(5) flag respond_def write_json_bytes body_def)
  have "query_status_body cx h name port = parse_response cx (daemon_peer k deframe st d err)
      (cn_bytes (d_conn (snd (ingest_one k st ?r ?d))))"
    by (simp add: query_status_body_def assms(2) daemon_peer_def) (simp add: Let_def rq one)
  also have "\<dots> = (if allows (current_level (d_governor d)) P1 then Inr body else Inl (''read header: '' @ err))"
    using parse_framed [of "co_to_vec k body" cx body] assms(1,6-8)
    unfolding body_def [symmetric] by (auto simp: reply parse_response_def daemon_peer_def)
  finally show ?thesis unfolding body_def .
qed

text \<open>In safe mode the request is even counted as a lost event of the next coverage gap.\<close>

lemma probe_counted_as_drop:
  assumes "current_level (d_governor d) = L4SafeMode"
  shows "d_drops (snd (ingest_one k st (status_request cx) d)) =
    drop_record (length (status_request cx)) (st_drop_ms st) (d_drops d)"
  using assms by (simp add: ingest_one_def)

theorem status_round_trip_witness:
  "query_status_body demo_ctx \<lparr>h_node = \<lambda>p. None, h_can_create = \<lambda>p. True, h_can_open = \<lambda>p. True,
     h_net = \<lambda>a. Reached (daemon_peer status_codecs length_delimited (demo_stamps 5) demo_daemon ''timeout'')\<rparr> ''127.0.0.1'' 11223
   = Inr (build_status_body 5 demo_daemon)"
proof -
  have neq: "build_status_body 5 demo_daemon \<noteq> status_probe"
    by (simp add: build_status_body_def status_probe_def)
  have l0: "allows (current_level (d_governor demo_daemon)) P1"
    by (simp add: demo_daemon_def governor_new_def current_level_def)
  have st: "st_now_ms (demo_stamps 5) = 5" by (simp add: demo_stamps_def)
  show ?thesis
    by (subst status_round_trip [where k = status_codecs and deframe = length_delimited and st = "demo_stamps 5"
        and d = demo_daemon and err = "''timeout''"])
      (simp_all add: l0 st neq status_codecs_def demo_ctx_def length_delimited_ok MAX_FRAME_LENGTH_def)
qed

end
