(* ===== verification/Spec2Isabelle.thy ===== *)
theory Spec2Isabelle
  imports Governor Event Segment_Log_Recovery Segment_Log_Evict Segment_Log_Faults Segment_Reader
    Audit_Writer_Proofs Lifecycle_Flaky Tracker_Targets Signal_Props Decision_Store Detection_Config
    Wall_Clock Ingest_Props Framing Eviction_Driver Host_Metrics Policy_Reload Shim_Spool Server Tasks System Concurrency
    Cli Cli_Props
begin

text \<open>
  Verification development for the Athar daemon (\<^verbatim>\<open>src/daemon/crates\<close>): a sidecar that
  receives canonical events from an application over a local socket, writes them to an append-only
  evidence log, commits to them in a signed hash chain, projects them onto business lifecycles,
  derives risk signals and records a decision for each.

  \<^bold>\<open>How the parts work together.\<close>  A frame (\<^verbatim>\<open>ingest.rs\<close>, theory \<open>Ingest\<close>) is admitted by the
  pressure level of the governor (\<open>Governor\<close>), parsed and validated (\<open>Event\<close>), appended to the
  evidence log (\<open>Segment_Log\<close> over \<open>Disk\<close> and \<open>Quota\<close>), committed to by the audit writer
  (\<open>Audit_Chain\<close>, \<open>Audit_Store\<close>), applied to the lifecycle store by the engine
  (\<open>Lifecycle_Types\<close>, \<open>Lifecycle_Store\<close>, \<open>Lifecycle_Engine\<close>), turned into signals (\<open>Trackers\<close>,
  \<open>Signals\<close>), judged by the policy (\<open>Policy\<close>, configured by \<open>Detection_Config\<close>), and recorded as
  a decision (\<open>Decision\<close>, \<open>Decision_Store\<close>).  Beside the frames run the eviction driver
  (\<open>Eviction_Driver\<close>), the host collector (\<open>Host_Metrics\<close>), the policy watcher (\<open>Policy_Reload\<close>),
  the spool collector (\<open>Shim_Spool\<close>) and the staleness scan.  \<open>Server\<close> holds the configuration from the
  environment (\<^verbatim>\<open>config.rs\<close>) and the start on a data directory (\<open>IngestServer::new\<close>); \<open>Tasks\<close> cuts the
  connection, the gap emitter, the spool collector, the eviction driver and the shutdown where they release one lock and take
  the next; \<open>System\<close> lets any number of connections and these tasks step in any order, with shutdowns, kills
  and new starts (\<open>IngestServer::run\<close>).  \<open>Cli\<close> is the operator's
  command line (\<^verbatim>\<open>athar-cli\<close>) over the same stores and the daemon's status endpoint.

  \<^bold>\<open>What each group of lemmas shows.\<close>
  \<open>Segment_Log_Proofs\<close>, \<open>_Refine\<close>, \<open>_Recovery\<close>, \<open>_Evict\<close>, \<open>_Faults\<close>: the log refines a list of
  payloads; restart, crash, eviction and every I/O failure keep what they should.  \<open>Segment_Reader\<close> keeps the
  reader's \<^verbatim>\<open>loop\<close> as a loop (\<open>while_option\<close>): it ends on any bytes, and accepts exactly the framed ones.
  \<open>Audit_Chain_Proofs\<close>, \<open>Audit_Store_Proofs\<close>, \<open>Audit_Writer_Proofs\<close>: the verifier is exact, tampering
  needs a hash collision, and the writer refines a list of observations across restarts.
  \<open>Lifecycle_Proofs\<close>, \<open>Lifecycle_Props\<close>: the two stores implement one interface; the engine and the
  sweep keep the lifecycle graph consistent in every history and never reopen what is closed;
  \<open>Lifecycle_Race\<close>, \<open>_Faults\<close>, \<open>_Flaky\<close>: the same call by call, with the staleness scan between the calls of the
  engine and with failing statements and queries; rows stay well typed and consistent, a closed lifecycle
  can only be lost to somebody who holds an older copy of it or to an event that creates another one under its identifier or
  keys, and runs of each kind show that it then is (\<open>scan_overwrites_settlement\<close>, \<open>event_reopens_timed_out\<close>,
  \<open>lost_query_erases_lifecycle\<close>, \<open>reused_event_id_erases_lifecycle\<close>).
  \<open>Tracker_Windows\<close>, \<open>Tracker_Targets\<close>, \<open>Signal_Props\<close>: the trackers hold the exact window of their
  history and the signals fire exactly when it says so.
  \<open>Wall_Clock\<close>: the hand-written civil-date routine against a calendar.
  \<open>Float_Order\<close>: rounding is monotone, so the percentages compared with water marks behave.
  \<open>Ingest_Props\<close>: evidence, audit trail, decisions and drop account of the frame path.
  \<open>Framing\<close>: the bytes of a connection amount to their complete frames, whatever follows them.
  \<open>Tasks\<close>: a task that nothing else meets does what its whole operation does, so the properties of the operations
  speak of the tasks.
  \<open>System\<close>: rule induction over the runs of the whole daemon: the evidence stays committed to in a chain
  that verifies, or on its way to it, but for what a count of losses covers; a daemon that dies starts again; a closed lifecycle stays closed.
  \<open>Concurrency\<close>: what is on its way is one step of its task away from its commitment; the engine's lock excludes a second
  event; the order of evidence and trail can differ.
  \<open>Cli_Props\<close>: what \<^verbatim>\<open>audit verify\<close>, \<^verbatim>\<open>status\<close> and \<^verbatim>\<open>doctor\<close> tell about such a daemon.

  \<^bold>\<open>Conventions.\<close>  Integers keep their width (\<open>u64\<close> is a 64-bit word, \<open>+\<close> wraps as in the release
  profile; \<open>usize\<close> capacities are natural numbers).  Every I/O call consumes one outcome of a script
  (\<open>Disk\<close>, the SQLite scripts, the connection); an exhausted script means success, so a theorem for
  all scripts covers all failures (queries of the lifecycle database fail by a list of their own), and
  \<open>quiet\<close> says that none happens.  Errors are sums.  Floats are
  rationals with IEEE rounding (\<open>Floats\<close>; the sign of zero is not kept).  Loops are structural; the
  bounds in hypotheses (fewer than \<open>2 ^ 64 - 2\<close> operations or steps, records shorter than \<open>2 ^ 32\<close> bytes) are
  the sizes of the counters and of the length prefix.

  \<^bold>\<open>Parameters.\<close>  BLAKE3 and Ed25519 (\<open>crypto\<close>; \<open>crypto_ok\<close>: hashes have 32 bytes, signatures of a key
  verify), the JSON text of \<^verbatim>\<open>serde_json\<close> (\<open>json_text\<close>, \<open>decision_text\<close>), the derived serde code of
  \<open>Event\<close> (\<open>codecs\<close>), fresh identifiers and clock readings (arguments or \<open>stamps\<close>), what \<^verbatim>\<open>sysinfo\<close>
  and \<open>stat\<close> report, the length-delimited codec of \<^verbatim>\<open>tokio-util\<close> (\<open>framing_ok\<close>), and for the command line the texts of
  errors and of JSON (\<open>cli_ctx\<close>).

  \<^bold>\<open>Concurrency.\<close>  The parts sit behind one lock each and a frame takes them one after the other.  \<open>Ingest\<close>,
  \<open>Eviction_Driver\<close> and \<open>Shim_Spool\<close> model a frame, a pass and a drain as whole operations; \<open>Tasks\<close> and \<open>System\<close> take what
  happens under one lock as the step, and \<open>Lifecycle_Race\<close> one call of the engine or of the staleness scan, which takes no
  lock, to the store (the lookups of an event are one such call).  A whole operation is the run of steps that nothing else
  meets (\<open>ingest_alone\<close>, \<open>gap_alone\<close>, \<open>drain_alone\<close>, \<open>pass_alone\<close>, \<open>stop_alone\<close>, \<open>undisturbed_frame\<close>).  Admission, parsing and validation
  of a frame, the answer to a status request and a change of the drop counters are one step; the lock-free drop counters are
  taken apart into their atomic actions in \<open>Ingest_Props\<close>.  The clock readings and identifiers of a frame are chosen when it
  arrives.

  \<^bold>\<open>Not modelled.\<close>  The socket calls of the accept loop and the task spawning of \<^verbatim>\<open>tokio\<close> (its timers are the caller's
  choice of the next step), logging, the texts of errors, the SQL text and the WAL
  mode of SQLite (its tables are lists of rows with their unique indexes), structs given as JSON arrays,
  and the PHP shim and reference application.
\<close>

end
